(* ===== verification/Rust_Prelude.thy ===== *)
theory Rust_Prelude
  imports Main "HOL-Library.Word"
begin

unbundle bit_operations_syntax

text \<open>
  Shared vocabulary of the development.

  \<^item> the machine integers of the sources as words of their width, with the saturating and
    checked operations of the Rust standard library;
  \<^item> the result of a Rust call (\<open>outcome\<close>): \<open>Ok\<close> and \<open>Err\<close> are the two constructors of
    \<^verbatim>\<open>Result\<close>, \<open>Panic\<close> is an unwinding call (arithmetic overflow is checked, see
    \<^verbatim>\<open>overflow-checks = true\<close> in Cargo.toml) and \<open>Deadlock\<close> is a call that never returns
    because it locks a \<^verbatim>\<open>std::sync::Mutex\<close> its own thread already holds;
  \<^item> little- and big-endian byte encodings of words and their round trips;
  \<^item> sums over finite maps, which carry the accounting invariants of the store;
  \<^item> Rust's \<^verbatim>\<open>Vec::swap_remove\<close>;
  \<^item> an interface for transition systems with an invariant (\<open>invariant_system\<close>) and one for
    fixed-width codecs (\<open>byte_codec\<close>).
\<close>

section \<open>Machine integers\<close>

type_synonym u8 = "8 word"
type_synonym u16 = "16 word"
type_synonym u32 = "32 word"
type_synonym u64 = "64 word"
type_synonym u128 = "128 word"
type_synonym usize = "64 word"

type_synonym bytes = "u8 list"

named_theorems rust_arith \<open>saturating and checked machine arithmetic, read as natural numbers\<close>

definition sat_add :: "'a::len word \<Rightarrow> 'a word \<Rightarrow> 'a word" where
  "sat_add a b = (if unat a + unat b < 2 ^ LENGTH('a) then a + b else - 1)"

definition sat_sub :: "'a::len word \<Rightarrow> 'a word \<Rightarrow> 'a word" where
  "sat_sub a b = (if b \<le> a then a - b else 0)"

definition sat_mul :: "'a::len word \<Rightarrow> 'a word \<Rightarrow> 'a word" where
  "sat_mul a b = (if unat a * unat b < 2 ^ LENGTH('a) then a * b else - 1)"

definition checked_add :: "'a::len word \<Rightarrow> 'a word \<Rightarrow> 'a word option" where
  "checked_add a b = (if unat a + unat b < 2 ^ LENGTH('a) then Some (a + b) else None)"

lemma unat_lt2p: "unat (w :: 'a::len word) < 2 ^ LENGTH('a)"
  by (rule unsigned_less)

lemma word_eq_iff_unat: "a = b \<longleftrightarrow> unat a = unat (b :: 'a::len word)"
  by (auto intro: unsigned_word_eqI)

lemma unat_of_nat_small: "n < 2 ^ LENGTH('a) \<Longrightarrow> unat (of_nat n :: 'a::len word) = n"
  by (simp add: unat_of_nat)

lemma unat_max_word [rust_arith]: "unat (- 1 :: 'a::len word) = 2 ^ LENGTH('a) - 1"
  by (simp add: unsigned_minus_1_eq_mask mask_eq_exp_minus_1)

lemma unat_add_small:
  "unat a + unat b < 2 ^ LENGTH('a) \<Longrightarrow> unat (a + b :: 'a::len word) = unat a + unat b"
  by (simp add: unat_word_ariths)

lemma unat_sat_add [rust_arith]:
  "unat (sat_add a b :: 'a::len word) = min (unat a + unat b) (2 ^ LENGTH('a) - 1)"
proof (cases "unat a + unat b < 2 ^ LENGTH('a)")
  case True
  then show ?thesis by (simp add: sat_add_def unat_add_small)
next
  case False
  then show ?thesis by (simp add: sat_add_def unat_max_word)
qed

lemma unat_sat_sub [rust_arith]: "unat (sat_sub a b :: 'a::len word) = unat a - unat b"
  by (auto simp: sat_sub_def word_le_nat_alt unat_sub_if')

lemma unat_sat_mul [rust_arith]:
  "unat (sat_mul a b :: 'a::len word) = min (unat a * unat b) (2 ^ LENGTH('a) - 1)"
proof (cases "unat a * unat b < 2 ^ LENGTH('a)")
  case True
  then show ?thesis by (simp add: sat_mul_def unat_word_ariths)
next
  case False
  then show ?thesis by (simp add: sat_mul_def unat_max_word)
qed

lemma sat_add_ge: "(a :: 'a::len word) \<le> sat_add a b"
proof -
  have "unat a \<le> 2 ^ LENGTH('a) - 1"
    using unat_lt2p [of a] by linarith
  then show ?thesis by (simp add: word_le_nat_alt unat_sat_add)
qed

lemma checked_add_Some:
  "checked_add a b = Some c \<longleftrightarrow> unat a + unat b < 2 ^ LENGTH('a) \<and> c = (a + b :: 'a::len word)"
  by (auto simp: checked_add_def)

lemma checked_add_None:
  "checked_add a b = None \<longleftrightarrow> 2 ^ LENGTH('a) \<le> unat a + unat (b :: 'a::len word)"
  by (auto simp: checked_add_def)

section \<open>Results of a call\<close>

datatype ('a, 'e) outcome = Ok 'a | Err 'e | Panic | Deadlock

fun obind :: "('a, 'e) outcome \<Rightarrow> ('a \<Rightarrow> ('b, 'e) outcome) \<Rightarrow> ('b, 'e) outcome" where
  "obind (Ok x) f = f x"
| "obind (Err e) f = Err e"
| "obind Panic f = Panic"
| "obind Deadlock f = Deadlock"

lemma obind_eq_Ok: "obind m f = Ok y \<longleftrightarrow> (\<exists>x. m = Ok x \<and> f x = Ok y)"
  by (cases m) auto

section \<open>Byte order\<close>

fun nat_le_bytes :: "nat \<Rightarrow> nat \<Rightarrow> bytes" where
  "nat_le_bytes 0 x = []"
| "nat_le_bytes (Suc n) x = of_nat (x mod 256) # nat_le_bytes n (x div 256)"

fun le_bytes_nat :: "bytes \<Rightarrow> nat" where
  "le_bytes_nat [] = 0"
| "le_bytes_nat (b # bs) = unat b + 256 * le_bytes_nat bs"

lemma nat_le_bytes_numeral:
  "nat_le_bytes (numeral k) x = of_nat (x mod 256) # nat_le_bytes (pred_numeral k) (x div 256)"
  unfolding numeral_eq_Suc [of k] by (rule nat_le_bytes.simps)

definition to_le_bytes :: "'a::len word \<Rightarrow> bytes" where
  "to_le_bytes w = nat_le_bytes (LENGTH('a) div 8) (unat w)"

definition from_le_bytes :: "bytes \<Rightarrow> 'a::len word" where
  "from_le_bytes bs = of_nat (le_bytes_nat bs)"

definition to_be_bytes :: "'a::len word \<Rightarrow> bytes" where
  "to_be_bytes w = rev (to_le_bytes w)"

definition from_be_bytes :: "bytes \<Rightarrow> 'a::len word" where
  "from_be_bytes bs = from_le_bytes (rev bs)"

lemma length_nat_le_bytes [simp]: "length (nat_le_bytes n x) = n"
  by (induction n arbitrary: x) auto

lemma length_to_le_bytes [simp]: "length (to_le_bytes (w :: 'a::len word)) = LENGTH('a) div 8"
  by (simp add: to_le_bytes_def)

lemma length_to_be_bytes [simp]: "length (to_be_bytes (w :: 'a::len word)) = LENGTH('a) div 8"
  by (simp add: to_be_bytes_def)

lemma unat_byte_mod: "unat (of_nat (x mod 256) :: u8) = x mod 256"
  by (simp add: unat_of_nat)

lemma le_bytes_nat_nat_le_bytes: "le_bytes_nat (nat_le_bytes n x) = x mod 256 ^ n"
proof (induction n arbitrary: x)
  case 0
  then show ?case by simp
next
  case (Suc n)
  have "le_bytes_nat (nat_le_bytes (Suc n) x) = x mod 256 + 256 * (x div 256 mod 256 ^ n)"
    by (simp add: Suc.IH unat_byte_mod)
  also have "\<dots> = x mod (256 * 256 ^ n)"
    by (simp add: mod_mult2_eq)
  finally show ?case by simp
qed

lemma le_bytes_nat_bound: "le_bytes_nat bs < 256 ^ length bs"
proof (induction bs)
  case (Cons b bs)
  have "unat b < 256" using unat_lt2p [of b] by simp
  with Cons show ?case by simp
qed simp

lemma nat_le_bytes_le_bytes_nat: "nat_le_bytes (length bs) (le_bytes_nat bs) = bs"
proof (induction bs)
  case (Cons b bs)
  have "unat b < 256" using unat_lt2p [of b] by simp
  with Cons show ?case by simp
qed simp

lemma from_to_le_bytes:
  assumes "8 dvd LENGTH('a::len)"
  shows "from_le_bytes (to_le_bytes (w :: 'a word)) = w"
proof -
  have "(256 :: nat) ^ (LENGTH('a) div 8) = 2 ^ (8 * (LENGTH('a) div 8))"
    by (simp add: power_mult)
  then have "(256 :: nat) ^ (LENGTH('a) div 8) = 2 ^ LENGTH('a)"
    using assms by simp
  then show ?thesis
    by (simp add: from_le_bytes_def to_le_bytes_def le_bytes_nat_nat_le_bytes
        order_less_imp_le)
qed

lemma to_from_le_bytes:
  assumes "length bs = LENGTH('a::len) div 8" "8 dvd LENGTH('a)"
  shows "to_le_bytes (from_le_bytes bs :: 'a word) = bs"
proof -
  have "(256 :: nat) ^ length bs = 2 ^ (8 * length bs)"
    by (simp add: power_mult)
  with assms have "le_bytes_nat bs < 2 ^ LENGTH('a)"
    using le_bytes_nat_bound [of bs] by simp
  then have "unat (from_le_bytes bs :: 'a word) = le_bytes_nat bs"
    by (simp add: from_le_bytes_def unat_of_nat_small)
  with assms show ?thesis
    by (metis to_le_bytes_def nat_le_bytes_le_bytes_nat)
qed

lemma from_to_be_bytes:
  assumes "8 dvd LENGTH('a::len)"
  shows "from_be_bytes (to_be_bytes (w :: 'a word)) = w"
  using from_to_le_bytes [OF assms] by (simp add: from_be_bytes_def to_be_bytes_def)

text \<open>A fixed-width codec: what the record format relies on for each of its integer fields.\<close>

locale byte_codec =
  fixes enc :: "'v \<Rightarrow> bytes" and dec :: "bytes \<Rightarrow> 'v" and width :: nat
  assumes enc_width [simp]: "length (enc v) = width"
    and dec_enc [simp]: "dec (enc v) = v"
    and enc_dec: "length bs = width \<Longrightarrow> enc (dec bs) = bs"
begin

lemma enc_inject: "enc v = enc w \<longleftrightarrow> v = w"
  by (metis dec_enc)

lemma dec_take: "dec (take width (enc v @ rest)) = v"
  by simp

lemma dec_inject:
  "length bs = width \<Longrightarrow> length cs = width \<Longrightarrow> dec bs = dec cs \<longleftrightarrow> bs = cs"
  by (metis enc_dec)

end

interpretation u16_le: byte_codec "to_le_bytes :: u16 \<Rightarrow> bytes" from_le_bytes 2
  by unfold_locales (simp_all add: from_to_le_bytes to_from_le_bytes)

interpretation u32_le: byte_codec "to_le_bytes :: u32 \<Rightarrow> bytes" from_le_bytes 4
  by unfold_locales (simp_all add: from_to_le_bytes to_from_le_bytes)

interpretation u64_le: byte_codec "to_le_bytes :: u64 \<Rightarrow> bytes" from_le_bytes 8
  by unfold_locales (simp_all add: from_to_le_bytes to_from_le_bytes)

section \<open>Sums over finite maps\<close>

text \<open>
  \<open>val_sum f m\<close> adds \<open>f\<close> over the values of a map. Its two laws describe how the total
  moves when one key is stored or dropped, in any commutative ring; on \<open>64 word\<close> they hold
  with wrap-around, exactly as the atomic counters of the sources do.
\<close>

definition val_sum :: "('v \<Rightarrow> 'n::comm_ring_1) \<Rightarrow> ('k \<rightharpoonup> 'v) \<Rightarrow> 'n" where
  "val_sum f m = (\<Sum>k\<in>dom m. f (the (m k)))"

definition opt_val :: "('v \<Rightarrow> 'n::zero) \<Rightarrow> 'v option \<Rightarrow> 'n" where
  "opt_val f x = (case x of None \<Rightarrow> 0 | Some v \<Rightarrow> f v)"

lemma opt_val_simps [simp]: "opt_val f None = 0" "opt_val f (Some v) = f v"
  by (simp_all add: opt_val_def)

lemma val_sum_empty [simp]: "val_sum f Map.empty = 0"
  by (simp add: val_sum_def)

lemma val_sum_delete:
  assumes "finite (dom m)"
  shows "val_sum f (m(k := None)) = val_sum f m - opt_val f (m k)"
proof (cases "m k")
  case None
  then have "m(k := None) = m" by auto
  with None show ?thesis by simp
next
  case (Some v)
  then have "k \<in> dom m" by auto
  then have "val_sum f m = f v + (\<Sum>j\<in>dom m - {k}. f (the (m j)))"
    using assms Some by (simp add: val_sum_def sum.remove)
  moreover have "val_sum f (m(k := None)) = (\<Sum>j\<in>dom m - {k}. f (the (m j)))"
    unfolding val_sum_def by (rule sum.cong) auto
  ultimately show ?thesis using Some by simp
qed

lemma val_sum_update:
  assumes "finite (dom m)"
  shows "val_sum f (m(k \<mapsto> v)) = val_sum f m - opt_val f (m k) + f v"
proof -
  have fin: "finite (dom (m(k \<mapsto> v)))" using assms by simp
  have "val_sum f ((m(k \<mapsto> v))(k := None)) = val_sum f (m(k \<mapsto> v)) - f v"
    using val_sum_delete [OF fin, of f k] by simp
  moreover have "(m(k \<mapsto> v))(k := None) = m(k := None)" by simp
  ultimately show ?thesis
    using val_sum_delete [OF assms, of f k] by (simp add: algebra_simps)
qed

lemmas val_sum_laws = val_sum_update val_sum_delete

text \<open>The keys whose value satisfies a predicate: what a secondary index of a map must hold.\<close>

definition keys_where :: "('v \<Rightarrow> bool) \<Rightarrow> ('k \<rightharpoonup> 'v) \<Rightarrow> 'k set" where
  "keys_where P m = {k. \<exists>v. m k = Some v \<and> P v}"

lemma keys_where_empty [simp]: "keys_where P Map.empty = {}"
  by (simp add: keys_where_def)

lemma keys_where_update:
  "keys_where P (m(k \<mapsto> v)) = (if P v then insert k (keys_where P m) else keys_where P m - {k})"
  by (auto simp: keys_where_def)

lemma keys_where_delete: "keys_where P (m(k := None)) = keys_where P m - {k}"
  by (auto simp: keys_where_def)

lemma mem_keys_where [simp]: "k \<in> keys_where P m \<longleftrightarrow> (\<exists>v. m k = Some v \<and> P v)"
  by (simp add: keys_where_def)

lemma keys_where_dom: "keys_where P m \<subseteq> dom m"
  by auto

lemmas keys_where_laws = keys_where_update keys_where_delete

lemma val_sum_card:
  assumes "finite (dom m)"
  shows "val_sum (\<lambda>v. of_bool (P v)) m = of_nat (card (keys_where P m))"
proof -
  have "val_sum (\<lambda>v. of_bool (P v)) m = (\<Sum>k\<in>dom m. of_bool (k \<in> keys_where P m))"
    unfolding val_sum_def by (rule sum.cong) auto
  also have "\<dots> = of_nat (card (dom m \<inter> keys_where P m))"
    using assms by (simp add: of_bool_def sum.If_cases Int_def)
  finally show ?thesis by (simp add: Int_absorb1 keys_where_dom)
qed

section \<open>Vectors\<close>

text \<open>\<^verbatim>\<open>Vec::swap_remove\<close>: the last element takes the place of the removed one. It panics
  when the index is out of range; the callers check the index first.\<close>

definition swap_remove :: "nat \<Rightarrow> 'a list \<Rightarrow> 'a list" where
  "swap_remove p xs = butlast (xs[p := last xs])"

lemma length_swap_remove: "xs \<noteq> [] \<Longrightarrow> length (swap_remove p xs) = length xs - 1"
  by (simp add: swap_remove_def)

lemma nth_swap_remove:
  assumes "p < length xs" "i < length xs - 1"
  shows "swap_remove p xs ! i = (if i = p then last xs else xs ! i)"
  using assms by (simp add: swap_remove_def nth_butlast nth_list_update)

lemma set_swap_remove:
  assumes "p < length xs"
  shows "set (swap_remove p xs) \<union> {xs ! p} = set xs"
proof -
  have ne: "xs \<noteq> []" using assms by auto
  show ?thesis
  proof (cases "p = length xs - 1")
    case True
    then have "xs[p := last xs] = xs"
      using ne by (simp add: last_conv_nth)
    then show ?thesis
      using ne True by (metis append_butlast_last_id last_conv_nth list.simps(15) set_append
          set_simps(1) swap_remove_def)
  next
    case False
    then have p: "p < length xs - 1" using assms by simp
    then have *: "butlast (xs[p := last xs]) = (butlast xs)[p := last xs]"
      by (simp add: butlast_list_update)
    have pb: "p < length (butlast xs)" using p by simp
    have "set xs = set (butlast xs) \<union> {last xs}"
      using ne by (metis append_butlast_last_id list.simps(15) set_append set_simps(1))
    moreover have "set ((butlast xs)[p := last xs]) \<union> {xs ! p} = set (butlast xs) \<union> {last xs}"
    proof -
      have b: "butlast xs = take p (butlast xs) @ xs ! p # drop (Suc p) (butlast xs)"
        using pb id_take_nth_drop [OF pb] by (simp add: nth_butlast)
      show ?thesis
        using pb by (subst b, subst (2) b) (auto simp: list_update_append)
    qed
    ultimately show ?thesis by (simp add: swap_remove_def *)
  qed
qed

section \<open>Transition systems with an invariant\<close>

text \<open>
  The interface through which a component states that its operations keep its invariant: the
  initial state, the steps (one per operation and argument), the invariant, the operations that
  respect their documented precondition, and the two laws. A client gets the invariant after
  every sequence of such operations.
\<close>

locale invariant_system =
  fixes init :: 's and step :: "'op \<Rightarrow> 's \<Rightarrow> 's" and inv :: "'s \<Rightarrow> bool" and allowed :: "'op \<Rightarrow> bool"
  assumes inv_init: "inv init"
    and inv_step: "allowed op \<Longrightarrow> inv s \<Longrightarrow> inv (step op s)"
begin

lemma inv_fold: "list_all allowed ops \<Longrightarrow> inv s \<Longrightarrow> inv (fold step ops s)"
  by (induction ops arbitrary: s) (simp_all add: inv_step)

lemma inv_run: "list_all allowed ops \<Longrightarrow> inv (fold step ops init)"
  by (rule inv_fold [OF _ inv_init])

end

end
