(* ===== verification/Rust_Text.thy ===== *)
theory Rust_Text
  imports Rust_Prelude
begin

text \<open>
  The text conversions the sources use: \<^verbatim>\<open>u64\<close> printing (\<^verbatim>\<open>{}\<close> and zero-padded \<^verbatim>\<open>{:020}\<close>), \<^verbatim>\<open>u64::from_str\<close>,
  \<^verbatim>\<open>strip_prefix\<close>, \<^verbatim>\<open>strip_suffix\<close>, \<^verbatim>\<open>trim\<close> and \<^verbatim>\<open>lines\<close>, on ASCII text.
\<close>

section \<open>Decimal numbers\<close>

definition digit_char :: "nat \<Rightarrow> char" where
  "digit_char d = char_of (48 + d)"

fun dec_string :: "nat \<Rightarrow> string" where
  "dec_string n = (if n < 10 then [digit_char n] else dec_string (n div 10) @ [digit_char (n mod 10)])"

declare dec_string.simps [simp del]

definition digit_val :: "char \<Rightarrow> nat option" where
  "digit_val c = (let n = of_char c :: nat in if 48 \<le> n \<and> n \<le> 57 then Some (n - 48) else None)"

fun parse_digits :: "nat \<Rightarrow> string \<Rightarrow> nat option" where
  "parse_digits acc [] = Some acc"
| "parse_digits acc (c # cs) =
     (case digit_val c of None \<Rightarrow> None | Some d \<Rightarrow> parse_digits (acc * 10 + d) cs)"

text \<open>\<^verbatim>\<open>u64::from_str\<close>: an optional plus sign, at least one digit, and no overflow.\<close>

definition parse_u64 :: "string \<Rightarrow> u64 option" where
  "parse_u64 s =
     (let ds = (if s \<noteq> [] \<and> hd s = CHR ''+'' then tl s else s)
      in if ds = [] then None
         else case parse_digits 0 ds of
                None \<Rightarrow> None
              | Some n \<Rightarrow> if n < 2 ^ 64 then Some (of_nat n) else None)"

definition pad20 :: "string \<Rightarrow> string" where
  "pad20 s = replicate (20 - length s) (CHR ''0'') @ s"

section \<open>Slices of text\<close>

definition strip_prefix :: "string \<Rightarrow> string \<Rightarrow> string option" where
  "strip_prefix p s = (if take (length p) s = p then Some (drop (length p) s) else None)"

definition strip_suffix :: "string \<Rightarrow> string \<Rightarrow> string option" where
  "strip_suffix p s = map_option rev (strip_prefix (rev p) (rev s))"

definition is_ws :: "char \<Rightarrow> bool" where
  "is_ws c = (let n = of_char c :: nat in n = 32 \<or> (9 \<le> n \<and> n \<le> 13))"

definition trim :: "string \<Rightarrow> string" where
  "trim s = rev (dropWhile is_ws (rev (dropWhile is_ws s)))"

text \<open>\<^verbatim>\<open>str::lines\<close>: lines end at a line feed, which is dropped with a preceding carriage return; a
  final line feed does not start another line.\<close>

definition drop_cr :: "string \<Rightarrow> string" where
  "drop_cr l = (if l \<noteq> [] \<and> last l = char_of (13 :: nat) then butlast l else l)"

fun lines_acc :: "string \<Rightarrow> string \<Rightarrow> string list" where
  "lines_acc cur [] = (if cur = [] then [] else [rev cur])"
| "lines_acc cur (c # cs) =
     (if c = char_of (10 :: nat) then drop_cr (rev cur) # lines_acc [] cs else lines_acc (c # cur) cs)"

definition lines :: "string \<Rightarrow> string list" where
  "lines s = lines_acc [] s"

section \<open>Round trips\<close>

lemma digit_val_char [simp]: "d < 10 \<Longrightarrow> digit_val (digit_char d) = Some d"
  by (simp add: digit_val_def digit_char_def Let_def)

lemma parse_digits_append:
  "parse_digits a (xs @ ys) = (case parse_digits a xs of None \<Rightarrow> None | Some b \<Rightarrow> parse_digits b ys)"
  by (induction xs arbitrary: a) (simp_all split: option.split)

lemma parse_dec_string: "parse_digits 0 (dec_string n) = Some n"
proof (induction n rule: dec_string.induct)
  case (1 n)
  show ?case
  proof (cases "n < 10")
    case True
    then show ?thesis by (subst dec_string.simps) simp
  next
    case False
    then show ?thesis using "1.IH" by (subst dec_string.simps) (simp add: parse_digits_append)
  qed
qed

lemma dec_string_digits: "c \<in> set (dec_string n) \<Longrightarrow> \<exists>d<10. c = digit_char d"
proof (induction n rule: dec_string.induct)
  case (1 n)
  show ?case
  proof (cases "n < 10")
    case True
    then show ?thesis using "1.prems" by (subst (asm) dec_string.simps) auto
  next
    case False
    then consider "c \<in> set (dec_string (n div 10))" | "c = digit_char (n mod 10)"
      using "1.prems" by (subst (asm) dec_string.simps) auto
    then show ?thesis
    proof cases
      case 1
      then show ?thesis using "1.IH" False by blast
    next
      case 2
      moreover have "n mod 10 < 10" by simp
      ultimately show ?thesis by blast
    qed
  qed
qed

lemma dec_string_ne [simp]: "dec_string n \<noteq> []"
  by (subst dec_string.simps) simp

lemma digit_char_not: "d < 10 \<Longrightarrow> digit_char d \<noteq> CHR ''+'' \<and> \<not> is_ws (digit_char d) \<and>
    digit_char d \<noteq> char_of (10 :: nat) \<and> digit_char d \<noteq> char_of (13 :: nat)"
proof -
  assume d: "d < 10"
  have c: "of_char (digit_char d) = (48 + d :: nat)" using d by (simp add: digit_char_def)
  have "of_char (CHR ''+'') = (43 :: nat)" "of_char (char_of (10 :: nat)) = (10 :: nat)"
    "of_char (char_of (13 :: nat)) = (13 :: nat)"
    by simp_all
  with c show ?thesis by (auto simp: is_ws_def Let_def)
qed

lemma parse_zeros: "parse_digits 0 (replicate k (CHR ''0'') @ s) = parse_digits 0 s"
  by (induction k) (simp_all add: digit_val_def)

lemma hd_dec_string: "hd (dec_string n) \<noteq> CHR ''+''"
proof -
  have "hd (dec_string n) \<in> set (dec_string n)" by simp
  then obtain d where "d < 10" "hd (dec_string n) = digit_char d" using dec_string_digits by blast
  then show ?thesis using digit_char_not by simp
qed

lemma parse_u64_dec: "parse_u64 (dec_string (unat n)) = Some n"
  by (simp add: parse_u64_def Let_def hd_dec_string parse_dec_string unat_lt2p [of n, simplified])

lemma parse_u64_pad: "parse_u64 (pad20 (dec_string (unat n))) = Some n"
proof -
  have "hd (pad20 (dec_string (unat n))) \<noteq> CHR ''+''"
    using hd_dec_string [of "unat n"] by (cases "20 - length (dec_string (unat n))") (simp_all add: pad20_def)
  then show ?thesis
    by (simp add: parse_u64_def Let_def pad20_def parse_zeros parse_dec_string unat_lt2p [of n, simplified])
qed

lemma strip_prefix_append [simp]: "strip_prefix p (p @ s) = Some s"
  by (simp add: strip_prefix_def)

lemma strip_suffix_append [simp]: "strip_suffix p (s @ p) = Some s"
  by (simp add: strip_suffix_def)

lemma trim_dec [simp]: "trim (dec_string n) = dec_string n"
proof -
  have "dropWhile is_ws xs = xs" if "set xs \<subseteq> set (dec_string n)" for xs
    using that dec_string_digits digit_char_not by (cases xs) fastforce+
  then show ?thesis by (simp add: trim_def)
qed

lemma lines_acc_no_nl:
  "char_of (10 :: nat) \<notin> set s \<Longrightarrow>
   lines_acc cur (s @ char_of (10 :: nat) # rest) = drop_cr (rev cur @ s) # lines_acc [] rest"
  by (induction s arbitrary: cur) auto

end
