(* ===== verification/Ramwal_Record.thy ===== *)
theory Ramwal_Record
  imports Rust_Text
begin

text \<open>
  The on-disk record format of the write-ahead log: \<^verbatim>\<open>crates/ramwal/src/{record,lsn,error,segment}.rs\<close>.

  Two third-party libraries are parameters: \<open>crc\<close>, the CRC-32C of a byte string (crate \<^verbatim>\<open>crc\<close>), and
  \<open>compress\<close>/\<open>decompress\<close>, LZ4 with a size prefix (crate \<^verbatim>\<open>lz4_flex\<close>; an error carries its text).
  What the log relies on of LZ4 is \<open>lz4_ok\<close>: decompression inverts compression, and the output starts
  with the little-endian input length. File offsets and sizes are natural numbers: the operating
  system keeps them below 2^63, so the \<^verbatim>\<open>u64\<close> arithmetic on them never wraps.
\<close>

section \<open>Errors\<close>

datatype corruption =
    InvalidMagic nat
  | UnsupportedVersion nat u16
  | InvalidLength nat u32
  | InvalidFlags nat u8
  | ChecksumMismatch nat u64
  | LsnViolation u64 u64
  | NonFinalSegmentTail nat
  | PayloadDecode nat u64 string

datatype tail_state =
    TailClean
  | PartialHeader nat
  | PartialPayload nat u32 u32

datatype io_error = StorageFull | OtherIo string

datatype wal_error =
    Io io_error
  | Corruption u64 nat corruption
  | Tail u64 tail_state
  | Manifest string
  | DiskFull
  | Closed
  | Poisoned
  | LsnExhausted
  | CheckpointRequired u64 u64
  | CheckpointNotDurable u64 u64
  | CheckpointRegression u64 u64
  | InvalidConfiguration string

definition from_io :: "io_error \<Rightarrow> wal_error" where
  "from_io e = (if e = StorageFull then DiskFull else Io e)"

section \<open>Sequence numbers and segment names\<close>

definition lsn_checked_next :: "u64 \<Rightarrow> u64 option" where
  "lsn_checked_next l = checked_add l 1"

definition lsn_next :: "u64 \<Rightarrow> wal_error + u64" where
  "lsn_next l = (case lsn_checked_next l of None \<Rightarrow> Inl LsnExhausted | Some n \<Rightarrow> Inr n)"

definition seg_name :: "u64 \<Rightarrow> string" where
  "seg_name idx = ''segment-'' @ pad20 (dec_string (unat idx)) @ ''.rwl''"

definition parse_seg_idx :: "string \<Rightarrow> u64 option" where
  "parse_seg_idx name =
     Option.bind (strip_prefix ''segment-'' name) (\<lambda>s.
       Option.bind (strip_suffix ''.rwl'' s) parse_u64)"

section \<open>Headers\<close>

definition record_magic :: bytes where
  "record_magic = [0x52, 0x57, 0x4C, 0x31]"

definition format_version :: u16 where
  "format_version = 1"

definition header_size :: nat where
  "header_size = 23"

definition max_record_size :: u32 where
  "max_record_size = 64 * 1024"

definition flag_compressed :: u8 where
  "flag_compressed = 1"

record record_header =
  rh_lsn :: u64
  payload_len :: u32
  rh_crc32c :: u32
  rh_flags :: u8

definition header_encode :: "record_header \<Rightarrow> bytes" where
  "header_encode h =
     record_magic @ to_le_bytes format_version @ to_le_bytes (rh_lsn h) @
     to_le_bytes (payload_len h) @ to_le_bytes (rh_crc32c h) @ [rh_flags h]"

definition crc32c_of :: "(bytes \<Rightarrow> u32) \<Rightarrow> u64 \<Rightarrow> u32 \<Rightarrow> u8 \<Rightarrow> bytes \<Rightarrow> u32" where
  "crc32c_of crc lsn plen flags payload =
     crc (to_le_bytes lsn @ to_le_bytes plen @ [flags] @ payload)"

definition header_new :: "(bytes \<Rightarrow> u32) \<Rightarrow> u64 \<Rightarrow> bytes \<Rightarrow> u8 \<Rightarrow> record_header" where
  "header_new crc lsn stored flags =
     \<lparr>rh_lsn = lsn, payload_len = of_nat (length stored),
      rh_crc32c = crc32c_of crc lsn (of_nat (length stored)) flags stored, rh_flags = flags\<rparr>"

text \<open>\<^verbatim>\<open>bytes[a..b]\<close>.\<close>

definition slice :: "nat \<Rightarrow> nat \<Rightarrow> 'a list \<Rightarrow> 'a list" where
  "slice a b xs = take (b - a) (drop a xs)"

definition header_decode :: "bytes \<Rightarrow> (corruption + record_header) option" where
  "header_decode bs =
     (if length bs < header_size then None
      else if slice 0 4 bs \<noteq> record_magic then Some (Inl (InvalidMagic 0))
      else
        let version = from_le_bytes (slice 4 6 bs) in
        if version \<noteq> format_version then Some (Inl (UnsupportedVersion 4 version))
        else
          let lsn = from_le_bytes (slice 6 14 bs);
              plen = from_le_bytes (slice 14 18 bs)
          in if plen > max_record_size then Some (Inl (InvalidLength 14 plen))
             else
               let c = from_le_bytes (slice 18 22 bs);
                   flags = bs ! 22
               in if flags AND NOT flag_compressed \<noteq> 0 then Some (Inl (InvalidFlags 22 flags))
                  else Some (Inr \<lparr>rh_lsn = lsn, payload_len = plen, rh_crc32c = c, rh_flags = flags\<rparr>))"

definition verify_crc :: "(bytes \<Rightarrow> u32) \<Rightarrow> record_header \<Rightarrow> bytes \<Rightarrow> corruption + unit" where
  "verify_crc crc h stored =
     (if crc32c_of crc (rh_lsn h) (payload_len h) (rh_flags h) stored \<noteq> rh_crc32c h
      then Inl (ChecksumMismatch 18 (rh_lsn h)) else Inr ())"

section \<open>Payloads\<close>

definition encode_payload :: "(bytes \<Rightarrow> bytes) \<Rightarrow> bytes \<Rightarrow> bool \<Rightarrow> nat \<Rightarrow> bytes \<times> u8" where
  "encode_payload compress raw do_compress min_bytes =
     (if do_compress \<and> length raw > min_bytes then (compress raw, flag_compressed) else (raw, 0))"

definition size_msg :: "string \<Rightarrow> nat \<Rightarrow> nat \<Rightarrow> string" where
  "size_msg what n m = what @ '' size '' @ dec_string n @ '' > max '' @ dec_string m"

definition decode_payload ::
  "(bytes \<Rightarrow> string + bytes) \<Rightarrow> bytes \<Rightarrow> u8 \<Rightarrow> nat \<Rightarrow> string + bytes" where
  "decode_payload decompress data flags max_size =
     (if flags AND flag_compressed = 0 then
        (if length data > max_size then Inl (size_msg ''payload'' (length data) max_size) else Inr data)
      else if length data < 4 then Inl ''compressed payload too short''
      else
        let declared = unat (from_le_bytes (take 4 data) :: u32) in
        if declared > max_size then Inl (size_msg ''decompressed'' declared max_size)
        else case decompress data of
               Inl e \<Rightarrow> Inl (''LZ4 error: '' @ e)
             | Inr out \<Rightarrow>
                 if length out \<noteq> declared then
                   Inl (''decompressed size mismatch: declared '' @ dec_string declared @
                        '', actual '' @ dec_string (length out))
                 else if length out > max_size then Inl (size_msg ''decompressed'' (length out) max_size)
                 else Inr out)"

definition lz4_ok :: "(bytes \<Rightarrow> bytes) \<Rightarrow> (bytes \<Rightarrow> string + bytes) \<Rightarrow> bool" where
  "lz4_ok compress decompress \<longleftrightarrow>
     (\<forall>x. length x < 2 ^ 32 \<longrightarrow>
        decompress (compress x) = Inr x \<and> 4 \<le> length (compress x) \<and>
        take 4 (compress x) = to_le_bytes (of_nat (length x) :: u32))"

section \<open>Round trips\<close>

text \<open>The zero-padded name of a segment parses back to its index, so names of different segments
  differ.\<close>

lemma seg_name_roundtrip:
  "parse_seg_idx (seg_name i) = Some i \<and> (seg_name i = seg_name j \<longleftrightarrow> i = j)"
proof -
  have r: "parse_seg_idx (seg_name k) = Some k" for k
  proof -
    have "strip_prefix ''segment-'' (seg_name k) = Some (pad20 (dec_string (unat k)) @ ''.rwl'')"
      unfolding seg_name_def by (rule strip_prefix_append)
    then show ?thesis by (simp add: parse_seg_idx_def parse_u64_pad)
  qed
  then show ?thesis by (metis option.inject)
qed

lemma length_header_encode [simp]: "length (header_encode h) = header_size"
  by (simp add: header_encode_def record_magic_def header_size_def)

lemma slice_simps:
  "length xs = n \<Longrightarrow> slice 0 n (xs @ ys) = xs"
  "length xs = a \<Longrightarrow> length ys = n \<Longrightarrow> b = a + n \<Longrightarrow> slice a b (xs @ ys @ zs) = ys"
  by (simp_all add: slice_def)

lemma header_slices:
  fixes h rest
  defines "bs \<equiv> header_encode h @ rest"
  shows "slice 0 4 bs = record_magic" "slice 4 6 bs = to_le_bytes format_version"
    "slice 6 14 bs = to_le_bytes (rh_lsn h)" "slice 14 18 bs = to_le_bytes (payload_len h)"
    "slice 18 22 bs = to_le_bytes (rh_crc32c h)" "bs ! 22 = rh_flags h"
  unfolding bs_def header_encode_def
  by (simp_all add: slice_def record_magic_def nth_append)

lemma header_roundtrip:
  assumes "payload_len h \<le> max_record_size" "rh_flags h AND NOT flag_compressed = 0"
  shows "header_decode (header_encode h @ rest) = Some (Inr h)"
  using assms by (simp add: header_decode_def header_slices Let_def not_less)

lemma verify_crc_new [simp]: "verify_crc crc (header_new crc lsn stored flags) stored = Inr ()"
  by (simp add: verify_crc_def header_new_def)

lemma encode_payload_flags: "snd (encode_payload compress raw c m) AND NOT flag_compressed = 0"
  by (simp add: encode_payload_def flag_compressed_def)

lemma payload_roundtrip:
  assumes "lz4_ok compress decompress" "length raw \<le> max_size" "max_size < 2 ^ 32"
    "encode_payload compress raw c m = (stored, flags)"
  shows "decode_payload decompress stored flags max_size = Inr raw"
proof (cases "c \<and> length raw > m")
  case True
  have small: "length raw < 2 ^ 32" using assms by simp
  from assms(1) small have z: "decompress (compress raw) = Inr raw" "4 \<le> length (compress raw)"
    "take 4 (compress raw) = to_le_bytes (of_nat (length raw) :: u32)"
    unfolding lz4_ok_def by blast+
  have "unat (of_nat (length raw) :: u32) = length raw"
    using small by (simp add: unat_of_nat_small)
  with True assms z show ?thesis
    by (auto simp: encode_payload_def decode_payload_def flag_compressed_def Let_def)
next
  case False
  with assms show ?thesis by (auto simp: encode_payload_def decode_payload_def)
qed

end
