(* ===== verification/Ramwal_Scan.thy ===== *)
theory Ramwal_Scan
  imports Ramwal_Record
begin

text \<open>
  The record scanner of the write-ahead log: \<^verbatim>\<open>scan_segment\<close> of \<^verbatim>\<open>crates/ramwal/src/recovery.rs\<close>.

  A segment file is read as a byte string \<open>bs\<close> followed either by the end of the file or, with
  \<open>rerr = Some e\<close>, by the I/O error \<open>e\<close>. Interrupted reads are retried by the code and leave no trace. The
  encoder's view of a segment is a list of items (sequence number, stored payload, flags), and
  the lemmas relate the bytes the scanner accepts to such lists in both directions.
\<close>

section \<open>The scanner\<close>

type_synonym recovered = "u64 \<times> bytes"

record scan_result =
  sr_valid :: nat
  sr_truncate :: bool
  sr_tail :: tail_state
  sr_prev :: "u64 option"
  sr_out :: "recovered list"

definition max_record :: nat where
  "max_record = unat max_record_size"

text \<open>What the end of the readable bytes means inside a record: an I/O error is returned as such, and
  only a true end of file is evidence of an incomplete write.\<close>

definition at_eof :: "io_error option \<Rightarrow> scan_result \<Rightarrow> wal_error + scan_result" where
  "at_eof rerr r = (case rerr of Some e \<Rightarrow> Inl (from_io e) | None \<Rightarrow> Inr r)"

function scan_segment ::
  "(bytes \<Rightarrow> u32) \<Rightarrow> (bytes \<Rightarrow> string + bytes) \<Rightarrow> io_error option \<Rightarrow> u64 \<Rightarrow> nat \<Rightarrow> u64 option \<Rightarrow>
   recovered list \<Rightarrow> bytes \<Rightarrow> wal_error + scan_result" where
  "scan_segment crc dz rerr sid last_valid prev out bs =
     (let res = (\<lambda>tr t. \<lparr>sr_valid = last_valid, sr_truncate = tr, sr_tail = t, sr_prev = prev,
                          sr_out = out\<rparr>)
      in if bs = [] then at_eof rerr (res False TailClean)
      else if length bs < header_size then at_eof rerr (res True (PartialHeader last_valid))
      else case header_decode (take header_size bs) of
        None \<Rightarrow> Inr (res True (PartialHeader last_valid))
      | Some (Inl c) \<Rightarrow> Inl (Corruption sid last_valid c)
      | Some (Inr h) \<Rightarrow>
          let plen = unat (payload_len h); rest = drop header_size bs in
          if length rest < plen then
            at_eof rerr (res True (PartialPayload last_valid (payload_len h) (of_nat (length rest))))
          else
            let payload = take plen rest in
            case verify_crc crc h payload of
              Inl c \<Rightarrow> Inl (Corruption sid last_valid c)
            | Inr _ \<Rightarrow>
                if (case prev of None \<Rightarrow> False | Some p \<Rightarrow> rh_lsn h \<le> p) then
                  Inl (Corruption sid last_valid (LsnViolation (the prev) (rh_lsn h)))
                else
                  case decode_payload dz payload (rh_flags h) max_record of
                    Inl reason \<Rightarrow>
                      Inl (Corruption sid last_valid (PayloadDecode last_valid (rh_lsn h) reason))
                  | Inr decoded \<Rightarrow>
                      scan_segment crc dz rerr sid (last_valid + header_size + plen) (Some (rh_lsn h))
                        (out @ [(rh_lsn h, decoded)]) (drop plen rest))"
  by pat_completeness auto
termination
  by (relation "measure (\<lambda>(_, _, _, _, _, _, _, bs). length bs)") (auto simp: header_size_def)

declare scan_segment.simps [simp del]

section \<open>The encoder's view\<close>

type_synonym wal_item = "u64 \<times> bytes \<times> u8"

definition enc_item :: "(bytes \<Rightarrow> u32) \<Rightarrow> wal_item \<Rightarrow> bytes" where
  "enc_item crc it = (case it of (lsn, stored, flags) \<Rightarrow>
     header_encode (header_new crc lsn stored flags) @ stored)"

definition encs :: "(bytes \<Rightarrow> u32) \<Rightarrow> wal_item list \<Rightarrow> bytes" where
  "encs crc its = concat (map (enc_item crc) its)"

definition item_ok :: "(bytes \<Rightarrow> string + bytes) \<Rightarrow> wal_item \<Rightarrow> bool" where
  "item_ok dz it = (case it of (lsn, stored, flags) \<Rightarrow>
     length stored \<le> max_record \<and> flags AND NOT flag_compressed = 0 \<and>
     (case decode_payload dz stored flags max_record of Inl _ \<Rightarrow> False | Inr _ \<Rightarrow> True))"

definition item_rec :: "(bytes \<Rightarrow> string + bytes) \<Rightarrow> wal_item \<Rightarrow> recovered" where
  "item_rec dz it = (case it of (lsn, stored, flags) \<Rightarrow>
     (lsn, projr (decode_payload dz stored flags max_record)))"

definition above :: "u64 option \<Rightarrow> u64 \<Rightarrow> bool" where
  "above prev l = (case prev of None \<Rightarrow> True | Some p \<Rightarrow> p < l)"

fun asc :: "u64 option \<Rightarrow> u64 list \<Rightarrow> bool" where
  "asc prev [] = True"
| "asc prev (l # ls) = (above prev l \<and> asc (Some l) ls)"

definition last_of :: "u64 option \<Rightarrow> u64 list \<Rightarrow> u64 option" where
  "last_of prev ls = (if ls = [] then prev else Some (last ls))"

lemma encs_simps [simp]:
  "encs crc [] = []" "encs crc (it # its) = enc_item crc it @ encs crc its"
  "encs crc (its @ its') = encs crc its @ encs crc its'"
  by (simp_all add: encs_def)

lemma last_of_simps [simp]:
  "last_of prev [] = prev" "last_of prev (l # ls) = last_of (Some l) ls"
  "last_of prev (ls @ ls') = last_of (last_of prev ls) ls'"
  by (simp_all add: last_of_def)

lemma item_rec_fst [simp]: "fst (item_rec dz it) = fst it"
  by (simp add: item_rec_def split: prod.split)

lemma length_enc_item: "length (enc_item crc (l, st, fl)) = header_size + length st"
  by (simp add: enc_item_def)

lemma enc_item_ne [simp]: "enc_item crc it \<noteq> []" "0 < length (enc_item crc it)"
  by (cases it; simp add: enc_item_def header_encode_def record_magic_def)+

lemma max_record_val [simp]: "max_record = 65536"
  by (simp add: max_record_def max_record_size_def)

lemma asc_append: "asc prev (ls @ ls') \<longleftrightarrow> asc prev ls \<and> asc (last_of prev ls) ls'"
  by (induction ls arbitrary: prev) auto

lemma above_trans: "above prev l \<Longrightarrow> l < k \<Longrightarrow> above prev k"
  by (cases prev) (auto simp: above_def)

lemma asc_above: "asc prev ls \<Longrightarrow> l \<in> set ls \<Longrightarrow> above prev l"
proof (induction ls arbitrary: prev)
  case (Cons a ls)
  show ?case
  proof (cases "l = a")
    case False
    with Cons.prems have "asc (Some a) ls" "l \<in> set ls" by auto
    then have "above (Some a) l" by (rule Cons.IH)
    moreover have "above prev a" using Cons.prems by simp
    ultimately show ?thesis by (simp add: above_def split: option.splits)
  qed (use Cons.prems in auto)
qed simp

lemma asc_None: "asc prev ls \<Longrightarrow> asc None ls"
  by (cases ls) (auto simp: above_def)

lemma asc_Some: "asc (Some p) ls \<longleftrightarrow> sorted_wrt (<) (p # ls)"
  by (induction ls arbitrary: p) (auto simp: above_def)

lemma asc_sorted: "asc None ls \<longleftrightarrow> sorted_wrt (<) ls"
  by (cases ls) (simp_all add: above_def asc_Some)

section \<open>Scanning what was encoded\<close>

lemma header_new_fields [simp]:
  "rh_lsn (header_new crc l st fl) = l" "rh_flags (header_new crc l st fl) = fl"
  "payload_len (header_new crc l st fl) = of_nat (length st)"
  by (simp_all add: header_new_def)

lemma max_record_size_val: "unat max_record_size = 65536"
  by (simp add: max_record_size_def)

lemma plen_small: "length st \<le> 65536 \<Longrightarrow> unat (of_nat (length st) :: u32) = length st"
  by (rule unat_of_nat_small) simp

lemma decode_new:
  assumes "length st \<le> 65536" "fl AND NOT flag_compressed = 0"
  shows "header_decode (take header_size (header_encode (header_new crc l st fl) @ rest)) =
    Some (Inr (header_new crc l st fl))"
  using header_roundtrip [of "header_new crc l st fl" "[]"] assms
  by (simp add: word_le_nat_alt plen_small max_record_size_val)

lemma scan_advance:
  assumes "\<not> length bs < header_size" "header_decode (take header_size bs) = Some (Inr h)"
    "\<not> length (drop header_size bs) < unat (payload_len h)"
    "verify_crc crc h (take (unat (payload_len h)) (drop header_size bs)) = Inr u"
    "above prev (rh_lsn h)"
    "decode_payload dz (take (unat (payload_len h)) (drop header_size bs)) (rh_flags h) max_record = Inr raw"
  shows "scan_segment crc dz rerr sid off prev out bs =
    scan_segment crc dz rerr sid (off + header_size + unat (payload_len h)) (Some (rh_lsn h))
      (out @ [(rh_lsn h, raw)]) (drop (unat (payload_len h)) (drop header_size bs))"
proof -
  have ne: "bs \<noteq> []" using assms(1) by (auto simp: header_size_def)
  have nle: "\<not> (case prev of None \<Rightarrow> False | Some p \<Rightarrow> rh_lsn h \<le> p)"
    using assms(5) by (simp add: above_def split: option.splits)
  show ?thesis
    unfolding scan_segment.simps [of crc dz rerr sid off prev out bs] Let_def
    using assms(1-4) assms(6) ne nle by (simp del: drop_drop)
qed

lemma scan_item:
  assumes ok: "item_ok dz it" and ab: "above prev (fst it)"
  shows "scan_segment crc dz rerr sid off prev out (enc_item crc it @ bs) =
    scan_segment crc dz rerr sid (off + length (enc_item crc it)) (Some (fst it)) (out @ [item_rec dz it]) bs"
proof -
  obtain l st fl where it: "it = (l, st, fl)" by (cases it) auto
  from ok obtain raw where len: "length st \<le> 65536" and fl: "fl AND NOT flag_compressed = 0"
    and dec: "decode_payload dz st fl 65536 = Inr raw"
    by (auto simp: item_ok_def it split: sum.splits)
  let ?h = "header_new crc l st fl"
  have ll: "length (header_encode ?h) = header_size" by simp
  have "scan_segment crc dz rerr sid off prev out (header_encode ?h @ st @ bs) =
    scan_segment crc dz rerr sid (off + header_size + unat (payload_len ?h)) (Some (rh_lsn ?h))
      (out @ [(rh_lsn ?h, raw)]) (drop (unat (payload_len ?h)) (drop header_size (header_encode ?h @ st @ bs)))"
    by (rule scan_advance)
      (use ab dec len decode_new [OF len fl, of crc l "st @ bs"] in
        \<open>simp_all add: ll plen_small [OF len] it\<close>)
  then show ?thesis
    by (simp add: it enc_item_def item_rec_def dec add.assoc plen_small [OF len])
qed

lemma scan_encs:
  "list_all (item_ok dz) its \<Longrightarrow> asc prev (map fst its) \<Longrightarrow>
   scan_segment crc dz rerr sid off prev out (encs crc its @ bs) =
   scan_segment crc dz rerr sid (off + length (encs crc its)) (last_of prev (map fst its))
     (out @ map (item_rec dz) its) bs"
proof (induction its arbitrary: off prev out)
  case (Cons it its)
  then show ?case by (simp add: scan_item add.assoc)
qed simp

definition torn_tail :: "wal_item \<Rightarrow> nat \<Rightarrow> nat \<Rightarrow> tail_state" where
  "torn_tail it off k =
     (if k = 0 then TailClean else if k < header_size then PartialHeader off
      else PartialPayload off (of_nat (length (fst (snd it)))) (of_nat (k - header_size)))"

lemma scan_torn:
  assumes ok: "item_ok dz it" and k: "k < length (enc_item crc it)"
  shows "scan_segment crc dz None sid off prev out (take k (enc_item crc it)) =
    Inr \<lparr>sr_valid = off, sr_truncate = (k \<noteq> 0), sr_tail = torn_tail it off k, sr_prev = prev, sr_out = out\<rparr>"
proof -
  obtain l st fl where it: "it = (l, st, fl)" by (cases it) auto
  from ok have len: "length st \<le> 65536" and fl: "fl AND NOT flag_compressed = 0"
    by (auto simp: item_ok_def it)
  let ?h = "header_new crc l st fl"
  have lk: "length (take k (enc_item crc it)) = k" using k by simp
  show ?thesis
  proof (cases "k < header_size")
    case True
    then show ?thesis
      using lk by (subst scan_segment.simps) (auto simp: Let_def at_eof_def torn_tail_def)
  next
    case False
    then have sp: "take k (enc_item crc it) = header_encode ?h @ take (k - header_size) st"
      by (simp add: it enc_item_def)
    have ks: "k - header_size < length st" using k False by (simp add: it length_enc_item)
    have "header_encode ?h @ take (k - header_size) st \<noteq> []"
      by (simp add: header_encode_def record_magic_def)
    then show ?thesis
      unfolding sp using decode_new [OF len fl, of crc l "take (k - header_size) st"] False ks
      by (subst scan_segment.simps)
        (simp add: plen_small [OF len] Let_def at_eof_def torn_tail_def it header_size_def)
  qed
qed

lemma take_encs:
  "n \<le> length (encs crc its) \<Longrightarrow>
   \<exists>j k. j \<le> length its \<and> take n (encs crc its) = encs crc (take j its) @ (if j < length its then take k (enc_item crc (its ! j)) else []) \<and>
     (j < length its \<longrightarrow> k < length (enc_item crc (its ! j))) \<and> (j = length its \<longrightarrow> k = 0) \<and>
     n = length (encs crc (take j its)) + k"
proof (induction its arbitrary: n)
  case (Cons it its)
  show ?case
  proof (cases "n < length (enc_item crc it)")
    case True
    then show ?thesis by (intro exI [of _ 0] exI [of _ n]) simp
  next
    case False
    with Cons.prems have "n - length (enc_item crc it) \<le> length (encs crc its)" by simp
    from Cons.IH [OF this] obtain j k where jk: "j \<le> length its"
      "take (n - length (enc_item crc it)) (encs crc its) =
         encs crc (take j its) @ (if j < length its then take k (enc_item crc (its ! j)) else [])"
      "j < length its \<longrightarrow> k < length (enc_item crc (its ! j))" "j = length its \<longrightarrow> k = 0"
      "n - length (enc_item crc it) = length (encs crc (take j its)) + k"
      by blast
    then show ?thesis using False
      by (intro exI [of _ "Suc j"] exI [of _ k]) (auto simp: take_append)
  qed
qed simp

section \<open>Scanning arbitrary bytes\<close>

lemma header_decode_encode:
  assumes "length bs = header_size" "header_decode bs = Some (Inr h)"
  shows "header_encode h = bs \<and> payload_len h \<le> max_record_size \<and> rh_flags h AND NOT flag_compressed = 0"
proof -
  have len: "length bs = 23" using assms by (simp add: header_size_def)
  from assms have m: "slice 0 4 bs = record_magic" and v: "from_le_bytes (slice 4 6 bs) = format_version"
    and le: "payload_len h \<le> max_record_size" and fl: "rh_flags h AND NOT flag_compressed = 0"
    and h: "h = \<lparr>rh_lsn = from_le_bytes (slice 6 14 bs), payload_len = from_le_bytes (slice 14 18 bs),
      rh_crc32c = from_le_bytes (slice 18 22 bs), rh_flags = bs ! 22\<rparr>"
    by (auto simp: header_decode_def Let_def not_less split: if_splits)
  have sl: "length (slice a b bs) = b - a" if "b \<le> 23" for a b
    using that len by (auto simp: slice_def)
  have "to_le_bytes format_version = slice 4 6 bs"
    unfolding v [symmetric] by (rule to_from_le_bytes) (simp_all add: sl)
  moreover have "to_le_bytes (rh_lsn h) = slice 6 14 bs"
    unfolding h by (simp add: to_from_le_bytes sl)
  moreover have "to_le_bytes (payload_len h) = slice 14 18 bs"
    unfolding h by (simp add: to_from_le_bytes sl)
  moreover have "to_le_bytes (rh_crc32c h) = slice 18 22 bs"
    unfolding h by (simp add: to_from_le_bytes sl)
  moreover have "[rh_flags h] = slice 22 23 bs"
    unfolding h using len by (simp add: slice_def Cons_nth_drop_Suc [symmetric])
  ultimately have "header_encode h = slice 0 4 bs @ slice 4 6 bs @ slice 6 14 bs @ slice 14 18 bs @ slice 18 22 bs @ slice 22 23 bs"
    by (simp add: header_encode_def m)
  also have "\<dots> = bs"
  proof -
    have j: "slice a b bs @ slice b c bs = slice a c bs" if "a \<le> b" "b \<le> c" for a b c
    proof -
      have "drop b bs = drop (b - a) (drop a bs)" "c - a = (b - a) + (c - b)" using that by simp_all
      then show ?thesis by (simp only: slice_def take_add)
    qed
    have "slice 0 23 bs = bs" using len by (simp add: slice_def)
    then show ?thesis by (simp add: j)
  qed
  finally show ?thesis using le fl by simp
qed

lemma verify_crc_encode:
  assumes "verify_crc crc h st = Inr u" "payload_len h = of_nat (length st)"
  shows "h = header_new crc (rh_lsn h) st (rh_flags h)"
  using assms by (auto simp: verify_crc_def header_new_def split: if_splits)

definition scan_post :: "(bytes \<Rightarrow> u32) \<Rightarrow> (bytes \<Rightarrow> string + bytes) \<Rightarrow> nat \<Rightarrow> u64 option \<Rightarrow> recovered list \<Rightarrow>
    bytes \<Rightarrow> scan_result \<Rightarrow> wal_item list \<Rightarrow> bool" where
  "scan_post crc dz off prev out bs r its \<longleftrightarrow>
     off + length (encs crc its) = sr_valid r \<and> encs crc its = take (sr_valid r - off) bs \<and>
     list_all (item_ok dz) its \<and> asc prev (map fst its) \<and>
     sr_prev r = last_of prev (map fst its) \<and> sr_out r = out @ map (item_rec dz) its \<and>
     (sr_truncate r \<longleftrightarrow> sr_valid r - off < length bs)"

lemma scan_post_Cons:
  fixes crc it
  defines "n \<equiv> length (enc_item crc it)"
  assumes p: "scan_post crc dz (off + n) (Some (fst it)) (out @ [item_rec dz it]) (drop n bs) r its"
    and e: "enc_item crc it = take n bs" and "item_ok dz it" "above prev (fst it)"
  shows "scan_post crc dz off prev out bs r (it # its)"
proof -
  have len: "off + n + length (encs crc its) = sr_valid r"
    and en: "encs crc its = take (sr_valid r - (off + n)) (drop n bs)"
    and tr: "sr_truncate r \<longleftrightarrow> sr_valid r - (off + n) < length (drop n bs)"
    using p by (auto simp: scan_post_def)
  have "n = min (length bs) n" using arg_cong [OF e, of length] by (simp add: n_def)
  then have nb: "n \<le> length bs" by simp
  have "encs crc (it # its) = take n bs @ take (sr_valid r - (off + n)) (drop n bs)"
    using e en by simp
  also have "\<dots> = take (n + (sr_valid r - (off + n))) bs" by (simp only: take_add)
  also have "n + (sr_valid r - (off + n)) = sr_valid r - off" using len by simp
  finally have "encs crc (it # its) = take (sr_valid r - off) bs" .
  moreover have "sr_truncate r \<longleftrightarrow> sr_valid r - off < length bs" using tr len nb by auto
  moreover have "off + length (encs crc (it # its)) = sr_valid r" using len by (simp add: n_def)
  ultimately show ?thesis
    using p assms(4,5) unfolding scan_post_def by (simp only:) simp
qed

lemma scan_step_ok:
  assumes bs: "\<not> length bs < header_size" and d: "header_decode (take header_size bs) = Some (Inr h)"
    and len: "\<not> length (drop header_size bs) < unat (payload_len h)"
    and st: "st = take (unat (payload_len h)) (drop header_size bs)"
    and v: "verify_crc crc h st = Inr u" and dec: "decode_payload dz st (rh_flags h) max_record = Inr raw"
  shows "enc_item crc (rh_lsn h, st, rh_flags h) = take (header_size + unat (payload_len h)) bs"
    "item_ok dz (rh_lsn h, st, rh_flags h)" "item_rec dz (rh_lsn h, st, rh_flags h) = (rh_lsn h, raw)"
    "length st = unat (payload_len h)"
proof -
  show ls: "length st = unat (payload_len h)" using len st by simp
  have hd: "header_encode h = take header_size bs" "payload_len h \<le> max_record_size"
    "rh_flags h AND NOT flag_compressed = 0"
    using header_decode_encode [OF _ d] bs by simp_all
  have "h = header_new crc (rh_lsn h) st (rh_flags h)"
    using v by (rule verify_crc_encode) (simp add: ls)
  then have "header_encode (header_new crc (rh_lsn h) st (rh_flags h)) = take header_size bs"
    using hd by simp
  then show "enc_item crc (rh_lsn h, st, rh_flags h) = take (header_size + unat (payload_len h)) bs"
    by (simp add: enc_item_def st take_add)
  show "item_ok dz (rh_lsn h, st, rh_flags h)"
    using hd dec by (simp add: item_ok_def ls word_le_nat_alt max_record_size_def)
  show "item_rec dz (rh_lsn h, st, rh_flags h) = (rh_lsn h, raw)"
    using dec by (simp add: item_rec_def)
qed

lemma scan_sound_gen:
  "scan_segment crc dz rerr sid off prev out bs = Inr r \<Longrightarrow>
   rerr = None \<and> (\<exists>its. scan_post crc dz off prev out bs r its)"
proof (induction bs arbitrary: off prev out rule: measure_induct_rule [where f = length])
  case (less bs)
  have stop: ?case if "at_eof rerr \<lparr>sr_valid = off, sr_truncate = (bs \<noteq> []), sr_tail = t, sr_prev = prev, sr_out = out\<rparr> = Inr r" for t
    using that by (auto simp: at_eof_def scan_post_def split: option.splits intro!: exI [of _ "[]"])
  show ?case
  proof (cases "length bs < header_size")
    case True
    then show ?thesis
      using less.prems stop by (subst (asm) scan_segment.simps) (auto simp: Let_def split: if_splits)
  next
    case False
    then have ne: "bs \<noteq> []" by (auto simp: header_size_def)
    obtain h where h: "header_decode (take header_size bs) = Some (Inr h)"
      using less.prems False ne
      by (subst (asm) scan_segment.simps)
        (auto simp: Let_def header_decode_def header_size_def split: if_splits option.splits sum.splits)
    define rest where "rest = drop header_size bs"
    define st where "st = take (unat (payload_len h)) rest"
    show ?thesis
    proof (cases "length rest < unat (payload_len h)")
      case True
      then show ?thesis
        using less.prems stop False ne h
        by (subst (asm) scan_segment.simps) (auto simp: Let_def rest_def)
    next
      case nl: False
      obtain u raw where v: "verify_crc crc h st = Inr u"
        and ab: "\<not> (case prev of None \<Rightarrow> False | Some p \<Rightarrow> rh_lsn h \<le> p)"
        and dec: "decode_payload dz st (rh_flags h) max_record = Inr raw"
        and rec: "scan_segment crc dz rerr sid (off + header_size + unat (payload_len h)) (Some (rh_lsn h))
          (out @ [(rh_lsn h, raw)]) (drop (unat (payload_len h)) rest) = Inr r"
        using less.prems False ne h nl
        by (subst (asm) scan_segment.simps)
          (auto simp: Let_def rest_def st_def split: if_splits sum.splits)
      let ?it = "(rh_lsn h, st, rh_flags h)"
      note it = scan_step_ok [OF False h nl [unfolded rest_def] st_def [unfolded rest_def] v dec]
      have lt: "length (drop (unat (payload_len h)) rest) < length bs"
        using False ne by (simp add: rest_def header_size_def)
      obtain its where re: "rerr = None" and p: "scan_post crc dz (off + header_size + unat (payload_len h)) (Some (rh_lsn h))
          (out @ [(rh_lsn h, raw)]) (drop (unat (payload_len h)) rest) r its"
        using less.IH [OF lt rec] by blast
      have le: "length (enc_item crc ?it) = header_size + unat (payload_len h)"
        by (simp add: length_enc_item it(4))
      have "scan_post crc dz off prev out bs r (?it # its)"
      proof (rule scan_post_Cons, unfold le)
        show "scan_post crc dz (off + (header_size + unat (payload_len h))) (Some (fst ?it))
            (out @ [item_rec dz ?it]) (drop (header_size + unat (payload_len h)) bs) r its"
          using p by (simp add: it(3) rest_def add.assoc add.commute [of header_size])
        show "above prev (fst ?it)" using ab by (simp add: above_def not_le split: option.splits)
      qed (rule it(1), rule it(2))
      then show ?thesis using re by blast
    qed
  qed
qed

section \<open>Properties\<close>

text \<open>C27: What the scanner accepts is exactly what an encoder could have written. If a scan of arbitrary
  bytes returns, then no I/O error was met, the bytes up to the reported offset are the encoding of
  a list of well-formed records with strictly increasing sequence numbers, the recovered records
  are their decoded payloads, and a tail is reported exactly when bytes are left over.\<close>

theorem scan_segment_sound:
  assumes "scan_segment crc dz rerr sid 0 None [] bs = Inr r"
  shows "rerr = None \<and>
    (\<exists>its. encs crc its = take (sr_valid r) bs \<and> length (encs crc its) = sr_valid r \<and>
       list_all (item_ok dz) its \<and> sorted_wrt (<) (map fst its) \<and>
       sr_out r = map (item_rec dz) its \<and> (sr_truncate r \<longleftrightarrow> sr_valid r < length bs))"
  using scan_sound_gen [OF assms] by (auto simp: scan_post_def asc_sorted)

text \<open>A complete record followed by the first byte of a torn one.\<close>

theorem scan_segment_sound_witness:
  "\<exists>r its. scan_segment (\<lambda>_. 7) Inr None 1 0 None [] (enc_item (\<lambda>_. 7) (1, [5], 0) @ [0x52]) = Inr r \<and>
     sr_valid r = 24 \<and> sr_truncate r \<and> encs (\<lambda>_. 7) its = enc_item (\<lambda>_. 7) (1, [5], 0) \<and>
     list_all (item_ok Inr) its \<and> map (item_rec Inr) its = [(1, [5])]"
proof -
  let ?r = "\<lparr>sr_valid = 24, sr_truncate = True, sr_tail = PartialHeader 24, sr_prev = Some 1, sr_out = [(1, [5])]\<rparr>"
  have it: "item_ok Inr (1, [5], 0)" "above None (fst (1 :: u64, [5] :: bytes, 0 :: u8))"
    by (simp_all add: item_ok_def decode_payload_def above_def)
  have len: "length (enc_item (\<lambda>_. 7) (1, [5], 0)) = 24" by (simp add: length_enc_item header_size_def)
  have "scan_segment (\<lambda>_. 7) Inr None 1 24 (Some 1) [(1, [5])] [0x52] = Inr ?r"
    by (subst scan_segment.simps) (simp add: header_size_def at_eof_def Let_def)
  then have scan: "scan_segment (\<lambda>_. 7) Inr None 1 0 None [] (enc_item (\<lambda>_. 7) (1, [5], 0) @ [0x52]) = Inr ?r"
    unfolding scan_item [OF it] len by (simp add: item_rec_def decode_payload_def)
  from scan_segment_sound [OF scan] show ?thesis using scan len by auto
qed

text \<open>C28: A torn write loses nothing that was complete. Scanning any prefix of an encoded log succeeds
  and recovers exactly the records whose bytes are complete in that prefix: the reported offset is
  the end of the last complete record, and the first record that is missing did not fit.\<close>

theorem scan_prefix_recovers:
  assumes ok: "list_all (item_ok dz) its" and asc: "sorted_wrt (<) (map fst its)"
    and n: "n \<le> length (encs crc its)"
  shows "\<exists>j r. j \<le> length its \<and>
    scan_segment crc dz None sid 0 None [] (take n (encs crc its)) = Inr r \<and>
    sr_out r = map (item_rec dz) (take j its) \<and> sr_valid r = length (encs crc (take j its)) \<and>
    sr_valid r \<le> n \<and> (sr_truncate r \<longleftrightarrow> sr_valid r < n) \<and>
    (\<forall>i \<le> length its. length (encs crc (take i its)) \<le> n \<longrightarrow> i \<le> j)"
proof -
  from take_encs [OF n] obtain j k where jk: "j \<le> length its"
    "take n (encs crc its) =
      encs crc (take j its) @ (if j < length its then take k (enc_item crc (its ! j)) else [])"
    "j < length its \<longrightarrow> k < length (enc_item crc (its ! j))" "j = length its \<longrightarrow> k = 0"
    "n = length (encs crc (take j its)) + k"
    by blast
  have ok': "list_all (item_ok dz) (take j its)" and asc': "asc None (map fst (take j its))"
    using ok asc by (auto simp: list_all_iff asc_sorted take_map [symmetric] sorted_wrt_take dest: in_set_takeD)
  let ?p = "last_of None (map fst (take j its))" and ?o = "length (encs crc (take j its))"
  let ?out = "map (item_rec dz) (take j its)"
  have "\<exists>t. scan_segment crc dz None sid ?o ?p ?out
      (if j < length its then take k (enc_item crc (its ! j)) else []) =
    Inr \<lparr>sr_valid = ?o, sr_truncate = (k \<noteq> 0), sr_tail = t, sr_prev = ?p, sr_out = ?out\<rparr>"
  proof (cases "j < length its")
    case True
    have "item_ok dz (its ! j)" using ok True by (simp add: list_all_iff)
    with True jk(3) show ?thesis using scan_torn by auto
  next
    case False
    with jk show ?thesis by (subst scan_segment.simps) (simp add: at_eof_def Let_def)
  qed
  then obtain r where r: "scan_segment crc dz None sid 0 None [] (take n (encs crc its)) = Inr r"
    "sr_out r = ?out" "sr_valid r = ?o" "sr_truncate r \<longleftrightarrow> k \<noteq> 0"
    unfolding jk(2) scan_encs [OF ok' asc'] by auto
  have max: "i \<le> j" if "i \<le> length its" "length (encs crc (take i its)) \<le> n" for i
  proof (rule ccontr)
    assume "\<not> i \<le> j"
    then have jl: "j < length its" and ji: "Suc j \<le> i" using that by simp_all
    have "take i its = take (Suc j) its @ drop (Suc j) (take i its)"
      using ji by (metis append_take_drop_id min.absorb1 take_take)
    then have "encs crc (take i its) = encs crc (take (Suc j) its) @ encs crc (drop (Suc j) (take i its))"
      by (metis encs_simps(3))
    then have "length (encs crc (take (Suc j) its)) \<le> n" using that by simp
    then show False using jk(3,5) jl by (simp add: take_Suc_conv_app_nth)
  qed
  show ?thesis
    by (intro exI [of _ j] exI [of _ r]) (use r jk max in auto)
qed

theorem scan_prefix_recovers_witness:
  "\<exists>r. scan_segment (\<lambda>_. 7) Inr None 1 0 None [] (take 40 (encs (\<lambda>_. 7) [(1, [5], 0), (2, [6], 0)])) = Inr r \<and>
    sr_out r = [(1, [5])]"
proof -
  let ?its = "[(1, [5], 0), (2, [6], 0)] :: wal_item list"
  have ok: "list_all (item_ok Inr) ?its" "sorted_wrt (<) (map fst ?its)"
    by (simp_all add: item_ok_def decode_payload_def)
  have len: "length (encs (\<lambda>_. 7) ?its) = 48" "length (encs (\<lambda>_. 7) (take 1 ?its)) = 24"
    by (simp_all add: length_enc_item header_size_def)
  obtain j r where r: "j \<le> length ?its"
    "scan_segment (\<lambda>_. 7) Inr None 1 0 None [] (take 40 (encs (\<lambda>_. 7) ?its)) = Inr r"
    "sr_out r = map (item_rec Inr) (take j ?its)" "sr_valid r = length (encs (\<lambda>_. 7) (take j ?its))"
    "sr_valid r \<le> 40" "\<forall>i \<le> length ?its. length (encs (\<lambda>_. 7) (take i ?its)) \<le> 40 \<longrightarrow> i \<le> j"
    using scan_prefix_recovers [OF ok, of 40 "\<lambda>_. 7" 1] len by auto
  have "1 \<le> j" using r(6) len by auto
  moreover have "j \<noteq> 2" using r(4,5) len by auto
  ultimately have "j = 1" using r(1) by simp
  then show ?thesis
    using r(2,3) by (auto simp: item_rec_def decode_payload_def)
qed

end
