(* ===== verification/Ramwal_Recovery.thy ===== *)
theory Ramwal_Recovery
  imports Ramwal_Scan
begin

text \<open>
  The log directory and its recovery: \<^verbatim>\<open>crates/ramwal/src/recovery.rs\<close> (\<^verbatim>\<open>scan_dir\<close> and its callers) and
  \<^verbatim>\<open>crates/ramwal/src/segment.rs\<close>.

  \<open>disk\<close> is the state of the log directory as the operating system sees it: the segment files in the
  order of their index, with the length of the synced prefix and whether the directory entry is
  durable; the manifest, visible and durable; and the files moved to quarantine. Each system call
  takes the next element of \<open>faults\<close>: \<open>None\<close> (or an empty list) lets it succeed, \<open>Some (n, e)\<close> makes it fail
  with \<open>e\<close> after \<open>n\<close> bytes of progress. A segment is in the directory under its canonical name.
\<close>

section \<open>The directory\<close>

record seg_file =
  sf_data :: bytes
  sf_synced :: nat
  sf_linked :: bool

type_synonym fault = "(nat \<times> io_error) option"

record disk =
  segs :: "(u64 \<times> seg_file) list"
  manifest :: "string option"
  manifest_dur :: "string option"
  quarantine :: "(u64 \<times> seg_file) list"
  faults :: "fault list"

type_synonym 'a io = "(wal_error + 'a) \<times> disk"

definition sys :: "disk \<Rightarrow> fault \<times> disk" where
  "sys w = (case faults w of [] \<Rightarrow> (None, w) | f # fs \<Rightarrow> (f, w\<lparr>faults := fs\<rparr>))"

text \<open>\<^verbatim>\<open>call().map_err(Error::from_io)?\<close>\<close>

definition try_sys :: "disk \<Rightarrow> (disk \<Rightarrow> 'a io) \<Rightarrow> 'a io" where
  "try_sys w k = (case sys w of (Some (_, e), w') \<Rightarrow> (Inl (from_io e), w') | (None, w') \<Rightarrow> k w')"

definition bind_io :: "'a io \<Rightarrow> ('a \<Rightarrow> disk \<Rightarrow> 'b io) \<Rightarrow> 'b io" where
  "bind_io m k = (case m of (Inl e, w) \<Rightarrow> (Inl e, w) | (Inr x, w) \<Rightarrow> k x w)"

definition seg_data :: "disk \<Rightarrow> u64 \<Rightarrow> bytes" where
  "seg_data w i = (case map_of (segs w) i of None \<Rightarrow> [] | Some s \<Rightarrow> sf_data s)"

definition seg_upd :: "u64 \<Rightarrow> (seg_file \<Rightarrow> seg_file) \<Rightarrow> disk \<Rightarrow> disk" where
  "seg_upd i f w = w\<lparr>segs := map (\<lambda>(j, s). (j, if j = i then f s else s)) (segs w)\<rparr>"

definition seg_remove :: "u64 \<Rightarrow> disk \<Rightarrow> disk" where
  "seg_remove i w = w\<lparr>segs := filter (\<lambda>(j, _). j \<noteq> i) (segs w)\<rparr>"

definition seg_insert :: "u64 \<Rightarrow> seg_file \<Rightarrow> disk \<Rightarrow> disk" where
  "seg_insert i s w = w\<lparr>segs := insort_key fst (i, s) (filter (\<lambda>(j, _). j \<noteq> i) (segs w))\<rparr>"

definition list_segs :: "string list \<Rightarrow> (u64 \<times> string) list" where
  "list_segs names =
     sort_key fst (List.map_filter (\<lambda>n. map_option (\<lambda>i. (i, n)) (parse_seg_idx n)) names)"

definition fsync_dir :: "disk \<Rightarrow> unit io" where
  "fsync_dir w = try_sys w (\<lambda>w.
     (Inr (), w\<lparr>segs := map (\<lambda>(j, s). (j, s\<lparr>sf_linked := True\<rparr>)) (segs w),
                manifest_dur := manifest w\<rparr>))"

section \<open>Repair\<close>

definition repair_segment_tail :: "u64 \<Rightarrow> nat \<Rightarrow> disk \<Rightarrow> unit io" where
  "repair_segment_tail i valid_bytes w =
     try_sys w (\<lambda>w. try_sys w (\<lambda>w.
       let w = seg_upd i (\<lambda>s. s\<lparr>sf_data := take valid_bytes (sf_data s),
                                 sf_synced := min valid_bytes (sf_synced s)\<rparr>) w
       in try_sys w (\<lambda>w. (Inr (), seg_upd i (\<lambda>s. s\<lparr>sf_synced := length (sf_data s)\<rparr>) w))))"

definition quarantine_segment :: "u64 \<Rightarrow> disk \<Rightarrow> unit io" where
  "quarantine_segment i w =
     try_sys w (\<lambda>w. try_sys w (\<lambda>w.
       fsync_dir (seg_remove i
         (w\<lparr>quarantine := quarantine w @ filter (\<lambda>(j, _). j = i) (segs w)\<rparr>))))"

section \<open>The directory scan\<close>

record recovery_report =
  rr_first :: "u64 option"
  rr_last :: "u64 option"
  rr_records :: "recovered list"
  rr_segments :: nat
  rr_append :: nat
  rr_tail :: tail_state
  rr_repaired :: bool
  rr_truncated :: nat
  rr_reports :: "(u64 \<times> u64 option) list"

definition empty_report :: "nat \<Rightarrow> recovery_report" where
  "empty_report n = \<lparr>rr_first = None, rr_last = None, rr_records = [], rr_segments = n, rr_append = 0,
     rr_tail = TailClean, rr_repaired = False, rr_truncated = 0, rr_reports = []\<rparr>"

definition repair_action :: "bool \<Rightarrow> u64 \<Rightarrow> scan_result \<Rightarrow> disk \<Rightarrow> unit io" where
  "repair_action repair i r w =
     (if sr_truncate r \<and> repair then
        if sr_valid r > 0 then repair_segment_tail i (sr_valid r) w else quarantine_segment i w
      else (Inr (), w))"

definition segment_done ::
  "bool \<Rightarrow> bool \<Rightarrow> u64 \<Rightarrow> nat \<Rightarrow> scan_result \<Rightarrow> recovery_report \<Rightarrow> recovery_report" where
  "segment_done repair newest i orig_len r rep =
     (let found = drop (length (rr_records rep)) (sr_out r);
          rep1 = rep\<lparr>rr_last := sr_prev r, rr_records := sr_out r,
                     rr_reports := rr_reports rep @ [(i, if found = [] then None else Some (fst (last found)))]\<rparr>
      in if sr_truncate r then
           rep1\<lparr>rr_truncated := rr_truncated rep + (orig_len - sr_valid r), rr_repaired := repair,
                rr_append := sr_valid r, rr_tail := sr_tail r\<rparr>
         else if newest then rep1\<lparr>rr_append := sr_valid r, rr_tail := sr_tail r\<rparr>
         else rep1)"

definition scan_one ::
  "(bytes \<Rightarrow> u32) \<Rightarrow> (bytes \<Rightarrow> string + bytes) \<Rightarrow> bool \<Rightarrow> bool \<Rightarrow> u64 \<Rightarrow> recovery_report \<Rightarrow> disk \<Rightarrow>
   recovery_report io" where
  "scan_one crc dz repair newest i rep w =
     try_sys w (\<lambda>w. try_sys w (\<lambda>w.
       case sys w of (f, w) \<Rightarrow>
         let data = seg_data w i in
         case scan_segment crc dz (map_option snd f) i 0 (rr_last rep) (rr_records rep)
                (case f of None \<Rightarrow> data | Some (n, _) \<Rightarrow> take n data) of
           Inl e \<Rightarrow> (Inl e, w)
         | Inr r \<Rightarrow>
             if sr_truncate r \<and> \<not> newest then
               (Inl (Corruption i (sr_valid r) (NonFinalSegmentTail (sr_valid r))), w)
             else
               bind_io (repair_action repair i r w) (\<lambda>_ w.
                 (Inr (segment_done repair newest i (length data) r rep), w))))"

fun scan_segs ::
  "(bytes \<Rightarrow> u32) \<Rightarrow> (bytes \<Rightarrow> string + bytes) \<Rightarrow> bool \<Rightarrow> u64 list \<Rightarrow> recovery_report \<Rightarrow> disk \<Rightarrow>
   recovery_report io" where
  "scan_segs crc dz repair [] rep w = (Inr rep, w)"
| "scan_segs crc dz repair (i # is) rep w =
     bind_io (scan_one crc dz repair (is = []) i rep w) (scan_segs crc dz repair is)"

definition scan_dir ::
  "(bytes \<Rightarrow> u32) \<Rightarrow> (bytes \<Rightarrow> string + bytes) \<Rightarrow> bool \<Rightarrow> disk \<Rightarrow> recovery_report io" where
  "scan_dir crc dz repair w =
     try_sys w (\<lambda>w.
       let is = map fst (segs w) in
       bind_io (scan_segs crc dz repair is (empty_report (length is)) w) (\<lambda>rep w.
         (Inr (rep\<lparr>rr_first := (if rr_records rep = [] then None else Some (fst (hd (rr_records rep))))\<rparr>), w)))"

definition recover_dir :: "(bytes \<Rightarrow> u32) \<Rightarrow> (bytes \<Rightarrow> string + bytes) \<Rightarrow> disk \<Rightarrow> recovery_report io" where
  "recover_dir crc dz w = scan_dir crc dz True w"

definition verify_dir :: "(bytes \<Rightarrow> u32) \<Rightarrow> (bytes \<Rightarrow> string + bytes) \<Rightarrow> disk \<Rightarrow> recovery_report io" where
  "verify_dir crc dz w = scan_dir crc dz False w"

record recovery =
  rec_report :: recovery_report
  rec_segment :: u64
  rec_offset :: nat

definition recover :: "(bytes \<Rightarrow> u32) \<Rightarrow> (bytes \<Rightarrow> string + bytes) \<Rightarrow> disk \<Rightarrow> recovery io" where
  "recover crc dz w =
     bind_io (recover_dir crc dz w) (\<lambda>rep w.
       (Inr \<lparr>rec_report = rep,
             rec_segment = (if rr_reports rep = [] then 1 else fst (last (rr_reports rep))),
             rec_offset = rr_append rep\<rparr>, w))"

section \<open>Laws of the directory\<close>

lemma sys_frame [simp]:
  "sys w = (f, w') \<Longrightarrow> segs w' = segs w" "sys w = (f, w') \<Longrightarrow> manifest w' = manifest w"
  "sys w = (f, w') \<Longrightarrow> manifest_dur w' = manifest_dur w" "sys w = (f, w') \<Longrightarrow> quarantine w' = quarantine w"
  by (auto simp: sys_def split: list.splits)

lemma list_segs_sorted: "sorted (map fst (list_segs names))"
  by (simp add: list_segs_def)

lemma list_segs_canonical:
  assumes "distinct is"
  shows "map fst (list_segs (map seg_name is)) = sort is"
proof -
  have "List.map_filter (\<lambda>n. map_option (\<lambda>i. (i, n)) (parse_seg_idx n)) (map seg_name is) =
      map (\<lambda>i. (i, seg_name i)) is"
    by (induction "is") (simp_all add: List.map_filter_simps seg_name_roundtrip)
  then have "map fst (list_segs (map seg_name is)) = map fst (sort_key fst (map (\<lambda>i. (i, seg_name i)) is))"
    by (simp add: list_segs_def)
  also have "\<dots> = sort is"
  proof (rule sorted_distinct_set_unique)
    show "distinct (map fst (sort_key fst (map (\<lambda>i. (i, seg_name i)) is)))"
      using assms by (auto simp: distinct_map inj_on_def)
  qed (use assms in \<open>force+\<close>)
  finally show ?thesis .
qed

section \<open>One segment\<close>

definition io_fail :: "disk \<Rightarrow> io_error \<Rightarrow> bool" where
  "io_fail w e \<longleftrightarrow> (\<exists>n. Some (n, e) \<in> set (faults w))"

definition same_dir :: "disk \<Rightarrow> disk \<Rightarrow> bool" where
  "same_dir w w' \<longleftrightarrow> segs w' = segs w \<and> manifest w' = manifest w \<and> manifest_dur w' = manifest_dur w \<and>
     quarantine w' = quarantine w \<and> set (faults w') \<subseteq> set (faults w)"

lemma same_dir_refl [simp]: "same_dir w w"
  by (simp add: same_dir_def)

lemma same_dir_trans: "same_dir u v \<Longrightarrow> same_dir v w \<Longrightarrow> same_dir u w"
  by (auto simp: same_dir_def)

lemma io_fail_mono: "set (faults w') \<subseteq> set (faults w) \<Longrightarrow> io_fail w' e \<Longrightarrow> io_fail w e"
  by (auto simp: io_fail_def)

lemma sys_cases:
  obtains (ok) w' where "sys w = (None, w')" "same_dir w w'"
  | (fail) n e w' where "sys w = (Some (n, e), w')" "same_dir w w'" "io_fail w e"
proof (cases "faults w")
  case Nil
  then show ?thesis by (intro ok [of w]) (simp_all add: sys_def)
next
  case (Cons f fs)
  then have s: "sys w = (f, w\<lparr>faults := fs\<rparr>)" "same_dir w (w\<lparr>faults := fs\<rparr>)"
    by (auto simp: sys_def same_dir_def)
  show ?thesis
  proof (cases f)
    case None
    with s show ?thesis by (intro ok) simp_all
  next
    case (Some a)
    moreover obtain n e where "a = (n, e)" by (cases a) auto
    ultimately show ?thesis using s Cons by (intro fail) (auto simp: io_fail_def)
  qed
qed

lemma try_sys_cases:
  assumes "try_sys w k = (res, w2)"
  obtains (ok) w' where "same_dir w w'" "k w' = (res, w2)"
  | (fail) e where "same_dir w w2" "io_fail w e" "res = Inl (from_io e)"
  using assms by (cases rule: sys_cases [of w]) (auto simp: try_sys_def)

lemma seg_data_same: "same_dir w w' \<Longrightarrow> seg_data w' = seg_data w"
  by (auto simp: same_dir_def seg_data_def)

lemma scan_read_error:
  "scan_segment crc dz None sid off prev out bs = Inr r \<Longrightarrow>
   scan_segment crc dz (Some e) sid off prev out (take n bs) = Inl (from_io e)"
proof (induction bs arbitrary: off prev out n rule: measure_induct_rule [where f = length])
  case (less bs)
  show ?case
  proof (cases "length (take n bs) < header_size")
    case True
    then show ?thesis by (subst scan_segment.simps) (auto simp: at_eof_def Let_def)
  next
    case False
    then have big: "\<not> length bs < header_size" and n: "header_size \<le> n" and ne: "take n bs \<noteq> []" "bs \<noteq> []"
      by (auto simp: header_size_def)
    have th: "take header_size (take n bs) = take header_size bs" using n by simp
    obtain h where h: "header_decode (take header_size bs) = Some (Inr h)"
      using less.prems big ne
      by (subst (asm) scan_segment.simps)
        (auto simp: Let_def header_decode_def header_size_def split: if_splits option.splits sum.splits)
    show ?thesis
    proof (cases "length (drop header_size (take n bs)) < unat (payload_len h)")
      case True
      then show ?thesis using False ne h th
        by (subst scan_segment.simps) (simp add: at_eof_def Let_def)
    next
      case nl: False
      then have nl': "\<not> length (drop header_size bs) < unat (payload_len h)" by auto
      have tk: "take (unat (payload_len h)) (drop header_size (take n bs)) =
          take (unat (payload_len h)) (drop header_size bs)"
      proof -
        have "unat (payload_len h) \<le> n - header_size" using nl by auto
        then show ?thesis by (simp add: drop_take min_def)
      qed
      obtain u raw where v: "verify_crc crc h (take (unat (payload_len h)) (drop header_size bs)) = Inr u"
        and ab: "above prev (rh_lsn h)"
        and dec: "decode_payload dz (take (unat (payload_len h)) (drop header_size bs)) (rh_flags h) max_record = Inr raw"
        using less.prems big ne h nl'
        by (subst (asm) scan_segment.simps)
          (auto simp: Let_def above_def not_le split: if_splits sum.splits option.splits)
      let ?rest = "drop (unat (payload_len h)) (drop header_size bs)"
      have lt: "length ?rest < length bs" using big ne by (simp add: header_size_def)
      have "scan_segment crc dz None sid (off + header_size + unat (payload_len h)) (Some (rh_lsn h))
          (out @ [(rh_lsn h, raw)]) ?rest = Inr r"
        using less.prems unfolding scan_advance [OF big h nl' v ab dec] .
      note IH = less.IH [OF lt this, of "n - header_size - unat (payload_len h)"]
      have "drop (unat (payload_len h)) (drop header_size (take n bs)) =
          take (n - header_size - unat (payload_len h)) ?rest"
        by (simp add: drop_take diff_diff_left add.commute)
      then show ?thesis
        using IH scan_advance [of "take n bs" h crc u prev dz raw "Some e" sid off out] False h nl v ab dec
        unfolding th tk by simp
    qed
  qed
qed

text \<open>What a scan may do to a directory, up to the bookkeeping of durability.\<close>

definition contents :: "disk \<Rightarrow> (u64 \<times> bytes) list" where
  "contents w = map (\<lambda>(i, s). (i, sf_data s)) (segs w)"

definition all_synced :: "disk \<Rightarrow> bool" where
  "all_synced w \<longleftrightarrow> (\<forall>(i, s) \<in> set (segs w). sf_synced s = length (sf_data s))"

definition all_linked :: "disk \<Rightarrow> bool" where
  "all_linked w \<longleftrightarrow> (\<forall>(i, s) \<in> set (segs w). sf_linked s)"

definition dir_step :: "disk \<Rightarrow> disk \<Rightarrow> bool" where
  "dir_step w w' \<longleftrightarrow> manifest w' = manifest w \<and>
     (manifest_dur w' = manifest_dur w \<or> manifest_dur w' = manifest w) \<and>
     set (faults w') \<subseteq> set (faults w) \<and> (all_synced w \<longrightarrow> all_synced w') \<and> (all_linked w \<longrightarrow> all_linked w')"

definition rep_contents :: "bool \<Rightarrow> u64 \<Rightarrow> scan_result \<Rightarrow> (u64 \<times> bytes) list \<Rightarrow> (u64 \<times> bytes) list" where
  "rep_contents repair i r cs =
     (if sr_truncate r \<and> repair then
        if sr_valid r > 0 then map (\<lambda>(j, d). (j, if j = i then take (sr_valid r) d else d)) cs
        else filter (\<lambda>(j, _). j \<noteq> i) cs
      else cs)"

lemma same_dir_step: "same_dir w w' \<Longrightarrow> dir_step w w' \<and> contents w' = contents w"
  by (auto simp: same_dir_def dir_step_def contents_def all_synced_def all_linked_def)

lemma dir_step_refl [simp]: "dir_step w w"
  by (simp add: dir_step_def)

lemma dir_step_trans: "dir_step u v \<Longrightarrow> dir_step v w \<Longrightarrow> dir_step u w"
  by (auto simp: dir_step_def)

lemma dir_step_fail: "dir_step w w' \<Longrightarrow> io_fail w' e \<Longrightarrow> io_fail w e"
  by (auto simp: dir_step_def intro: io_fail_mono)

lemma try_sys_step:
  assumes "try_sys w k = (res, w2)"
  obtains (ok) w' where "dir_step w w'" "contents w' = contents w" "k w' = (res, w2)"
  | (fail) e where "dir_step w w2" "contents w2 = contents w" "io_fail w e" "res = Inl (from_io e)"
  using assms by (cases rule: try_sys_cases) (auto dest: same_dir_step)

lemma fsync_dir_step:
  assumes "fsync_dir w = (res, w2)"
  shows "dir_step w w2 \<and> contents w2 = contents w \<and>
    (res = Inr () \<and> all_linked w2 \<and> manifest_dur w2 = manifest w2 \<or> (\<exists>e. io_fail w e \<and> res = Inl (from_io e)))"
  using assms unfolding fsync_dir_def
proof (cases rule: try_sys_cases)
  case (ok w')
  then show ?thesis
    by (auto simp: same_dir_def dir_step_def contents_def all_synced_def all_linked_def split: prod.splits)
next
  case (fail e)
  then show ?thesis by (auto dest: same_dir_step)
qed

lemma seg_upd_cut:
  "contents (seg_upd i (\<lambda>s. s\<lparr>sf_data := take n (sf_data s), sf_synced := min n (sf_synced s)\<rparr>) w) =
     map (\<lambda>(j, d). (j, if j = i then take n d else d)) (contents w)"
  "dir_step w (seg_upd i (\<lambda>s. s\<lparr>sf_data := take n (sf_data s), sf_synced := min n (sf_synced s)\<rparr>) w)"
  by (auto simp: seg_upd_def contents_def dir_step_def all_synced_def all_linked_def min_def)

lemma seg_upd_sync:
  "contents (seg_upd i (\<lambda>s. s\<lparr>sf_synced := length (sf_data s)\<rparr>) w) = contents w"
  "dir_step w (seg_upd i (\<lambda>s. s\<lparr>sf_synced := length (sf_data s)\<rparr>) w)"
  by (auto simp: seg_upd_def contents_def dir_step_def all_synced_def all_linked_def)

lemma repair_tail_step:
  assumes "repair_segment_tail i n w = (res, w2)"
  shows "dir_step w w2 \<and>
    (res = Inr () \<and> contents w2 = map (\<lambda>(j, d). (j, if j = i then take n d else d)) (contents w) \<or>
     (\<exists>e. io_fail w e \<and> res = Inl (from_io e) \<and>
        contents w2 \<in> {contents w, map (\<lambda>(j, d). (j, if j = i then take n d else d)) (contents w)}))"
  using assms unfolding repair_segment_tail_def
proof (cases rule: try_sys_step)
  case (ok w1)
  from ok(3) show ?thesis
  proof (cases rule: try_sys_step)
    case (ok w3)
    note w3 = ok
    let ?c = "seg_upd i (\<lambda>s. s\<lparr>sf_data := take n (sf_data s), sf_synced := min n (sf_synced s)\<rparr>) w3"
    have c: "dir_step w ?c" "contents ?c = map (\<lambda>(j, d). (j, if j = i then take n d else d)) (contents w)"
      using \<open>dir_step w w1\<close> \<open>contents w1 = contents w\<close> w3(1,2) seg_upd_cut(1) [of i n w3] seg_upd_cut(2) [of w3 i n] by (auto intro: dir_step_trans)
    from w3(3) have "try_sys ?c (\<lambda>w. (Inr (), seg_upd i (\<lambda>s. s\<lparr>sf_synced := length (sf_data s)\<rparr>) w)) = (res, w2)"
      by (simp add: Let_def)
    then show ?thesis
    proof (cases rule: try_sys_step)
      case (ok w4)
      then show ?thesis using c seg_upd_sync(1) [of i w4] seg_upd_sync(2) [of w4 i] by (auto intro: dir_step_trans)
    next
      case (fail e)
      then show ?thesis using c by (auto intro: dir_step_trans dir_step_fail)
    qed
  next
    case (fail e)
    then show ?thesis using ok by (auto intro: dir_step_trans dir_step_fail)
  qed
next
  case (fail e)
  then show ?thesis by auto
qed

lemma quarantine_step:
  assumes "quarantine_segment i w = (res, w2)"
  shows "dir_step w w2 \<and>
    (res = Inr () \<and> contents w2 = filter (\<lambda>(j, _). j \<noteq> i) (contents w) \<or>
     (\<exists>e. io_fail w e \<and> res = Inl (from_io e) \<and>
        contents w2 \<in> {contents w, filter (\<lambda>(j, _). j \<noteq> i) (contents w)}))"
  using assms unfolding quarantine_segment_def
proof (cases rule: try_sys_step)
  case (ok w1)
  from ok(3) show ?thesis
  proof (cases rule: try_sys_step)
    case (ok w3)
    let ?c = "seg_remove i (w3\<lparr>quarantine := quarantine w3 @ filter (\<lambda>(j, _). j = i) (segs w3)\<rparr>)"
    have d: "dir_step w3 ?c" by (auto simp: dir_step_def seg_remove_def all_synced_def all_linked_def)
    have "contents ?c = filter (\<lambda>(j, _). j \<noteq> i) (contents w3)"
      by (auto simp: contents_def seg_remove_def filter_map comp_def split_def)
    then have c: "dir_step w ?c" "contents ?c = filter (\<lambda>(j, _). j \<noteq> i) (contents w)"
      using d \<open>dir_step w w1\<close> \<open>contents w1 = contents w\<close> ok(1,2) by (auto intro: dir_step_trans)
    from fsync_dir_step [OF ok(3)] show ?thesis
      using c by (auto intro: dir_step_trans dir_step_fail)
  next
    case (fail e)
    then show ?thesis using ok by (auto intro: dir_step_trans dir_step_fail)
  qed
next
  case (fail e)
  then show ?thesis by auto
qed

lemma repair_action_step:
  assumes "repair_action repair i r w = (res, w2)"
  shows "dir_step w w2 \<and>
    (res = Inr () \<and> contents w2 = rep_contents repair i r (contents w) \<or>
     (\<exists>e. io_fail w e \<and> res = Inl (from_io e) \<and>
        contents w2 \<in> {contents w, rep_contents repair i r (contents w)}))"
  using assms repair_tail_step quarantine_step
  by (auto simp: repair_action_def rep_contents_def split: if_splits)

definition content_of :: "(u64 \<times> bytes) list \<Rightarrow> u64 \<Rightarrow> bytes" where
  "content_of cs i = (case map_of cs i of None \<Rightarrow> [] | Some d \<Rightarrow> d)"

lemma seg_data_contents: "seg_data w i = content_of (contents w) i"
proof -
  have "map_of (map (\<lambda>(i, s). (i, sf_data s)) ss) i = map_option sf_data (map_of ss i)"
    for ss :: "(u64 \<times> seg_file) list"
    by (induction ss) auto
  then show ?thesis by (simp add: seg_data_def content_of_def contents_def split: option.split)
qed

lemma scan_one_good:
  assumes sc: "scan_segment crc dz None i 0 (rr_last rep) (rr_records rep) (content_of (contents w) i) = Inr r"
    and new: "sr_truncate r \<Longrightarrow> newest"
    and run: "scan_one crc dz repair newest i rep w = (res, w2)"
  shows "dir_step w w2 \<and>
    (res = Inr (segment_done repair newest i (length (content_of (contents w) i)) r rep) \<and>
       contents w2 = rep_contents repair i r (contents w) \<or>
     (\<exists>e. io_fail w e \<and> res = Inl (from_io e) \<and>
        contents w2 \<in> {contents w, rep_contents repair i r (contents w)}))"
  using run unfolding scan_one_def
proof (cases rule: try_sys_step)
  case (ok w1)
  from ok(3) show ?thesis
  proof (cases rule: try_sys_step)
    case (ok w3)
    note w3 = ok
    have d3: "dir_step w w3" "contents w3 = contents w"
      using \<open>dir_step w w1\<close> \<open>contents w1 = contents w\<close> w3(1,2) by (auto intro: dir_step_trans)
    show ?thesis
    proof (cases rule: sys_cases [of w3])
      case (ok w4)
      have d4: "dir_step w w4" "contents w4 = contents w"
        using ok same_dir_step [OF ok(2)] d3 by (auto intro: dir_step_trans)
      have "bind_io (repair_action repair i r w4) (\<lambda>_ w.
          (Inr (segment_done repair newest i (length (content_of (contents w4) i)) r rep), w)) = (res, w2)"
        using w3(3) ok sc new d4 by (auto simp: seg_data_contents Let_def split: if_splits)
      moreover obtain q w5 where q: "repair_action repair i r w4 = (q, w5)" by fastforce
      ultimately show ?thesis
        using repair_action_step [OF q] d4
        by (auto simp: bind_io_def split: sum.splits intro: dir_step_trans dir_step_fail)
    next
      case (fail n e w4)
      have d4: "dir_step w w4" "contents w4 = contents w"
        using same_dir_step [OF fail(2)] d3 by (auto intro: dir_step_trans)
      have "res = Inl (from_io e)" "w2 = w4"
        using w3(3) fail(1) scan_read_error [OF sc, of e n] d4 by (auto simp: seg_data_contents Let_def)
      then show ?thesis using d4 d3 fail(3) by (auto intro: dir_step_fail)
    qed
  next
    case (fail e)
    then show ?thesis using ok by (auto intro: dir_step_trans dir_step_fail)
  qed
next
  case (fail e)
  then show ?thesis by auto
qed

section \<open>A whole log\<close>

text \<open>\<open>fits n its\<close>: the items whose encoding is complete within the first \<open>n\<close> bytes.\<close>

fun fits :: "(bytes \<Rightarrow> u32) \<Rightarrow> nat \<Rightarrow> wal_item list \<Rightarrow> wal_item list" where
  "fits crc n [] = []"
| "fits crc n (it # its) =
     (if length (enc_item crc it) \<le> n then it # fits crc (n - length (enc_item crc it)) its else [])"

lemma fits_prefix: "\<exists>rest. its = fits crc n its @ rest"
  by (induction its arbitrary: n) auto

lemma fits_length: "length (encs crc (fits crc n its)) \<le> n"
proof (induction its arbitrary: n)
  case (Cons it its)
  show ?case
    using Cons.IH [of "n - length (enc_item crc it)"] by auto
qed simp

lemma fits_all: "length (encs crc its) \<le> n \<Longrightarrow> fits crc n its = its"
  by (induction its arbitrary: n) auto

lemma fits_append_prefix:
  "length (encs crc xs) \<le> n \<Longrightarrow> fits crc n (xs @ ys) = xs @ fits crc (n - length (encs crc xs)) ys"
  by (induction xs arbitrary: n) auto

lemma fits_sub: "set (fits crc n its) \<subseteq> set its"
  using fits_prefix [of its crc n] by (metis set_append Un_upper1)

lemma asc_fits: "asc prev (ls @ map fst its) \<Longrightarrow> asc prev (ls @ map fst (fits crc n its))"
  using fits_prefix [of its crc n] by (metis append_assoc asc_append map_append)

lemma encs_inj_empty [simp]: "encs crc its = [] \<longleftrightarrow> its = []"
  by (cases its) auto

lemma scan_take:
  assumes "list_all (item_ok dz) its" "asc prev (map fst its)" "n \<le> length (encs crc its)"
  shows "\<exists>t. scan_segment crc dz None sid off prev out (take n (encs crc its)) =
    Inr \<lparr>sr_valid = off + length (encs crc (fits crc n its)),
         sr_truncate = (length (encs crc (fits crc n its)) < n), sr_tail = t,
         sr_prev = last_of prev (map fst (fits crc n its)), sr_out = out @ map (item_rec dz) (fits crc n its)\<rparr> \<and>
    (length (encs crc (fits crc n its)) = n \<longrightarrow> t = TailClean)"
  using assms
proof (induction its arbitrary: n off prev out)
  case Nil
  then show ?case by (subst scan_segment.simps) (simp add: at_eof_def Let_def)
next
  case (Cons it its)
  show ?case
  proof (cases "length (enc_item crc it) \<le> n")
    case True
    let ?m = "n - length (enc_item crc it)"
    have "take n (encs crc (it # its)) = enc_item crc it @ take ?m (encs crc its)" using True by simp
    moreover have "\<exists>t. scan_segment crc dz None sid (off + length (enc_item crc it)) (Some (fst it))
        (out @ [item_rec dz it]) (take ?m (encs crc its)) =
      Inr \<lparr>sr_valid = off + length (enc_item crc it) + length (encs crc (fits crc ?m its)),
         sr_truncate = (length (encs crc (fits crc ?m its)) < ?m), sr_tail = t,
         sr_prev = last_of (Some (fst it)) (map fst (fits crc ?m its)),
         sr_out = (out @ [item_rec dz it]) @ map (item_rec dz) (fits crc ?m its)\<rparr> \<and>
      (length (encs crc (fits crc ?m its)) = ?m \<longrightarrow> t = TailClean)"
      using Cons.prems by (intro Cons.IH) auto
    moreover have "above prev (fst it)" "item_ok dz it" using Cons.prems by auto
    ultimately show ?thesis using True
      by (simp only: scan_item fits.simps if_True encs_simps length_append list.map last_of_simps)
        (auto simp: add.assoc)
  next
    case False
    then have "scan_segment crc dz None sid off prev out (take n (enc_item crc it)) =
      Inr \<lparr>sr_valid = off, sr_truncate = (n \<noteq> 0), sr_tail = torn_tail it off n, sr_prev = prev, sr_out = out\<rparr>"
      using Cons.prems by (intro scan_torn) auto
    with False show ?thesis by (auto simp: torn_tail_def)
  qed
qed

fun log_holds :: "(bytes \<Rightarrow> u32) \<Rightarrow> (u64 \<times> bytes) list \<Rightarrow> wal_item list list \<Rightarrow> nat \<Rightarrow> bool" where
  "log_holds crc [] itss n = (itss = [])"
| "log_holds crc (c # cs) itss n =
     (case itss of [] \<Rightarrow> False
      | its # r \<Rightarrow> if cs = [] then r = [] \<and> n \<le> length (encs crc its) \<and> snd c = take n (encs crc its)
                   else snd c = encs crc its \<and> log_holds crc cs r n)"

definition recov :: "(bytes \<Rightarrow> u32) \<Rightarrow> wal_item list list \<Rightarrow> nat \<Rightarrow> wal_item list list" where
  "recov crc itss n = (if itss = [] then [] else butlast itss @ [fits crc n (last itss)])"

definition fixed :: "(bytes \<Rightarrow> u32) \<Rightarrow> bool \<Rightarrow> (u64 \<times> bytes) list \<Rightarrow> wal_item list list \<Rightarrow> nat \<Rightarrow> (u64 \<times> bytes) list" where
  "fixed crc repair cs itss n =
     (let its = fits crc n (last itss) in
      if cs = [] \<or> \<not> repair \<or> length (encs crc its) = n then cs
      else if its = [] then butlast cs else butlast cs @ [(fst (last cs), encs crc its)])"

definition reports :: "(u64 \<times> bytes) list \<Rightarrow> wal_item list list \<Rightarrow> (u64 \<times> u64 option) list" where
  "reports cs itss = map2 (\<lambda>c its. (fst c, last_of None (map fst its))) cs itss"

lemma segment_done_fields:
  assumes "sr_out r = rr_records rep @ map (item_rec dz) its"
  shows "rr_records (segment_done repair newest i len r rep) = rr_records rep @ map (item_rec dz) its"
    "rr_last (segment_done repair newest i len r rep) = sr_prev r"
    "rr_reports (segment_done repair newest i len r rep) = rr_reports rep @ [(i, last_of None (map fst its))]"
    "rr_segments (segment_done repair newest i len r rep) = rr_segments rep"
    "newest \<Longrightarrow> rr_append (segment_done repair newest i len r rep) = sr_valid r"
    "newest \<Longrightarrow> rr_tail (segment_done repair newest i len r rep) = sr_tail r"
    "rr_repaired (segment_done repair newest i len r rep) = (if sr_truncate r then repair else rr_repaired rep)"
proof -
  have "(if map (item_rec dz) its = [] then None else Some (fst (last (map (item_rec dz) its)))) =
      last_of None (map fst its)"
    by (simp add: last_of_def last_map)
  with assms show "rr_reports (segment_done repair newest i len r rep) =
      rr_reports rep @ [(i, last_of None (map fst its))]"
    by (simp add: segment_done_def Let_def)
qed (use assms in \<open>simp_all add: segment_done_def Let_def\<close>)

definition rep_after ::
  "(bytes \<Rightarrow> u32) \<Rightarrow> (bytes \<Rightarrow> string + bytes) \<Rightarrow> (u64 \<times> bytes) list \<Rightarrow> wal_item list list \<Rightarrow> nat \<Rightarrow>
   recovery_report \<Rightarrow> recovery_report \<Rightarrow> bool" where
  "rep_after crc dz cs items n rep rep2 \<longleftrightarrow>
     rr_records rep2 = rr_records rep @ map (item_rec dz) (concat items) \<and>
     rr_last rep2 = last_of (rr_last rep) (map fst (concat items)) \<and>
     rr_reports rep2 = rr_reports rep @ reports cs items \<and> rr_segments rep2 = rr_segments rep \<and>
     (cs \<noteq> [] \<longrightarrow> rr_append rep2 = length (encs crc (last items)) \<and>
       (length (encs crc (last items)) = n \<longrightarrow> rr_tail rep2 = TailClean \<and> rr_repaired rep2 = rr_repaired rep))"

lemma content_of_mid:
  "distinct (map fst (pre @ c # cs)) \<Longrightarrow> content_of (pre @ c # cs) (fst c) = snd c"
proof -
  assume "distinct (map fst (pre @ c # cs))"
  then have "fst c \<notin> set (map fst pre)" by auto
  then have "map_of pre (fst c) = None" by (simp add: map_of_eq_None_iff)
  then show ?thesis by (cases c) (simp add: content_of_def map_add_def)
qed

lemma rep_contents_last:
  assumes "distinct (map fst (pre @ [c]))"
  shows "rep_contents repair (fst c) r (pre @ [c]) =
    pre @ (if sr_truncate r \<and> repair then if sr_valid r > 0 then [(fst c, take (sr_valid r) (snd c))] else [] else [c])"
proof -
  have pre: "j \<noteq> fst c" if "(j, d) \<in> set pre" for j d
  proof -
    have "j \<in> fst ` set pre" using that by force
    moreover have "fst c \<notin> fst ` set pre" using assms by simp
    ultimately show ?thesis by metis
  qed
  then have "map (\<lambda>(j, d). (j, if j = fst c then take v d else d)) pre = pre" for v
    by (intro map_idI) auto
  moreover have "filter (\<lambda>(j, _). j \<noteq> fst c) pre = pre"
    using pre by (intro filter_True) auto
  ultimately show ?thesis by (simp add: rep_contents_def split: prod.split)
qed

lemma scan_segs_good:
  assumes "log_holds crc cs itss n" "list_all (item_ok dz) (concat itss)"
    "asc (rr_last rep) (map fst (concat itss))" "contents w = pre @ cs" "distinct (map fst (pre @ cs))"
    "scan_segs crc dz repair (map fst cs) rep w = (res, w2)"
  shows "dir_step w w2 \<and>
    ((\<exists>rep2. res = Inr rep2 \<and> contents w2 = pre @ fixed crc repair cs itss n \<and>
        rep_after crc dz cs (recov crc itss n) n rep rep2) \<or>
     (\<exists>e. io_fail w e \<and> res = Inl (from_io e) \<and>
        contents w2 \<in> {contents w, pre @ fixed crc repair cs itss n}))"
  using assms
proof (induction cs arbitrary: itss rep pre w)
  case Nil
  then show ?case by (auto simp: fixed_def rep_after_def recov_def reports_def)
next
  case (Cons c cs)
  obtain its itss' where itss: "itss = its # itss'" using Cons.prems(1) by (auto split: list.splits)
  have co: "content_of (contents w) (fst c) = snd c"
    unfolding Cons.prems(4) using Cons.prems(5) by (rule content_of_mid)
  define m where "m = (if cs = [] then n else length (encs crc its))"
  have m: "m \<le> length (encs crc its)" "snd c = take m (encs crc its)"
    using Cons.prems(1) by (auto simp: itss m_def split: if_splits)
  have ok: "list_all (item_ok dz) its" "asc (rr_last rep) (map fst its)"
    using Cons.prems(2,3) by (auto simp: itss asc_append)
  let ?its = "fits crc m its"
  obtain r where r: "scan_segment crc dz None (fst c) 0 (rr_last rep) (rr_records rep) (content_of (contents w) (fst c)) = Inr r"
    and rv: "sr_valid r = length (encs crc ?its)" "sr_truncate r \<longleftrightarrow> length (encs crc ?its) < m"
      "sr_prev r = last_of (rr_last rep) (map fst ?its)" "sr_out r = rr_records rep @ map (item_rec dz) ?its"
      "length (encs crc ?its) = m \<Longrightarrow> sr_tail r = TailClean"
    using scan_take [OF ok m(1), of "fst c" 0 "rr_records rep"] unfolding co m(2) by auto
  have tr: "sr_truncate r \<Longrightarrow> cs = []"
    using rv(2) by (auto simp: m_def fits_all split: if_splits)
  obtain q w1 where q: "scan_one crc dz repair (cs = []) (fst c) rep w = (q, w1)" by fastforce
  note one = scan_one_good [OF r tr q]
  note run = Cons.prems(6) [simplified, unfolded q bind_io_def prod.case]
  note fin = segment_done_fields [OF rv(4)]
  show ?case
  proof (cases "cs = []")
    case True
    then have mn: "m = n" and is1: "itss' = []" using Cons.prems(1) by (auto simp: m_def itss)
    have "take (length (encs crc (fits crc n its))) (take n (encs crc its)) = encs crc (fits crc n its)"
    proof -
      obtain rest where "its = fits crc n its @ rest" using fits_prefix by blast
      then have "encs crc its = encs crc (fits crc n its) @ encs crc rest" by (metis encs_simps(3))
      then have "take (length (encs crc (fits crc n its))) (encs crc its) = encs crc (fits crc n its)" by simp
      moreover have "min (length (encs crc (fits crc n its))) n = length (encs crc (fits crc n its))"
        using fits_length [of crc n its] by simp
      ultimately show ?thesis by simp
    qed
    note that = this
    have fx: "rep_contents repair (fst c) r (contents w) = pre @ fixed crc repair (c # cs) itss n"
    proof -
      have d: "distinct (map fst (pre @ [c]))" and cw: "contents w = pre @ [c]" using Cons.prems(4,5) True by auto
      show ?thesis
        unfolding cw rep_contents_last [OF d] using that True rv(1,2) m(2) fits_length [of crc n its]
        by (auto simp: fixed_def itss is1 mn Let_def)
    qed
    have "rep_after crc dz (c # cs) (recov crc itss n) n rep
        (segment_done repair (cs = []) (fst c) (length (content_of (contents w) (fst c))) r rep)"
      using rv True mn by (auto simp: rep_after_def recov_def itss is1 fin reports_def)
    with one run fx True show ?thesis by (auto simp: split: sum.splits)
  next
    case False
    have ml: "m = length (encs crc its)" and fi: "?its = its" using False by (auto simp: m_def fits_all)
    have ntr: "\<not> sr_truncate r" using tr False by blast
    have rc: "rep_contents repair (fst c) r (contents w) = contents w" using ntr by (simp add: rep_contents_def)
    let ?rep = "segment_done repair (cs = []) (fst c) (length (content_of (contents w) (fst c))) r rep"
    have fxe: "pre @ fixed crc repair (c # cs) itss n = (pre @ [c]) @ fixed crc repair cs itss' n"
    proof -
      have "itss' \<noteq> []" using False Cons.prems(1) by (cases cs) (auto simp: itss)
      then show ?thesis using False by (simp add: fixed_def itss Let_def)
    qed
    from one rc consider (good) "q = Inr ?rep" "contents w1 = contents w" "dir_step w w1"
      | (bad) e where "io_fail w e" "q = Inl (from_io e)" "contents w1 = contents w" "dir_step w w1" by auto
    then show ?thesis
    proof cases
      case good
      have "log_holds crc cs itss' n" using Cons.prems(1) False by (auto simp: itss)
      moreover have "list_all (item_ok dz) (concat itss')" using Cons.prems(2) by (simp add: itss)
      moreover have "asc (rr_last ?rep) (map fst (concat itss'))"
        using Cons.prems(3) rv(3) by (simp add: itss asc_append fin fi)
      moreover have "contents w1 = (pre @ [c]) @ cs" using good Cons.prems(4) by simp
      moreover have "distinct (map fst ((pre @ [c]) @ cs))" using Cons.prems(5) by simp
      moreover have "scan_segs crc dz repair (map fst cs) ?rep w1 = (res, w2)" using run good by simp
      ultimately have ih: "dir_step w1 w2 \<and>
        ((\<exists>rep2. res = Inr rep2 \<and> contents w2 = (pre @ [c]) @ fixed crc repair cs itss' n \<and>
            rep_after crc dz cs (recov crc itss' n) n ?rep rep2) \<or>
         (\<exists>e. io_fail w1 e \<and> res = Inl (from_io e) \<and>
            contents w2 \<in> {contents w1, (pre @ [c]) @ fixed crc repair cs itss' n}))"
        by (rule Cons.IH)
      have ne: "itss' \<noteq> []" using Cons.prems(1) False by (cases cs) (auto simp: itss)
      have "rep_after crc dz (c # cs) (recov crc itss n) n rep rep2"
        if "rep_after crc dz cs (recov crc itss' n) n ?rep rep2" for rep2
      proof -
        have e: "recov crc itss n = its # recov crc itss' n" "recov crc itss' n \<noteq> []"
          using ne by (simp_all add: recov_def itss)
        show ?thesis using that False ntr rv(3) unfolding rep_after_def e(1)
          by (simp add: fin fi reports_def e(2))
      qed
      with ih good fxe show ?thesis by (auto intro: dir_step_trans dir_step_fail)
    next
      case bad
      with run show ?thesis by auto
    qed
  qed
qed

lemma contents_fst [simp]: "map fst (contents w) = map fst (segs w)"
  by (simp add: contents_def comp_def split_def)

lemma scan_dir_good:
  assumes log: "log_holds crc (contents w) itss n" and ok: "list_all (item_ok dz) (concat itss)"
    and asc: "asc None (map fst (concat itss))" and d: "distinct (map fst (segs w))"
    and run: "scan_dir crc dz repair w = (res, w2)"
  shows "dir_step w w2 \<and>
    ((\<exists>rep. res = Inr rep \<and> contents w2 = fixed crc repair (contents w) itss n \<and>
        rep_after crc dz (contents w) (recov crc itss n) n (empty_report (length (segs w))) rep \<and>
        (contents w = [] \<longrightarrow> rr_append rep = 0 \<and> rr_tail rep = TailClean \<and> \<not> rr_repaired rep)) \<or>
     (\<exists>e. io_fail w e \<and> res = Inl (from_io e) \<and>
        contents w2 \<in> {contents w, fixed crc repair (contents w) itss n}))"
  using run unfolding scan_dir_def
proof (cases rule: try_sys_cases)
  case (ok w1)
  have s: "segs w1 = segs w" "dir_step w w1" "contents w1 = contents w"
    using ok(1) same_dir_step by (auto simp: same_dir_def)
  obtain q w3 where q: "scan_segs crc dz repair (map fst (contents w)) (empty_report (length (segs w))) w1 = (q, w3)"
    by fastforce
  have asc': "asc (rr_last (empty_report (length (segs w)))) (map fst (concat itss))"
    using asc by (simp add: empty_report_def)
  have cw1: "contents w1 = [] @ contents w" and d': "distinct (map fst ([] @ contents w))" using s d by simp_all
  note g = scan_segs_good [OF log assms(2) asc' cw1 d' q, simplified]
  have qc: "q = Inr (empty_report (length (segs w)))" if "contents w = []" using q that by simp
  have "bind_io (q, w3) (\<lambda>rep w.
      (Inr (rep\<lparr>rr_first := (if rr_records rep = [] then None else Some (fst (hd (rr_records rep))))\<rparr>), w)) = (res, w2)"
    using ok(2) q s(1) by (simp add: Let_def)
  with g s qc show ?thesis
    by (auto simp: bind_io_def rep_after_def empty_report_def intro: dir_step_trans dir_step_fail split: sum.splits)
next
  case (fail e)
  then show ?thesis using same_dir_step by auto
qed

lemma no_faults: "faults w = [] \<Longrightarrow> \<not> io_fail w e"
  by (simp add: io_fail_def)

lemma dir_step_no_faults: "dir_step w w' \<Longrightarrow> faults w = [] \<Longrightarrow> faults w' = []"
  by (simp add: dir_step_def)

section \<open>Recovery of arbitrary bytes\<close>

lemma scan_one_inv:
  assumes run: "scan_one crc dz repair newest i rep w = (Inr rep1, w1)"
  shows "\<exists>r. scan_segment crc dz None i 0 (rr_last rep) (rr_records rep) (content_of (contents w) i) = Inr r \<and>
    (sr_truncate r \<longrightarrow> newest)"
  using run unfolding scan_one_def
proof (cases rule: try_sys_cases)
  case (ok w2)
  from ok(2) show ?thesis
  proof (cases rule: try_sys_cases)
    case (ok w3)
    obtain f w4 where f: "sys w3 = (f, w4)" by fastforce
    have c: "seg_data w4 i = content_of (contents w) i"
      using f ok(1) \<open>same_dir w w2\<close> by (auto simp: seg_data_contents contents_def same_dir_def)
    obtain r where r: "scan_segment crc dz (map_option snd f) i 0 (rr_last rep) (rr_records rep)
        (case f of None \<Rightarrow> seg_data w4 i | Some (n, _) \<Rightarrow> take n (seg_data w4 i)) = Inr r"
      "sr_truncate r \<longrightarrow> newest"
      using ok(2) f by (auto simp: Let_def split: sum.splits if_splits)
    have "f = None" using scan_sound_gen [OF r(1)] by simp
    with r c show ?thesis by auto
  qed auto
qed auto

lemma scan_segs_sound:
  assumes "contents w = pre @ cs" "distinct (map fst (pre @ cs))"
    "scan_segs crc dz True (map fst cs) rep w = (Inr rep2, w2)"
  shows "\<exists>itss cs2. contents w2 = pre @ cs2 \<and> distinct (map fst (pre @ cs2)) \<and>
    log_holds crc cs2 itss (length (encs crc (last itss))) \<and>
    list_all (item_ok dz) (concat itss) \<and> asc (rr_last rep) (map fst (concat itss)) \<and>
    rr_records rep2 = rr_records rep @ map (item_rec dz) (concat itss)"
  using assms
proof (induction cs arbitrary: rep pre w)
  case Nil
  then show ?case by (auto intro!: exI [of _ "[]"])
next
  case (Cons c cs)
  obtain rep1 w1 where one: "scan_one crc dz True (cs = []) (fst c) rep w = (Inr rep1, w1)"
    and rest: "scan_segs crc dz True (map fst cs) rep1 w1 = (Inr rep2, w2)"
    using Cons.prems(3) by (auto simp: bind_io_def split: prod.splits sum.splits)
  from scan_one_inv [OF one] obtain r where
    r: "scan_segment crc dz None (fst c) 0 (rr_last rep) (rr_records rep) (content_of (contents w) (fst c)) = Inr r"
    and tr: "sr_truncate r \<Longrightarrow> cs = []" by blast
  have co: "content_of (contents w) (fst c) = snd c"
    unfolding Cons.prems(1) using Cons.prems(2) by (rule content_of_mid)
  from scan_sound_gen [OF r [unfolded co]] obtain its where
    its: "length (encs crc its) = sr_valid r" "encs crc its = take (sr_valid r) (snd c)"
      "list_all (item_ok dz) its" "asc (rr_last rep) (map fst its)"
      "sr_prev r = last_of (rr_last rep) (map fst its)" "sr_out r = rr_records rep @ map (item_rec dz) its"
      "sr_truncate r \<longleftrightarrow> sr_valid r < length (snd c)"
    by (auto simp: scan_post_def)
  from scan_one_good [OF r tr one]
  have rep1: "rep1 = segment_done True (cs = []) (fst c) (length (content_of (contents w) (fst c))) r rep"
    and w1: "contents w1 = rep_contents True (fst c) r (contents w)" by auto
  note fin = segment_done_fields [OF its(6), of True "cs = []" "fst c" "length (content_of (contents w) (fst c))", folded rep1]
  show ?case
  proof (cases "cs = []")
    case True
    then have d: "distinct (map fst (pre @ [c]))" and cw: "contents w = pre @ [c]" using Cons.prems by auto
    have res: "rep2 = rep1" "w2 = w1" using rest True by auto
    show ?thesis
    proof (cases "sr_truncate r \<and> sr_valid r = 0")
      case True
      then have "its = []" using its(1) by simp
      with True w1 cw d rep_contents_last [OF d, of True r] its res fin show ?thesis
        by (intro exI [of _ "[]"]) auto
    next
      case False
      then have "contents w1 = pre @ [(fst c, encs crc its)]"
        using w1 cw rep_contents_last [OF d, of True r] its(2,7) by (cases c) auto
      with d its res fin show ?thesis
        by (intro exI [of _ "[its]"] exI [of _ "[(fst c, encs crc its)]"]) auto
    qed
  next
    case False
    then have ntr: "\<not> sr_truncate r" using tr by blast
    then have full: "snd c = encs crc its" using its(2,7) by simp
    have w1': "contents w1 = (pre @ [c]) @ cs" using w1 ntr Cons.prems(1) by (simp add: rep_contents_def)
    have d1: "distinct (map fst ((pre @ [c]) @ cs))" using Cons.prems(2) by simp
    from Cons.IH [OF w1' d1 rest] obtain itss cs2 where ih: "contents w2 = (pre @ [c]) @ cs2"
      "distinct (map fst ((pre @ [c]) @ cs2))" "log_holds crc cs2 itss (length (encs crc (last itss)))"
      "list_all (item_ok dz) (concat itss)" "asc (rr_last rep1) (map fst (concat itss))"
      "rr_records rep2 = rr_records rep1 @ map (item_rec dz) (concat itss)" by blast
    have ne: "itss \<noteq> []" if "cs2 \<noteq> []" using ih(3) that by (cases cs2) auto
    have "log_holds crc (c # cs2) (its # itss) (length (encs crc (last (its # itss))))"
      using ih(3) full ne by (cases "cs2 = []") auto
    with ih its fin show ?thesis
      by (intro exI [of _ "its # itss"] exI [of _ "c # cs2"]) (simp add: asc_append)
  qed
qed

lemma recover_dir_sound:
  assumes "distinct (map fst (segs w))" "recover_dir crc dz w = (Inr rep, w2)"
  shows "\<exists>itss. log_holds crc (contents w2) itss (length (encs crc (last itss))) \<and> distinct (map fst (segs w2)) \<and>
    list_all (item_ok dz) (concat itss) \<and> asc None (map fst (concat itss)) \<and>
    rr_records rep = map (item_rec dz) (concat itss)"
  using assms(2) unfolding recover_dir_def scan_dir_def
proof (cases rule: try_sys_cases)
  case (ok w1)
  let ?e = "empty_report (length (segs w))"
  have s: "segs w1 = segs w" "contents w1 = contents w" using ok(1) same_dir_step by (auto simp: same_dir_def)
  then obtain rep1 where r1: "scan_segs crc dz True (map fst (contents w)) ?e w1 = (Inr rep1, w2)"
    "rr_records rep = rr_records rep1"
    using ok(2) by (auto simp: Let_def bind_io_def split: prod.splits sum.splits)
  have "\<exists>itss cs2. contents w2 = [] @ cs2 \<and> distinct (map fst ([] @ cs2)) \<and>
    log_holds crc cs2 itss (length (encs crc (last itss))) \<and>
    list_all (item_ok dz) (concat itss) \<and> asc (rr_last ?e) (map fst (concat itss)) \<and>
    rr_records rep1 = rr_records ?e @ map (item_rec dz) (concat itss)"
    by (rule scan_segs_sound [OF _ _ r1(1)]) (use s assms in simp_all)
  then obtain itss cs2 where i: "contents w2 = cs2" "distinct (map fst cs2)"
    "log_holds crc cs2 itss (length (encs crc (last itss)))"
    "list_all (item_ok dz) (concat itss)" "asc None (map fst (concat itss))"
    "rr_records rep1 = map (item_rec dz) (concat itss)"
    by (auto simp: empty_report_def)
  then have "distinct (map fst (segs w2))" by (metis contents_fst)
  with i r1(2) show ?thesis by (intro exI [of _ itss]) simp
qed auto

section \<open>Properties\<close>

text \<open>C16: Recovery is idempotent on arbitrary directory contents. Whenever it succeeds, on whatever bytes
  and whatever system-call failures, a second fault-free recovery of the directory it leaves behind
  returns the same records, reports a clean tail, repairs nothing and changes no file.\<close>

theorem recover_dir_idempotent:
  assumes "distinct (map fst (segs w))" "recover_dir crc dz w = (Inr rep, w1)" "faults w1 = []"
  shows "\<exists>rep' w2. recover_dir crc dz w1 = (Inr rep', w2) \<and> rr_records rep' = rr_records rep \<and>
    rr_tail rep' = TailClean \<and> \<not> rr_repaired rep' \<and> contents w2 = contents w1"
proof -
  obtain itss where i: "log_holds crc (contents w1) itss (length (encs crc (last itss)))"
    "distinct (map fst (segs w1))" "list_all (item_ok dz) (concat itss)" "asc None (map fst (concat itss))"
    "rr_records rep = map (item_rec dz) (concat itss)"
    using recover_dir_sound [OF assms(1,2)] by blast
  let ?n = "length (encs crc (last itss))"
  obtain q w2 where q: "scan_dir crc dz True w1 = (q, w2)" by fastforce
  have re: "recov crc itss ?n = itss" by (auto simp: recov_def fits_all)
  have fx: "fixed crc True (contents w1) itss ?n = contents w1" by (simp add: fixed_def fits_all)
  from scan_dir_good [OF i(1,3,4,2) q] no_faults [OF assms(3)] obtain rep' where
    "q = Inr rep'" "contents w2 = contents w1"
    "rep_after crc dz (contents w1) itss ?n (empty_report (length (segs w1))) rep'"
    "contents w1 = [] \<longrightarrow> rr_append rep' = 0 \<and> rr_tail rep' = TailClean \<and> \<not> rr_repaired rep'"
    unfolding re fx by blast
  then show ?thesis
    using q i(5) by (auto simp: recover_dir_def rep_after_def empty_report_def)
qed

theorem recover_dir_idempotent_witness:
  "\<exists>rep' w2. recover_dir (\<lambda>_. 7) Inr
      \<lparr>segs = [], manifest = None, manifest_dur = None, quarantine = [(1, \<lparr>sf_data = [0x52], sf_synced = 1, sf_linked = True\<rparr>)], faults = []\<rparr> =
      (Inr rep', w2) \<and> rr_records rep' = [] \<and> contents w2 = []"
proof -
  let ?w = "\<lparr>segs = [(1, \<lparr>sf_data = [0x52], sf_synced = 1, sf_linked = True\<rparr>)], manifest = None, manifest_dur = None, quarantine = [], faults = []\<rparr>"
  let ?w1 = "\<lparr>segs = [], manifest = None, manifest_dur = None, quarantine = [(1, \<lparr>sf_data = [0x52], sf_synced = 1, sf_linked = True\<rparr>)], faults = []\<rparr>"
  have "scan_segment (\<lambda>_. 7) Inr None 1 0 None [] [0x52] =
    Inr \<lparr>sr_valid = 0, sr_truncate = True, sr_tail = PartialHeader 0, sr_prev = None, sr_out = []\<rparr>"
    by (subst scan_segment.simps) (simp add: header_size_def at_eof_def Let_def)
  then obtain rep where r: "recover_dir (\<lambda>_. 7) Inr ?w = (Inr rep, ?w1)" "rr_records rep = []"
    by (simp add: recover_dir_def scan_dir_def try_sys_def sys_def bind_io_def scan_one_def Let_def
        seg_data_def empty_report_def repair_action_def quarantine_segment_def fsync_dir_def seg_remove_def
        segment_done_def)
  from recover_dir_idempotent [OF _ r(1)] r(2) show ?thesis by (auto simp: contents_def)
qed

lemma scan_one_verify:
  assumes "scan_one crc dz False newest i rep w = (res, w2)"
  shows "same_dir w w2"
  using assms unfolding scan_one_def
proof (cases rule: try_sys_cases)
  case (ok w1)
  from ok(2) show ?thesis
  proof (cases rule: try_sys_cases)
    case (ok w3)
    obtain f w4 where f: "sys w3 = (f, w4)" by fastforce
    have "same_dir w3 w4" using f by (cases rule: sys_cases [of w3]) auto
    moreover have "w2 = w4"
      using ok(2) f by (auto simp: Let_def repair_action_def bind_io_def split: sum.splits if_splits)
    ultimately show ?thesis using ok \<open>same_dir w w1\<close> by (blast intro: same_dir_trans)
  next
    case (fail e)
    with ok show ?thesis by (blast intro: same_dir_trans)
  qed
qed

lemma scan_segs_verify: "scan_segs crc dz False is rep w = (res, w2) \<Longrightarrow> same_dir w w2"
proof (induction "is" arbitrary: rep w)
  case (Cons i "is")
  obtain q w1 where q: "scan_one crc dz False (is = []) i rep w = (q, w1)" by fastforce
  note s = scan_one_verify [OF q]
  show ?case
  proof (cases q)
    case (Inl e)
    with Cons.prems q s show ?thesis by (simp add: bind_io_def)
  next
    case (Inr rep1)
    with Cons.prems q have "scan_segs crc dz False is rep1 w1 = (res, w2)" by (simp add: bind_io_def)
    from Cons.IH [OF this] s show ?thesis by (blast intro: same_dir_trans)
  qed
qed simp

lemma repair_action_ok: "faults w = [] \<Longrightarrow> \<exists>w'. repair_action repair i r w = (Inr (), w')"
  by (simp add: repair_action_def repair_segment_tail_def quarantine_segment_def fsync_dir_def try_sys_def
      sys_def seg_upd_def seg_remove_def Let_def)

lemma segment_done_repair:
  "segment_done True newest i n r rep =
     segment_done False newest i n r rep\<lparr>rr_repaired := sr_truncate r \<or> rr_repaired rep\<rparr>"
  "\<not> sr_truncate r \<Longrightarrow> segment_done True newest i n r rep = segment_done False newest i n r rep"
  by (cases rep; simp add: segment_done_def Let_def)+

lemma scan_segs_agree:
  "faults w = [] \<Longrightarrow>
   (case fst (scan_segs crc dz False is rep w) of
      Inl e \<Rightarrow> fst (scan_segs crc dz True is rep w) = Inl e
    | Inr rep1 \<Rightarrow> \<exists>b. fst (scan_segs crc dz True is rep w) = Inr (rep1\<lparr>rr_repaired := b\<rparr>))"
proof (induction "is" arbitrary: rep w)
  case Nil
  have "rep = rep\<lparr>rr_repaired := rr_repaired rep\<rparr>" by simp
  then have "\<exists>b. rep = rep\<lparr>rr_repaired := b\<rparr>" by (rule exI)
  then show ?case by (simp only: scan_segs.simps fst_conv sum.case sum.inject)
next
  case (Cons i "is")
  have s: "sys w = (None, w)" using Cons.prems by (simp add: sys_def)
  let ?sc = "scan_segment crc dz None i 0 (rr_last rep) (rr_records rep) (seg_data w i)"
  show ?case
  proof (cases ?sc)
    case (Inl e)
    then show ?thesis using s by (simp add: scan_one_def try_sys_def bind_io_def)
  next
    case (Inr r)
    obtain w' where w': "repair_action True i r w = (Inr (), w')" using repair_action_ok [OF Cons.prems] by blast
    have f: "repair_action False i r w = (Inr (), w)" by (simp add: repair_action_def)
    show ?thesis
    proof (cases "sr_truncate r")
      case True
      show ?thesis
      proof (cases "is = []")
        case last: True
        have "scan_one crc dz False True i rep w = (Inr (segment_done False True i (length (seg_data w i)) r rep), w)"
          "scan_one crc dz True True i rep w = (Inr (segment_done True True i (length (seg_data w i)) r rep), w')"
          using Inr s w' f by (simp_all add: scan_one_def try_sys_def bind_io_def)
        then show ?thesis
          by (simp only: last simp_thms scan_segs.simps bind_io_def prod.case sum.case fst_conv
              segment_done_repair(1) [of True i]) blast
      next
        case False
        then show ?thesis using True Inr s by (simp add: scan_one_def try_sys_def bind_io_def)
      qed
    next
      case False
      have r0: "repair_action c i r w = (Inr (), w)" for c using False by (simp add: repair_action_def)
      have one: "scan_one crc dz c nw i rep w =
          (Inr (segment_done c nw i (length (seg_data w i)) r rep), w)" for c nw
        unfolding scan_one_def try_sys_def s prod.case option.case option.map Let_def Inr sum.case r0 bind_io_def
        using False by simp
      show ?thesis
        using Cons.IH [OF Cons.prems, of "segment_done False (is = []) i (length (seg_data w i)) r rep"]
        by (simp only: scan_segs.simps one bind_io_def prod.case sum.case segment_done_repair(2) [OF False])
    qed
  qed
qed

text \<open>Verification is read-only and agrees with recovery. The verify-only scan changes nothing of the
  directory whatever happens; without system-call failures it returns the same error as the
  repairing scan, or the same report apart from the repair flag.\<close>

theorem verify_dir_readonly:
  "(let (res, w2) = verify_dir crc dz w in same_dir w w2 \<and>
    (faults w = [] \<longrightarrow>
      (case res of Inl e \<Rightarrow> fst (recover_dir crc dz w) = Inl e
       | Inr rep \<Rightarrow> \<exists>b. fst (recover_dir crc dz w) = Inr (rep\<lparr>rr_repaired := b\<rparr>))))"
proof -
  obtain res w2 where v: "verify_dir crc dz w = (res, w2)" by fastforce
  have "same_dir w w2"
    using v unfolding verify_dir_def scan_dir_def
  proof (cases rule: try_sys_cases)
    case (ok w1)
    then show ?thesis
      by (auto simp: Let_def bind_io_def split: prod.splits sum.splits dest!: scan_segs_verify intro: same_dir_trans)
  qed auto
  moreover have "case res of Inl e \<Rightarrow> fst (recover_dir crc dz w) = Inl e
       | Inr rep \<Rightarrow> \<exists>b. fst (recover_dir crc dz w) = Inr (rep\<lparr>rr_repaired := b\<rparr>)" if "faults w = []"
  proof -
    have s: "sys w = (None, w)" using that by (simp add: sys_def)
    let ?e = "empty_report (length (segs w))"
    let ?k = "\<lambda>rep. rep\<lparr>rr_first := (if rr_records rep = [] then None else Some (fst (hd (rr_records rep))))\<rparr>"
    have dir: "fst (scan_dir crc dz c w) =
        (case fst (scan_segs crc dz c (map fst (segs w)) ?e w) of Inl e \<Rightarrow> Inl e | Inr rep \<Rightarrow> Inr (?k rep))" for c
      by (simp add: scan_dir_def try_sys_def s bind_io_def Let_def split: prod.split sum.split)
    have res: "res = fst (scan_dir crc dz False w)" using v by (simp add: verify_dir_def)
    have k: "?k (rep\<lparr>rr_repaired := b\<rparr>) = (?k rep)\<lparr>rr_repaired := b\<rparr>" for rep :: recovery_report and b
      by simp
    show ?thesis
    proof (cases "fst (scan_segs crc dz False (map fst (segs w)) ?e w)")
      case (Inl e)
      with scan_segs_agree [OF that, of crc dz "map fst (segs w)" ?e]
      have t: "fst (scan_segs crc dz True (map fst (segs w)) ?e w) = Inl e" by simp
      show ?thesis unfolding res recover_dir_def dir Inl t by simp
    next
      case (Inr rep1)
      with scan_segs_agree [OF that, of crc dz "map fst (segs w)" ?e]
      obtain b where t: "fst (scan_segs crc dz True (map fst (segs w)) ?e w) = Inr (rep1\<lparr>rr_repaired := b\<rparr>)" by auto
      show ?thesis unfolding res recover_dir_def dir Inr t sum.case k by blast
    qed
  qed
  ultimately show ?thesis by (simp add: v)
qed

theorem verify_dir_readonly_witness:
  "let w = \<lparr>segs = [], manifest = None, manifest_dur = None, quarantine = [], faults = []\<rparr>
   in \<exists>b. fst (recover_dir (\<lambda>_. 7) Inr w) = Inr ((empty_report 0)\<lparr>rr_repaired := b\<rparr>)"
proof -
  let ?w = "\<lparr>segs = [], manifest = None, manifest_dur = None, quarantine = [], faults = []\<rparr>"
  have v: "verify_dir (\<lambda>_. 7) Inr ?w = (Inr (empty_report 0), ?w)"
    by (simp add: verify_dir_def scan_dir_def try_sys_def sys_def bind_io_def empty_report_def)
  show ?thesis using verify_dir_readonly [of "\<lambda>_. 7" Inr ?w] by (simp add: v)
qed

end
