(* ===== verification/Ramwal_Wal.thy ===== *)
theory Ramwal_Wal
  imports Ramwal_Recovery
begin

text \<open>
  The log writer: \<^verbatim>\<open>crates/ramwal/src/{wal,config}.rs\<close>.

  \<open>wal\<close> is an open \<^verbatim>\<open>Wal\<close> instance and \<open>disk\<close> the directory it writes to; each operation returns its outcome,
  the instance and the directory. \<open>locked\<close> records that a thread blocked forever while holding the
  writer mutex: every operation that takes the mutex then blocks too (\<open>Deadlock\<close>). The writer's
  \<^verbatim>\<open>BufWriter\<close> is modelled byte by byte: bytes in \<open>w_buf\<close> have not reached the file. The clock is an argument.
\<close>

section \<open>Configuration and state\<close>

datatype durability = Buffered | Explicit | SyncEach | GroupCommit

datatype compression = NoCompression | Lz4

record config =
  c_durability :: durability
  c_compression :: compression
  seg_max_bytes :: nat
  retention_max_bytes :: nat
  c_buffer_capacity :: nat

definition config_new :: config where
  "config_new = \<lparr>c_durability = Explicit, c_compression = NoCompression,
     seg_max_bytes = 64 * 1024 * 1024, retention_max_bytes = 512 * 1024 * 1024,
     c_buffer_capacity = 64 * 1024\<rparr>"

datatype wal_state = Open | PoisonedState

record wal =
  w_buf :: bytes
  w_bytes :: nat
  w_seg :: u64
  next_sync_due_ns :: u64
  written_lsn :: u64
  w_durable :: u64
  closed_segments :: "(u64 \<times> u64) list"
  w_state :: wal_state
  w_fail_next_write :: bool
  w_fail_next_diskfull :: bool
  w_fail_next_dir_fsync :: bool
  w_compression :: compression
  w_durability :: durability
  seg_max :: nat
  retention_max :: nat
  lsn_counter :: u64
  w_ckpt :: u64
  w_recovery :: recovery
  buffer_capacity :: nat
  locked :: bool

definition group_commit_window_ns :: u64 where
  "group_commit_window_ns = 100000000"

type_synonym 'a wal_run = "('a, wal_error) outcome \<times> wal \<times> disk"

definition poison :: "wal \<Rightarrow> wal" where
  "poison g = g\<lparr>w_state := PoisonedState\<rparr>"

section \<open>The buffered writer\<close>

definition append_bytes :: "u64 \<Rightarrow> bytes \<Rightarrow> disk \<Rightarrow> disk" where
  "append_bytes i bs w = seg_upd i (\<lambda>s. s\<lparr>sf_data := sf_data s @ bs\<rparr>) w"

text \<open>\<^verbatim>\<open>BufWriter::flush_buf\<close>: what was written is removed from the buffer even when the write fails.\<close>

definition flush_buf :: "wal \<Rightarrow> disk \<Rightarrow> io_error option \<times> wal \<times> disk" where
  "flush_buf g w =
     (if w_buf g = [] then (None, g, w)
      else case sys w of
        (None, w) \<Rightarrow> (None, g\<lparr>w_buf := []\<rparr>, append_bytes (w_seg g) (w_buf g) w)
      | (Some (n, e), w) \<Rightarrow>
          (Some e, g\<lparr>w_buf := drop n (w_buf g)\<rparr>, append_bytes (w_seg g) (take n (w_buf g)) w))"

text \<open>\<^verbatim>\<open>BufWriter::write_all\<close>: bytes that fit are buffered, otherwise the buffer is flushed first, and a slice as
  large as the buffer goes straight to the file.\<close>

definition write_all :: "bytes \<Rightarrow> wal \<Rightarrow> disk \<Rightarrow> io_error option \<times> wal \<times> disk" where
  "write_all bs g w =
     (let cap = buffer_capacity g in
      if length bs < cap - length (w_buf g) then (None, g\<lparr>w_buf := w_buf g @ bs\<rparr>, w)
      else
        case (if length bs > cap - length (w_buf g) then flush_buf g w else (None, g, w)) of
          (Some e, g, w) \<Rightarrow> (Some e, g, w)
        | (None, g, w) \<Rightarrow>
            if length bs \<ge> cap then
              (case sys w of
                 (None, w) \<Rightarrow> (None, g, append_bytes (w_seg g) bs w)
               | (Some (n, e), w) \<Rightarrow> (Some e, g, append_bytes (w_seg g) (take n bs) w))
            else (None, g\<lparr>w_buf := w_buf g @ bs\<rparr>, w))"

definition sync_data :: "wal \<Rightarrow> disk \<Rightarrow> io_error option \<times> wal \<times> disk" where
  "sync_data g w =
     (case sys w of
        (None, w) \<Rightarrow> (None, g, seg_upd (w_seg g) (\<lambda>s. s\<lparr>sf_synced := length (sf_data s)\<rparr>) w)
      | (Some (_, e), w) \<Rightarrow> (Some e, g, w))"

definition sync_inner :: "wal \<Rightarrow> disk \<Rightarrow> io_error option \<times> wal \<times> disk" where
  "sync_inner g w =
     (case flush_buf g w of (Some e, g, w) \<Rightarrow> (Some e, g, w) | (None, g, w) \<Rightarrow> sync_data g w)"

definition maybe_group_commit :: "u64 \<Rightarrow> wal \<Rightarrow> disk \<Rightarrow> (bool, io_error) outcome \<times> wal \<times> disk" where
  "maybe_group_commit now g w =
     (if now \<ge> next_sync_due_ns g then
        case sync_inner g w of
          (Some e, g, w) \<Rightarrow> (Err e, g, w)
        | (None, g, w) \<Rightarrow>
            (case checked_add now group_commit_window_ns of
               None \<Rightarrow> (Panic, g, w)
             | Some due \<Rightarrow> (Ok True, g\<lparr>next_sync_due_ns := due\<rparr>, w))
      else (Ok False, g, w))"

section \<open>Appending\<close>

text \<open>The durability barrier of an append.\<close>

definition barrier :: "u64 \<Rightarrow> wal \<Rightarrow> disk \<Rightarrow> (bool, io_error) outcome \<times> wal \<times> disk" where
  "barrier now g w =
     (case w_durability g of
        SyncEach \<Rightarrow> (case sync_inner g w of (Some e, g, w) \<Rightarrow> (Err e, g, w) | (None, g, w) \<Rightarrow> (Ok True, g, w))
      | GroupCommit \<Rightarrow> maybe_group_commit now g w
      | _ \<Rightarrow> (Ok False, g, w))"

fun close_segment :: "u64 \<Rightarrow> u64 \<Rightarrow> (u64 \<times> u64) list \<Rightarrow> (u64 \<times> u64) list" where
  "close_segment seg lst [] = [(seg, lst)]"
| "close_segment seg lst ((s, l) # cs) =
     (if s = seg then (s, max l lst) # cs else (s, l) # close_segment seg lst cs)"

text \<open>Rotation: the old segment is synced and recorded as closed, the next one is created, and then the
  code locks the writer mutex again while its own guard is still alive.\<close>

definition rotate :: "u64 \<Rightarrow> wal \<Rightarrow> disk \<Rightarrow> u64 wal_run" where
  "rotate lsn g w =
     (case sync_inner g w of
        (Some e, g, w) \<Rightarrow> (Err (from_io e), poison g, w)
      | (None, g, w) \<Rightarrow>
          let g = g\<lparr>w_durable := written_lsn g,
                    closed_segments := close_segment (w_seg g) (written_lsn g) (closed_segments g)\<rparr>
          in case checked_add (w_seg g) 1 of
               None \<Rightarrow> (Panic, g, w)
             | Some new_seg \<Rightarrow>
                 (case sys w of
                    (Some (_, e), w) \<Rightarrow> (Err (from_io e), poison g, w)
                  | (None, w) \<Rightarrow>
                      (Deadlock, g\<lparr>w_buf := [], w_bytes := 0, w_seg := new_seg, locked := True\<rparr>,
                       seg_insert new_seg \<lparr>sf_data = [], sf_synced = 0, sf_linked = False\<rparr> w)))"

definition append_size_msg :: "nat \<Rightarrow> string" where
  "append_size_msg n = ''record size '' @ dec_string n @ '' exceeds max '' @ dec_string max_record"

text \<open>The writes of one append, once its sequence number is allocated.\<close>

definition append_writes :: "bytes \<Rightarrow> bytes \<Rightarrow> wal \<Rightarrow> disk \<Rightarrow> io_error option \<times> wal \<times> disk" where
  "append_writes hdr stored g w =
     (case write_all hdr g w of
        (Some e, g, w) \<Rightarrow> (Some e, g, w)
      | (None, g, w) \<Rightarrow> write_all stored g w)"

definition append_commit :: "u64 \<Rightarrow> u64 \<Rightarrow> wal \<Rightarrow> disk \<Rightarrow> u64 wal_run" where
  "append_commit now lsn g w =
     (case barrier now g w of
        (Err e, g, w) \<Rightarrow> (Err (from_io e), poison g, w)
      | (Panic, g, w) \<Rightarrow> (Panic, g, w)
      | (Deadlock, g, w) \<Rightarrow> (Deadlock, g, w)
      | (Ok b, g, w) \<Rightarrow>
          let g = (if b then g\<lparr>w_durable := written_lsn g\<rparr> else g)
          in if w_bytes g \<ge> seg_max g then rotate lsn g w else (Ok lsn, g, w))"

definition wal_append ::
  "(bytes \<Rightarrow> u32) \<Rightarrow> (bytes \<Rightarrow> bytes) \<Rightarrow> u64 \<Rightarrow> bytes \<Rightarrow> wal \<Rightarrow> disk \<Rightarrow> u64 wal_run" where
  "wal_append crc compress now payload g w =
     (if length payload > max_record then
        (Err (InvalidConfiguration (append_size_msg (length payload))), g, w)
      else
        let (stored, flags) = encode_payload compress payload (w_compression g = Lz4) 64 in
        if locked g then (Deadlock, g, w)
        else if w_state g = PoisonedState then (Err Poisoned, g, w)
        else if lsn_counter g = - 1 then
          (Err (InvalidConfiguration ''LSN space exhausted''), g, w)
        else
          let lsn = lsn_counter g;
              g = g\<lparr>lsn_counter := lsn + 1\<rparr>;
              hdr = header_encode (header_new crc lsn stored flags)
          in if w_fail_next_write g then
               (Err (from_io (OtherIo ''injected write failure'')), poison (g\<lparr>w_fail_next_write := False\<rparr>), w)
             else if w_fail_next_diskfull g then
               (Err (from_io StorageFull), poison (g\<lparr>w_fail_next_diskfull := False\<rparr>), w)
             else
               case append_writes hdr stored g w of
                 (Some e, g, w) \<Rightarrow> (Err (from_io e), poison g, w)
               | (None, g, w) \<Rightarrow>
                   append_commit now lsn
                     (g\<lparr>w_bytes := w_bytes g + header_size + length stored, written_lsn := lsn\<rparr>) w)"

section \<open>Test seams, flush and sync\<close>

definition fail_next_write :: "wal \<Rightarrow> disk \<Rightarrow> unit wal_run" where
  "fail_next_write g w = (if locked g then (Deadlock, g, w) else (Ok (), g\<lparr>w_fail_next_write := True\<rparr>, w))"

definition fail_next_diskfull :: "wal \<Rightarrow> disk \<Rightarrow> unit wal_run" where
  "fail_next_diskfull g w =
     (if locked g then (Deadlock, g, w) else (Ok (), g\<lparr>w_fail_next_diskfull := True\<rparr>, w))"

definition fail_next_dir_fsync :: "wal \<Rightarrow> disk \<Rightarrow> unit wal_run" where
  "fail_next_dir_fsync g w =
     (if locked g then (Deadlock, g, w) else (Ok (), g\<lparr>w_fail_next_dir_fsync := True\<rparr>, w))"

definition is_poisoned :: "wal \<Rightarrow> (bool, wal_error) outcome" where
  "is_poisoned g = (if locked g then Deadlock else Ok (w_state g = PoisonedState))"

definition flush :: "wal \<Rightarrow> disk \<Rightarrow> unit wal_run" where
  "flush g w =
     (if locked g then (Deadlock, g, w)
      else if w_state g = PoisonedState then (Err Poisoned, g, w)
      else case flush_buf g w of
             (Some e, g, w) \<Rightarrow> (Err (from_io e), poison g, w)
           | (None, g, w) \<Rightarrow> (Ok (), g, w))"

definition sync :: "wal \<Rightarrow> disk \<Rightarrow> unit wal_run" where
  "sync g w =
     (if locked g then (Deadlock, g, w)
      else if w_state g = PoisonedState then (Err Poisoned, g, w)
      else case sync_inner g w of
             (Some e, g, w) \<Rightarrow> (Err (from_io e), poison g, w)
           | (None, g, w) \<Rightarrow> (Ok (), g\<lparr>w_durable := written_lsn g\<rparr>, w))"

definition durable_lsn :: "wal \<Rightarrow> (u64, wal_error) outcome" where
  "durable_lsn g = (if locked g then Deadlock else Ok (w_durable g))"

definition current_lsn :: "wal \<Rightarrow> (u64, wal_error) outcome" where
  "current_lsn g = (if locked g then Deadlock else Ok (written_lsn g))"

section \<open>Checkpoints\<close>

definition manifest_text :: "u64 \<Rightarrow> string" where
  "manifest_text lsn = ''lsn='' @ dec_string (unat lsn) @ [char_of (10 :: nat)]"

fun find_lsn :: "string list \<Rightarrow> u64 option" where
  "find_lsn [] = None"
| "find_lsn (l # ls) =
     (case Option.bind (strip_prefix ''lsn='' l) (\<lambda>v. parse_u64 (trim v)) of
        None \<Rightarrow> find_lsn ls
      | Some n \<Rightarrow> Some n)"

definition parse_manifest :: "string \<Rightarrow> u64 option" where
  "parse_manifest t = find_lsn (lines t)"

text \<open>The manifest is written to a temporary file, synced, renamed over the old one and the directory is
  synced.\<close>

definition write_manifest :: "u64 \<Rightarrow> disk \<Rightarrow> unit io" where
  "write_manifest lsn w =
     try_sys w (\<lambda>w. try_sys w (\<lambda>w. try_sys w (\<lambda>w. try_sys w (\<lambda>w.
       fsync_dir (w\<lparr>manifest := Some (manifest_text lsn)\<rparr>)))))"

definition checkpoint_msg :: "u64 \<Rightarrow> u64 \<Rightarrow> string" where
  "checkpoint_msg lsn current =
     ''checkpoint '' @ dec_string (unat lsn) @ '' is beyond current LSN '' @ dec_string (unat current)"

definition checkpoint :: "u64 \<Rightarrow> wal \<Rightarrow> disk \<Rightarrow> unit wal_run" where
  "checkpoint lsn g w =
     (if locked g then (Deadlock, g, w)
      else if w_state g = PoisonedState then (Err Poisoned, g, w)
      else if lsn > written_lsn g then (Err (InvalidConfiguration (checkpoint_msg lsn (written_lsn g))), g, w)
      else if lsn > w_durable g then (Err (CheckpointNotDurable lsn (w_durable g)), g, w)
      else if lsn < w_ckpt g then (Err (CheckpointRegression (w_ckpt g) lsn), g, w)
      else case write_manifest lsn w of
             (Inl e, w) \<Rightarrow> (Err e, poison g, w)
           | (Inr _, w) \<Rightarrow> (Ok (), g\<lparr>w_ckpt := lsn\<rparr>, w))"

section \<open>Retention\<close>

definition closed_last :: "(u64 \<times> u64) list \<Rightarrow> u64 \<Rightarrow> u64 option" where
  "closed_last cs i =
     (case map snd (filter (\<lambda>(s, _). s = i) cs) of [] \<Rightarrow> None | l # ls \<Rightarrow> Some (fold max ls l))"

definition list_segs_with_size :: "disk \<Rightarrow> (u64 \<times> nat) list" where
  "list_segs_with_size w = map (\<lambda>(i, s). (i, length (sf_data s))) (segs w)"

fun retention_loop ::
  "nat \<Rightarrow> u64 \<Rightarrow> u64 \<Rightarrow> (u64 \<times> u64) list \<Rightarrow> (u64 \<times> nat) list \<Rightarrow> nat \<Rightarrow> disk \<Rightarrow> unit io" where
  "retention_loop max_bytes safe active closed [] over w = (Inr (), w)"
| "retention_loop max_bytes safe active closed ((i, sz) # rest) over w =
     (if max_bytes > 0 \<and> over = 0 then (Inr (), w)
      else if i = active then retention_loop max_bytes safe active closed rest over w
      else case closed_last closed i of
        None \<Rightarrow> retention_loop max_bytes safe active closed rest over w
      | Some last_lsn \<Rightarrow>
          if last_lsn \<ge> safe then retention_loop max_bytes safe active closed rest over w
          else try_sys w (\<lambda>w.
            retention_loop max_bytes safe active closed rest (over - sz) (seg_remove i w)))"

definition run_retention_raw :: "nat \<Rightarrow> u64 \<Rightarrow> wal \<Rightarrow> disk \<Rightarrow> unit wal_run" where
  "run_retention_raw max_bytes safe g w =
     (if locked g then (Deadlock, g, w)
      else if w_state g = PoisonedState then (Err Poisoned, g, w)
      else if safe = 0 then (Ok (), g, w)
      else
        case try_sys w (\<lambda>w.
          let sizes = list_segs_with_size w;
              total = sum_list (map snd sizes)
          in if max_bytes > 0 \<and> total \<le> max_bytes then (Inr (), w)
             else retention_loop max_bytes safe (w_seg g) (closed_segments g) sizes
                    (if max_bytes > 0 then total - max_bytes else 0) w) of
          (Inl e, w) \<Rightarrow> (Err e, g, w)
        | (Inr _, w) \<Rightarrow> (Ok (), g, w))"

definition run_retention :: "u64 \<Rightarrow> wal \<Rightarrow> disk \<Rightarrow> unit wal_run" where
  "run_retention safe g w =
     (if safe = 0 then (Ok (), g, w) else run_retention_raw (retention_max g) safe g w)"

definition truncate_before :: "u64 \<Rightarrow> wal \<Rightarrow> disk \<Rightarrow> unit wal_run" where
  "truncate_before lsn g w =
     (if locked g then (Deadlock, g, w)
      else if w_state g = PoisonedState then (Err Poisoned, g, w)
      else if lsn > w_ckpt g then (Err (CheckpointRequired lsn (w_ckpt g)), g, w)
      else run_retention_raw 0 lsn g w)"

section \<open>Opening\<close>

definition check_config :: "config \<Rightarrow> wal_error option" where
  "check_config c =
     (if seg_max_bytes c < header_size then
        Some (InvalidConfiguration ''seg_max_bytes must be at least one record header'')
      else if c_buffer_capacity c = 0 then
        Some (InvalidConfiguration ''buffer_capacity must be greater than zero'')
      else if retention_max_bytes c > 0 \<and> retention_max_bytes c < header_size then
        Some (InvalidConfiguration ''retention_max_bytes is too small'')
      else None)"

definition read_manifest :: "disk \<Rightarrow> u64 io" where
  "read_manifest w =
     (case manifest w of
        None \<Rightarrow> (Inr 0, w)
      | Some t \<Rightarrow> try_sys w (\<lambda>w.
          case parse_manifest t of
            None \<Rightarrow> (Inl (Manifest ''missing lsn= field''), w)
          | Some n \<Rightarrow> (Inr n, w)))"

definition manifest_msg :: "u64 \<Rightarrow> u64 \<Rightarrow> string" where
  "manifest_msg ckpt lst =
     ''checkpoint LSN '' @ dec_string (unat ckpt) @ '' exceeds recovered WAL LSN '' @ dec_string (unat lst)"

definition or_zero :: "u64 option \<Rightarrow> u64" where
  "or_zero x = (case x of None \<Rightarrow> 0 | Some n \<Rightarrow> n)"

definition open_segment :: "u64 \<Rightarrow> disk \<Rightarrow> unit io" where
  "open_segment i w =
     try_sys w (\<lambda>w.
       let w = (if map_of (segs w) i = None
                then seg_insert i \<lparr>sf_data = [], sf_synced = 0, sf_linked = False\<rparr> w else w)
       in try_sys w (\<lambda>w. (Inr (), w)))"

definition start_lsn :: "u64 option \<Rightarrow> u64" where
  "start_lsn lst =
     (case lst of None \<Rightarrow> 1
      | Some l \<Rightarrow> (case lsn_checked_next l of None \<Rightarrow> - 1 | Some n \<Rightarrow> n))"

definition open_wal :: "config \<Rightarrow> recovery \<Rightarrow> u64 \<Rightarrow> wal" where
  "open_wal c rc ckpt =
     \<lparr>w_buf = [], w_bytes = rec_offset rc, w_seg = rec_segment rc, next_sync_due_ns = 0,
      written_lsn = or_zero (rr_last (rec_report rc)), w_durable = or_zero (rr_last (rec_report rc)),
      closed_segments =
        List.map_filter (\<lambda>(s, l). map_option (Pair s) l) (rr_reports (rec_report rc)),
      w_state = Open, w_fail_next_write = False, w_fail_next_diskfull = False,
      w_fail_next_dir_fsync = False, w_compression = c_compression c, w_durability = c_durability c,
      seg_max = seg_max_bytes c, retention_max = retention_max_bytes c,
      lsn_counter = start_lsn (rr_last (rec_report rc)), w_ckpt = ckpt, w_recovery = rc,
      buffer_capacity = c_buffer_capacity c, locked = False\<rparr>"

definition open_recovered :: "config \<Rightarrow> recovery \<Rightarrow> u64 \<Rightarrow> disk \<Rightarrow> wal io" where
  "open_recovered c rc ckpt w =
     (let last = or_zero (rr_last (rec_report rc)) in
      if ckpt > last then (Inl (Manifest (manifest_msg ckpt last)), w)
      else bind_io (open_segment (rec_segment rc) w) (\<lambda>_ w.
        let g = open_wal c rc ckpt in
        if retention_max g > 0 then
          (case run_retention ckpt g w of (Err e, _, w) \<Rightarrow> (Inl e, w) | (_, g, w) \<Rightarrow> (Inr g, w))
        else (Inr g, w)))"

definition open_log :: "(bytes \<Rightarrow> u32) \<Rightarrow> (bytes \<Rightarrow> string + bytes) \<Rightarrow> config \<Rightarrow> disk \<Rightarrow> wal io" where
  "open_log crc dz c w =
     (case check_config c of
        Some e \<Rightarrow> (Inl e, w)
      | None \<Rightarrow>
          try_sys w (\<lambda>w.
            bind_io (fsync_dir w) (\<lambda>_ w.
              bind_io (recover crc dz w) (\<lambda>rc w.
                bind_io (read_manifest w) (\<lambda>ckpt w.
                  open_recovered c rc ckpt w)))))"

lemma parse_manifest_text [simp]: "parse_manifest (manifest_text n) = Some n"
proof -
  let ?l = "''lsn='' @ dec_string (unat n)"
  have nl: "char_of (10 :: nat) \<notin> set ?l"
  proof -
    have "char_of (10 :: nat) \<notin> set (dec_string (unat n))" using dec_string_digits digit_char_not by metis
    moreover have "char_of (10 :: nat) \<notin> set ''lsn=''" by (simp add: char_of_def)
    ultimately show ?thesis by simp
  qed
  have "last ?l \<noteq> char_of (13 :: nat)"
  proof -
    have "last ?l \<in> set (dec_string (unat n))" by simp
    then show ?thesis using dec_string_digits digit_char_not by metis
  qed
  then have "drop_cr ?l = ?l" by (simp add: drop_cr_def)
  then have "lines (manifest_text n) = [?l]"
    using lines_acc_no_nl [OF nl, of "[]" "[]"] by (simp add: lines_def manifest_text_def)
  then have "parse_manifest (manifest_text n) = find_lsn [?l]" by (simp only: parse_manifest_def)
  also have "strip_prefix ''lsn='' ?l = Some (dec_string (unat n))" by (rule strip_prefix_append)
  then have "find_lsn [?l] = Some n" by (simp add: parse_u64_dec)
  finally show ?thesis .
qed

end
