(* ===== verification/Ramwal_Inv.thy ===== *)
theory Ramwal_Inv
  imports Ramwal_Wal
begin

text \<open>
  What holds of every log directory and every open log, whatever the failures and crashes: the
  representation invariant of \<^verbatim>\<open>crates/ramwal\<close>.

  \<open>up_inv\<close> describes an open log and its directory, \<open>down_inv\<close> a directory with no open log. A machine
  crash (\<open>crash\<close>) keeps of each file any prefix that contains the synced bytes, and either keeps the
  directory as it is or returns it to its last synced state; directory updates reach the disk in order and a
  deletion that was reported is final.
\<close>

section \<open>Sequence numbers\<close>

definition high :: "u64 list \<Rightarrow> u64" where
  "high ls = or_zero (last_of None ls)"

lemma high_simps [simp]: "high [] = 0" "high (ls @ [l]) = l"
  by (simp_all add: high_def or_zero_def)

lemma high_append: "high (ls @ ls') = (if ls' = [] then high ls else high ls')"
  by (simp add: high_def or_zero_def last_of_def)

lemma high_in: "ls \<noteq> [] \<Longrightarrow> high ls \<in> set ls"
  by (simp add: high_def or_zero_def last_of_def)

lemma high_last: "ls \<noteq> [] \<Longrightarrow> high ls = last ls"
  by (simp add: high_def or_zero_def last_of_def)

lemma asc_high: "asc None ls \<Longrightarrow> l \<in> set ls \<Longrightarrow> l \<le> high ls"
proof (induction ls rule: rev_induct)
  case (snoc a ls)
  show ?case
  proof (cases "l = a")
    case False
    with snoc have "l \<le> high ls" "ls \<noteq> []" by (auto simp: asc_append)
    moreover have "above (last_of None ls) a" using snoc.prems by (simp add: asc_append)
    then have "high ls \<le> a" using \<open>ls \<noteq> []\<close> by (auto simp: above_def high_def or_zero_def last_of_def)
    ultimately show ?thesis by simp
  qed simp
qed simp

lemma high_prefix: "asc None (ls @ ls') \<Longrightarrow> high ls \<le> high (ls @ ls')"
proof (cases "ls = []")
  case False
  then have "high ls \<in> set (ls @ ls')" using high_in by auto
  moreover assume "asc None (ls @ ls')"
  ultimately show ?thesis by (intro asc_high)
qed simp

lemma asc_above_high: "asc None (ls @ ls') \<Longrightarrow> l \<in> set ls' \<Longrightarrow> ls \<noteq> [] \<Longrightarrow> high ls < l"
  using asc_above [of "last_of None ls" ls' l]
  by (auto simp: asc_append above_def high_def or_zero_def last_of_def)

lemma asc_filter:
  "asc None (map fst (concat (map snd xs))) \<Longrightarrow> asc None (map fst (concat (map snd (filter P xs))))"
proof (induction xs rule: rev_induct)
  case (snoc x xs)
  then have ih: "asc None (map fst (concat (map snd (filter P xs))))"
    by (simp add: asc_append)
  have "asc (last_of None (map fst (concat (map snd (filter P xs))))) (map fst (snd x))"
  proof -
    let ?f = "map fst (concat (map snd (filter P xs)))" and ?a = "map fst (concat (map snd xs))"
    have a: "asc (last_of None ?a) (map fst (snd x))" "asc None ?a" using snoc.prems by (simp_all add: asc_append)
    show ?thesis
    proof (cases "?f = []")
      case True
      then have "last_of None ?f = None" by (simp only: last_of_simps)
      then show ?thesis using asc_None [OF a(1)] by (simp only:)
    next
      case False
      have "last ?f \<in> set ?f" using False last_in_set by blast
      then have m: "last ?f \<in> set ?a" by auto
      then have "?a \<noteq> []" by (metis empty_iff list.set(1))
      then have le: "last ?f \<le> last ?a" using asc_high [OF a(2) m] high_last by metis
      show ?thesis
      proof (cases "snd x")
        case (Cons it its)
        have "last_of None ?a = Some (last ?a)" using \<open>?a \<noteq> []\<close> by (simp only: last_of_def if_False)
        then have "last ?a < fst it" "asc (Some (fst it)) (map fst its)" using a(1) Cons by (simp_all add: above_def)
        moreover have "last_of None ?f = Some (last ?f)" using False by (simp only: last_of_def if_False)
        ultimately show ?thesis using le Cons by (simp add: above_def)
      qed simp
    qed
  qed
  then show ?case using ih snoc.prems by (cases "P x") (simp_all add: asc_append)
qed simp

lemma list_all_filter:
  "list_all P (concat (map snd xs)) \<Longrightarrow> list_all P (concat (map snd (filter Q xs)))"
  by (induction xs) auto

lemma log_holds_snoc:
  "log_holds crc (cs @ [c]) (itss @ [its]) n \<longleftrightarrow>
   map snd cs = map (encs crc) itss \<and> n \<le> length (encs crc its) \<and> snd c = take n (encs crc its)"
proof (induction cs arbitrary: itss)
  case Nil
  then show ?case by (cases itss) auto
next
  case (Cons a cs)
  show ?case
  proof (cases itss)
    case Nil
    then show ?thesis by (cases cs) auto
  next
    case (Cons b r)
    then show ?thesis using Cons.IH [of r] by auto
  qed
qed

lemma log_holds_full:
  "map snd cs = map (encs crc) itss \<Longrightarrow> log_holds crc cs itss (length (encs crc (last itss)))"
proof (cases cs rule: rev_cases)
  case (snoc ds c)
  assume m: "map snd cs = map (encs crc) itss"
  then obtain rs its where "itss = rs @ [its]" using snoc by (cases itss rule: rev_cases) auto
  then show ?thesis using m snoc by (simp add: log_holds_snoc)
qed simp

lemma recov_snoc: "recov crc (itss @ [its]) n = itss @ [fits crc n its]"
  by (simp add: recov_def)

section \<open>Directories without an open log\<close>

definition m_ok :: "string option \<Rightarrow> bool" where
  "m_ok m \<longleftrightarrow> m = None \<or> (\<exists>n. m = Some (manifest_text n))"

definition mval :: "string option \<Rightarrow> u64" where
  "mval m = (case m of None \<Rightarrow> 0 | Some t \<Rightarrow> or_zero (parse_manifest t))"

lemma mval_simps [simp]: "mval None = 0" "mval (Some (manifest_text n)) = n" "m_ok None" "m_ok (Some (manifest_text n))"
  by (auto simp: mval_def m_ok_def or_zero_def)

definition log_of :: "(bytes \<Rightarrow> u32) \<Rightarrow> (bytes \<Rightarrow> string + bytes) \<Rightarrow> disk \<Rightarrow> wal_item list list \<Rightarrow> nat \<Rightarrow> bool" where
  "log_of crc dz w itss n \<longleftrightarrow>
     log_holds crc (contents w) itss n \<and> list_all (item_ok dz) (concat itss) \<and> asc None (map fst (concat itss))"

definition links_ok :: "disk \<Rightarrow> bool" where
  "links_ok w \<longleftrightarrow> (\<forall>x \<in> set (butlast (segs w)). sf_linked (snd x)) \<and>
     (segs w \<noteq> [] \<longrightarrow> sf_linked (snd (last (segs w))) \<or> sf_data (snd (last (segs w))) = [])"

definition down_inv :: "(bytes \<Rightarrow> u32) \<Rightarrow> (bytes \<Rightarrow> string + bytes) \<Rightarrow> disk \<Rightarrow> bool" where
  "down_inv crc dz w \<longleftrightarrow>
     sorted_wrt (<) (map fst (segs w)) \<and> all_synced w \<and> links_ok w \<and>
     m_ok (manifest w) \<and> manifest_dur w = manifest w \<and>
     (\<exists>itss n. log_of crc dz w itss n \<and> mval (manifest w) \<le> high (map fst (concat (recov crc itss n))))"

section \<open>Open logs\<close>

type_synonym old_seg = "(u64 \<times> seg_file) \<times> wal_item list"

text \<open>The directory of an open log: \<open>xs\<close> are the older segments with their items, \<open>s\<close> is the active file
  and \<open>its\<close> its items; its bytes with those still buffered are the first \<open>n\<close> bytes of their encoding,
  and the first \<open>j\<close> items are synced.\<close>

definition disk_rep ::
  "(bytes \<Rightarrow> u32) \<Rightarrow> (bytes \<Rightarrow> string + bytes) \<Rightarrow> disk \<Rightarrow> u64 \<Rightarrow> bytes \<Rightarrow> old_seg list \<Rightarrow> seg_file \<Rightarrow>
   wal_item list \<Rightarrow> nat \<Rightarrow> nat \<Rightarrow> bool" where
  "disk_rep crc dz w i buf xs s its n j \<longleftrightarrow>
     segs w = map fst xs @ [(i, s)] \<and> sorted_wrt (<) (map fst (segs w)) \<and>
     (\<forall>((_, f), fits) \<in> set xs. sf_data f = encs crc fits \<and> sf_synced f = length (sf_data f)) \<and>
     sf_data s @ buf = take n (encs crc its) \<and> n \<le> length (encs crc its) \<and>
     list_all (item_ok dz) (concat (map snd xs) @ its) \<and>
     asc None (map fst (concat (map snd xs) @ its)) \<and>
     sf_synced s \<le> length (sf_data s) \<and> j \<le> length its \<and> length (encs crc (take j its)) \<le> sf_synced s"

text \<open>A checkpoint that survives the loss of unsynced directory entries.\<close>

definition linked_above :: "u64 \<Rightarrow> old_seg list \<Rightarrow> seg_file \<Rightarrow> wal_item list \<Rightarrow> bool" where
  "linked_above m xs s its \<longleftrightarrow> m = 0 \<or>
     (\<exists>((_, f), fits) \<in> set xs. sf_linked f \<and> (\<exists>it \<in> set fits. m \<le> fst it)) \<or>
     (sf_linked s \<and> (\<exists>it \<in> set its. m \<le> fst it))"

definition closed_ok :: "(u64 \<times> u64) list \<Rightarrow> old_seg list \<Rightarrow> bool" where
  "closed_ok closed xs \<longleftrightarrow>
     (\<forall>((i, _), fits) \<in> set xs. \<forall>l. closed_last closed i = Some l \<longrightarrow> (\<forall>it \<in> set fits. fst it \<le> l))"

definition mem_rep :: "wal \<Rightarrow> disk \<Rightarrow> old_seg list \<Rightarrow> seg_file \<Rightarrow> wal_item list \<Rightarrow> nat \<Rightarrow> bool" where
  "mem_rep g w xs s its j \<longleftrightarrow>
     w_durable g = high (map fst (concat (map snd xs) @ take j its)) \<and>
     (lsn_counter g = - 1 \<or> (\<forall>it \<in> set (concat (map snd xs) @ its). fst it < lsn_counter g)) \<and>
     m_ok (manifest w) \<and> m_ok (manifest_dur w) \<and>
     mval (manifest w) \<le> w_durable g \<and> w_ckpt g \<le> mval (manifest w) \<and>
     linked_above (mval (manifest_dur w)) xs s (take j its) \<and>
     closed_ok (closed_segments g) xs"

definition open_rep ::
  "(bytes \<Rightarrow> u32) \<Rightarrow> wal \<Rightarrow> disk \<Rightarrow> old_seg list \<Rightarrow> wal_item list \<Rightarrow> nat \<Rightarrow> bool" where
  "open_rep crc g w xs its n \<longleftrightarrow>
     n = length (encs crc its) \<and> written_lsn g = high (map fst (concat (map snd xs) @ its)) \<and>
     manifest_dur w = manifest w \<and> mval (manifest w) = w_ckpt g"

definition up_rep ::
  "(bytes \<Rightarrow> u32) \<Rightarrow> (bytes \<Rightarrow> string + bytes) \<Rightarrow> wal \<Rightarrow> disk \<Rightarrow> old_seg list \<Rightarrow> seg_file \<Rightarrow> wal_item list \<Rightarrow>
   nat \<Rightarrow> nat \<Rightarrow> bool" where
  "up_rep crc dz g w xs s its n j \<longleftrightarrow>
     disk_rep crc dz w (w_seg g) (w_buf g) xs s its n j \<and> mem_rep g w xs s its j \<and>
     (w_state g = Open \<longrightarrow> open_rep crc g w xs its n)"

definition up_inv :: "(bytes \<Rightarrow> u32) \<Rightarrow> (bytes \<Rightarrow> string + bytes) \<Rightarrow> wal \<Rightarrow> disk \<Rightarrow> bool" where
  "up_inv crc dz g w \<longleftrightarrow> (\<exists>xs s its n j. up_rep crc dz g w xs s its n j)"

section \<open>Crashes\<close>

definition cut_ok :: "u64 \<times> seg_file \<Rightarrow> u64 \<times> seg_file \<Rightarrow> bool" where
  "cut_ok x y \<longleftrightarrow> (\<exists>n \<ge> sf_synced (snd x).
     y = (fst x, \<lparr>sf_data = take n (sf_data (snd x)), sf_synced = length (take n (sf_data (snd x))), sf_linked = True\<rparr>))"

inductive crash :: "disk \<Rightarrow> disk \<Rightarrow> bool" where
  keep: "list_all2 cut_ok (segs w) ss \<Longrightarrow> crash w (w\<lparr>segs := ss, manifest_dur := manifest w\<rparr>)"
| revert: "list_all2 cut_ok (filter (\<lambda>x. sf_linked (snd x)) (segs w)) ss \<Longrightarrow>
     crash w (w\<lparr>segs := ss, manifest := manifest_dur w\<rparr>)"

lemma cut_full: "cut_ok x y \<Longrightarrow> sf_synced (snd x) = length (sf_data (snd x)) \<Longrightarrow>
    fst y = fst x \<and> sf_data (snd y) = sf_data (snd x)"
  by (auto simp: cut_ok_def)

lemma cut_all2:
  assumes "list_all2 cut_ok xs ys"
  shows "map fst ys = map fst xs" "\<forall>y \<in> set ys. sf_linked (snd y) \<and> sf_synced (snd y) = length (sf_data (snd y))"
  using assms by (induction rule: list_all2_induct) (auto simp: cut_ok_def)

lemma cut_all2_full:
  assumes "list_all2 cut_ok xs ys" "\<forall>x \<in> set xs. sf_synced (snd x) = length (sf_data (snd x))"
  shows "map (\<lambda>y. sf_data (snd y)) ys = map (\<lambda>x. sf_data (snd x)) xs"
  using assms by (induction rule: list_all2_induct) (auto dest: cut_full)

lemma contents_snd: "map snd (contents w) = map (\<lambda>x. sf_data (snd x)) (segs w)"
  by (simp add: contents_def comp_def split_def)

definition olds_ok :: "(bytes \<Rightarrow> u32) \<Rightarrow> old_seg list \<Rightarrow> bool" where
  "olds_ok crc xs \<longleftrightarrow> (\<forall>((_, f), fits) \<in> set xs. sf_data f = encs crc fits \<and> sf_synced f = length (sf_data f))"

lemma olds_data: "olds_ok crc xs \<Longrightarrow> map (\<lambda>x. sf_data (snd x)) (map fst xs) = map (encs crc) (map snd xs)"
  by (auto simp: olds_ok_def)

lemma olds_synced: "olds_ok crc xs \<Longrightarrow> \<forall>x \<in> set (map fst xs). sf_synced (snd x) = length (sf_data (snd x))"
  by (auto simp: olds_ok_def)

lemma cut_log_olds:
  assumes "olds_ok crc xs" "list_all2 cut_ok (map fst xs) (segs w')"
    "list_all (item_ok dz) (concat (map snd xs))" "asc None (map fst (concat (map snd xs)))"
  shows "\<exists>n. log_of crc dz w' (map snd xs) n \<and> recov crc (map snd xs) n = map snd xs"
proof -
  let ?n = "length (encs crc (last (map snd xs)))"
  have "map snd (contents w') = map (encs crc) (map snd xs)"
    using cut_all2_full [OF assms(2) olds_synced [OF assms(1)]] olds_data [OF assms(1)] by (simp add: contents_snd)
  then have "log_holds crc (contents w') (map snd xs) ?n" by (rule log_holds_full)
  moreover have "recov crc (map snd xs) ?n = map snd xs" by (auto simp: recov_def fits_all)
  ultimately show ?thesis using assms(3,4) unfolding log_of_def by blast
qed

lemma take_app_eq: "a @ b = take n c \<Longrightarrow> n \<le> length c \<Longrightarrow> a = take (length a) c \<and> length a \<le> n"
proof -
  assume e: "a @ b = take n c" and n: "n \<le> length c"
  have "length a + length b = n" using arg_cong [OF e, of length] n by simp
  then have la: "length a \<le> n" by simp
  have "a = take (length a) (a @ b)" by simp
  also have "\<dots> = take (length a) c" unfolding e using la by (simp add: min_def)
  finally show ?thesis using la by simp
qed

lemma fits_take_prefix:
  assumes "length (encs crc (take j its)) \<le> m"
  shows "\<exists>r. fits crc m its = take j its @ r"
  using fits_append_prefix [OF assms, of "drop j its"] by auto

lemma cut_log_active:
  assumes o: "olds_ok crc xs" and c: "list_all2 cut_ok (map fst xs @ [(i, s)]) (segs w')"
    and ok: "list_all (item_ok dz) (concat (map snd xs) @ its)"
    and asc: "asc None (map fst (concat (map snd xs) @ its))"
    and d: "sf_data s @ buf = take n (encs crc its)" "n \<le> length (encs crc its)"
    and j: "length (encs crc (take j its)) \<le> sf_synced s" "sf_synced s \<le> length (sf_data s)"
  shows "\<exists>m r. log_of crc dz w' (map snd xs @ [its]) m \<and> recov crc (map snd xs @ [its]) m = map snd xs @ [take j its @ r] \<and>
    m \<le> n \<and> (\<exists>r'. fits crc n its = (take j its @ r) @ r')"
proof -
  obtain ys y where s: "segs w' = ys @ [y]" "list_all2 cut_ok (map fst xs) ys" "cut_ok (i, s) y"
    using c by (auto simp: list_all2_append1 list_all2_Cons1)
  then obtain k where k: "sf_synced s \<le> k" "sf_data (snd y) = take k (sf_data s)" by (auto simp: cut_ok_def)
  let ?m = "min k (length (sf_data s))"
  have ds: "sf_data s = take (length (sf_data s)) (encs crc its)" "length (sf_data s) \<le> n"
    using take_app_eq [OF d] by blast+
  then have yd: "sf_data (snd y) = take ?m (encs crc its)" using k(2) by (metis take_take)
  have m: "sf_synced s \<le> ?m" "?m \<le> length (encs crc its)" "?m \<le> n" using k j ds(2) d(2) by auto
  have cs: "contents w' = map (\<lambda>x. (fst x, sf_data (snd x))) ys @ [(fst y, sf_data (snd y))]"
    by (simp add: contents_def s(1) split_def)
  have "map (\<lambda>x. sf_data (snd x)) ys = map (encs crc) (map snd xs)"
    using cut_all2_full [OF s(2) olds_synced [OF o]] olds_data [OF o] by simp
  then have "log_holds crc (contents w') (map snd xs @ [its]) ?m"
    unfolding cs log_holds_snoc using yd m by (simp add: comp_def)
  then have l: "log_of crc dz w' (map snd xs @ [its]) ?m" using ok asc by (simp add: log_of_def)
  obtain r where r: "fits crc ?m its = take j its @ r"
    using fits_take_prefix [of crc j its ?m] j(1) m(1) by auto
  obtain r' where "fits crc n its = fits crc ?m its @ r'"
  proof -
    obtain q where q: "its = fits crc ?m its @ q" using fits_prefix by blast
    have "length (encs crc (fits crc ?m its)) \<le> n" using fits_length [of crc ?m its] m(3) by linarith
    from fits_append_prefix [OF this, of q] q that show ?thesis by metis
  qed
  then show ?thesis using l r m(3) recov_snoc [of crc "map snd xs" its ?m] by auto
qed

lemma disk_repD:
  assumes "disk_rep crc dz w i buf xs s its n j"
  shows "segs w = map fst xs @ [(i, s)]" "sorted_wrt (<) (map fst (segs w))" "olds_ok crc xs"
    "sf_data s @ buf = take n (encs crc its)" "n \<le> length (encs crc its)"
    "list_all (item_ok dz) (concat (map snd xs) @ its)" "asc None (map fst (concat (map snd xs) @ its))"
    "sf_synced s \<le> length (sf_data s)" "j \<le> length its" "length (encs crc (take j its)) \<le> sf_synced s"
  using assms unfolding disk_rep_def olds_ok_def by blast+

lemma disk_repI:
  assumes "segs w = map fst xs @ [(i, s)]" "sorted_wrt (<) (map fst (segs w))" "olds_ok crc xs"
    "sf_data s @ buf = take n (encs crc its)" "n \<le> length (encs crc its)"
    "list_all (item_ok dz) (concat (map snd xs) @ its)" "asc None (map fst (concat (map snd xs) @ its))"
    "sf_synced s \<le> length (sf_data s)" "j \<le> length its" "length (encs crc (take j its)) \<le> sf_synced s"
  shows "disk_rep crc dz w i buf xs s its n j"
  using assms unfolding disk_rep_def olds_ok_def by blast

lemma crashed_down:
  assumes "sorted_wrt (<) (map fst ss)" "list_all2 cut_ok rs ss" "segs w' = ss" "m_ok (manifest w')"
    "manifest_dur w' = manifest w'"
    "\<exists>itss n. log_of crc dz w' itss n \<and> mval (manifest w') \<le> high (map fst (concat (recov crc itss n)))"
  shows "down_inv crc dz w'"
proof -
  note c = cut_all2 [OF assms(2)]
  have "all_synced w'" using c(2) assms(3) by (auto simp: all_synced_def)
  moreover have "links_ok w'"
    using c(2) assms(3) by (auto simp: links_ok_def dest: in_set_butlastD)
  ultimately show ?thesis using assms unfolding down_inv_def by blast
qed

lemma high_mono_app:
  assumes "asc None (map fst (a @ b @ c))"
  shows "high (map fst (a @ b)) \<le> high (map fst (a @ b @ c))"
  using high_prefix [of "map fst (a @ b)" "map fst c"] assms by simp

lemma asc_recov: "log_of crc dz w itss n \<Longrightarrow> asc None (map fst (concat (recov crc itss n)))"
proof (cases itss rule: rev_cases)
  case (snoc a its)
  assume "log_of crc dz w itss n"
  then have "asc None (map fst (concat a) @ map fst its)" by (simp add: log_of_def snoc)
  then have "asc None (map fst (concat a) @ map fst (fits crc n its))" by (rule asc_fits)
  then show ?thesis by (simp add: snoc recov_snoc)
qed (simp add: recov_def)

lemma crash_up:
  assumes up: "up_inv crc dz g w" and cr: "crash w w'"
  shows "down_inv crc dz w'"
proof -
  obtain xs s its n j where r: "disk_rep crc dz w (w_seg g) (w_buf g) xs s its n j" and m: "mem_rep g w xs s its j"
    using up unfolding up_inv_def up_rep_def by blast
  note d = disk_repD [OF r]
  from cr show ?thesis
  proof cases
    case (keep ss)
    have c: "list_all2 cut_ok (map fst xs @ [(w_seg g, s)]) (segs w')" using keep d(1) by simp
    from cut_log_active [OF d(3) c d(6,7,4,5,10,8)] obtain k q where
      k: "log_of crc dz w' (map snd xs @ [its]) k"
        "recov crc (map snd xs @ [its]) k = map snd xs @ [take j its @ q]" by blast
    have "high (map fst (concat (map snd xs) @ take j its)) \<le> high (map fst (concat (map snd xs) @ take j its @ q))"
      by (rule high_mono_app) (use asc_recov [OF k(1)] k(2) in simp)
    moreover have "mval (manifest w) \<le> high (map fst (concat (map snd xs) @ take j its))"
      using m unfolding mem_rep_def by metis
    ultimately have "mval (manifest w) \<le> high (map fst (concat (map snd xs) @ take j its @ q))" by order
    then have "mval (manifest w') \<le> high (map fst (concat (recov crc (map snd xs @ [its]) k)))"
      using keep k(2) by simp
    moreover have "sorted_wrt (<) (map fst ss)" using cut_all2(1) [OF keep(2)] d(2) by simp
    ultimately show ?thesis
      using k(1) keep m by (intro crashed_down [OF _ keep(2)]) (auto simp: mem_rep_def)
  next
    case (revert ss)
    let ?P = "\<lambda>x. sf_linked (snd (fst x))"
    let ?xs = "filter ?P xs"
    have o: "olds_ok crc ?xs" using d(3) by (auto simp: olds_ok_def)
    have fx: "map fst ?xs = filter (\<lambda>x. sf_linked (snd x)) (map fst xs)" by (simp add: filter_map comp_def)
    have fl: "filter (\<lambda>x. sf_linked (snd x)) (segs w) = map fst ?xs @ (if sf_linked s then [(w_seg g, s)] else [])"
      using d(1) fx by simp
    have so: "sorted_wrt (<) (map fst ss)"
      using cut_all2(1) [OF revert(2)] d(2) by (simp add: sorted_wrt_filter sorted_wrt_map)
    have okx: "list_all (item_ok dz) (concat (map snd ?xs))" using d(6) by (intro list_all_filter) simp
    have ax: "asc None (map fst (concat (map snd ?xs)))" using d(7) by (intro asc_filter) (simp add: asc_append)
    have la: "linked_above (mval (manifest w')) xs s (take j its)" "m_ok (manifest w')"
      using m revert by (simp_all add: mem_rep_def)
    have "\<exists>itss n. log_of crc dz w' itss n \<and> mval (manifest w') \<le> high (map fst (concat (recov crc itss n)))"
    proof (cases "sf_linked s")
      case True
      have c: "list_all2 cut_ok (map fst ?xs @ [(w_seg g, s)]) (segs w')" using revert fl True by simp
      have a': "asc None (map fst (concat (map snd ?xs) @ its))"
        using asc_filter [of "xs @ [((w_seg g, s), its)]" ?P] d(7) True by simp
      have o': "list_all (item_ok dz) (concat (map snd ?xs) @ its)" using okx d(6) by simp
      from cut_log_active [OF o c o' a' d(4,5,10,8)] obtain k q where
        k: "log_of crc dz w' (map snd ?xs @ [its]) k"
          "recov crc (map snd ?xs @ [its]) k = map snd ?xs @ [take j its @ q]" by blast
      have ar: "asc None (map fst (concat (recov crc (map snd ?xs @ [its]) k)))" using asc_recov [OF k(1)] .
      have "mval (manifest w') \<le> high (map fst (concat (recov crc (map snd ?xs @ [its]) k)))"
      proof (cases "mval (manifest w') = 0")
        case False
        then obtain it where it: "mval (manifest w') \<le> fst it" "it \<in> set (concat (map snd ?xs) @ take j its)"
          using la(1) True unfolding linked_above_def by fastforce
        have "it \<in> set (concat (recov crc (map snd ?xs @ [its]) k))"
          unfolding k(2) using it(2) by (simp only: concat_append concat.simps set_append Un_iff) blast
        then have "fst it \<in> set (map fst (concat (recov crc (map snd ?xs @ [its]) k)))"
          unfolding set_map by (rule imageI)
        from asc_high [OF ar this] it(1) show ?thesis by order
      qed simp
      with k(1) show ?thesis by blast
    next
      case False
      have c: "list_all2 cut_ok (map fst ?xs) (segs w')" using revert fl False by simp
      from cut_log_olds [OF o c okx ax] obtain k where
        k: "log_of crc dz w' (map snd ?xs) k" "recov crc (map snd ?xs) k = map snd ?xs" by blast
      have "mval (manifest w') \<le> high (map fst (concat (map snd ?xs)))"
      proof (cases "mval (manifest w') = 0")
        case nz: False
        then obtain it where it: "mval (manifest w') \<le> fst it" "it \<in> set (concat (map snd ?xs))"
          using la(1) False unfolding linked_above_def by fastforce
        then have "fst it \<in> set (map fst (concat (map snd ?xs)))" unfolding set_map by (intro imageI)
        from asc_high [OF ax this] it(1) show ?thesis by order
      qed simp
      with k show ?thesis by metis
    qed
    then show ?thesis
      using so la(2) revert by (intro crashed_down [OF _ revert(2)]) auto
  qed
qed

lemma down_contents:
  assumes "all_synced w" "list_all2 cut_ok rs (segs w')" "set rs \<subseteq> set (segs w)"
  shows "contents w' = map (\<lambda>(i, s). (i, sf_data s)) rs"
proof -
  have sy: "\<forall>x \<in> set rs. sf_synced (snd x) = length (sf_data (snd x))"
    using assms(1,3) by (fastforce simp: all_synced_def)
  have "contents w' = zip (map fst (segs w')) (map (\<lambda>x. sf_data (snd x)) (segs w'))"
    by (simp add: contents_def zip_map_map zip_same_conv_map split_def comp_def)
  also have "\<dots> = zip (map fst rs) (map (\<lambda>x. sf_data (snd x)) rs)"
    using cut_all2(1) [OF assms(2)] cut_all2_full [OF assms(2) sy] by simp
  also have "\<dots> = map (\<lambda>(i, s). (i, sf_data s)) rs"
    by (simp add: zip_map_map zip_same_conv_map split_def comp_def)
  finally show ?thesis .
qed

lemma fits_zero [simp]: "fits crc 0 its = []"
  by (cases its) auto

lemma log_holds_length: "log_holds crc cs itss n \<Longrightarrow> length itss = length cs"
  by (induction cs arbitrary: itss) (auto split: list.splits if_splits)

lemma drop_empty_last:
  assumes l: "log_of crc dz w itss n" and ne: "segs w \<noteq> []" and e: "sf_data (snd (last (segs w))) = []"
    and w': "contents w' = butlast (contents w)"
  shows "\<exists>itss' n'. log_of crc dz w' itss' n' \<and> concat (recov crc itss' n') = concat (recov crc itss n)"
proof -
  have cne: "contents w \<noteq> []" and ce: "snd (last (contents w)) = []"
    using ne e by (auto simp: contents_def last_map split_def)
  then obtain ys y where cs: "contents w = ys @ [y]" by (metis rev_exhaust)
  have "length itss = Suc (length ys)"
    using l log_holds_length cs by (fastforce simp: log_of_def)
  then obtain a its where it: "itss = a @ [its]" by (metis length_0_conv nat.distinct(1) rev_exhaust)
  have h: "map snd ys = map (encs crc) a" "n \<le> length (encs crc its)" "snd y = take n (encs crc its)"
    using l by (simp_all add: log_of_def cs it log_holds_snoc)
  have "n = 0" using h(2,3) ce cs by auto
  then have r: "concat (recov crc itss n) = concat a" by (simp add: it recov_snoc)
  let ?n = "length (encs crc (last a))"
  have "log_holds crc (contents w') a ?n" using w' cs h(1) by (intro log_holds_full) simp
  moreover have "recov crc a ?n = a" by (auto simp: recov_def fits_all)
  ultimately show ?thesis
    using l r by (intro exI [of _ a] exI [of _ ?n]) (simp add: log_of_def it asc_append)
qed

lemma crash_down:
  assumes dn: "down_inv crc dz w" and cr: "crash w w'"
  shows "down_inv crc dz w'"
proof -
  from dn obtain itss n where so: "sorted_wrt (<) (map fst (segs w))" and sy: "all_synced w" and ln: "links_ok w"
    and m: "m_ok (manifest w)" "manifest_dur w = manifest w"
    and l: "log_of crc dz w itss n" "mval (manifest w) \<le> high (map fst (concat (recov crc itss n)))"
    unfolding down_inv_def by blast
  from cr show ?thesis
  proof cases
    case (keep ss)
    have "contents w' = contents w"
      using down_contents [OF sy, of "segs w" w'] keep by (simp add: contents_def)
    then have "log_of crc dz w' itss n" using l(1) by (simp add: log_of_def)
    moreover have "sorted_wrt (<) (map fst ss)" using cut_all2(1) [OF keep(2)] so by simp
    ultimately show ?thesis
      using keep m l(2) by (intro crashed_down [OF _ keep(2)]) auto
  next
    case (revert ss)
    let ?L = "\<lambda>x. sf_linked (snd x)"
    have so': "sorted_wrt (<) (map fst ss)"
      using cut_all2(1) [OF revert(2)] so by (simp add: sorted_wrt_filter sorted_wrt_map)
    have cw: "contents w' = map (\<lambda>(i, s). (i, sf_data s)) (filter ?L (segs w))"
      using down_contents [OF sy, of "filter ?L (segs w)" w'] revert by simp
    have "\<exists>itss' n'. log_of crc dz w' itss' n' \<and> concat (recov crc itss' n') = concat (recov crc itss n)"
    proof (cases "\<forall>x \<in> set (segs w). ?L x")
      case True
      then have "contents w' = contents w" using cw by (simp add: contents_def filter_True)
      then show ?thesis using l(1) by (auto simp: log_of_def)
    next
      case False
      then have ne: "segs w \<noteq> []" by auto
      have sp: "segs w = butlast (segs w) @ [last (segs w)]" using ne by simp
      have bl: "\<forall>x \<in> set (butlast (segs w)). ?L x" using ln by (simp add: links_ok_def)
      then have nl: "\<not> ?L (last (segs w))" using False sp by (metis Un_iff empty_iff empty_set set_append set_ConsD)
      have "filter ?L (segs w) = butlast (segs w)"
        by (subst sp) (use bl nl in \<open>simp add: filter_True\<close>)
      then have "contents w' = butlast (contents w)" using cw by (simp add: contents_def map_butlast)
      moreover have "sf_data (snd (last (segs w))) = []" using ln nl ne by (simp add: links_ok_def)
      ultimately show ?thesis using drop_empty_last [OF l(1) ne] by blast
    qed
    then obtain itss' n' where "log_of crc dz w' itss' n'" "concat (recov crc itss' n') = concat (recov crc itss n)"
      by blast
    moreover have mw: "manifest w' = manifest w" "manifest_dur w' = manifest w" using revert(1) m(2) by simp_all
    ultimately have "\<exists>itss n. log_of crc dz w' itss n \<and> mval (manifest w') \<le> high (map fst (concat (recov crc itss n)))"
      using l(2) by (intro exI [of _ itss'] exI [of _ n']) simp
    then show ?thesis
      using so' m mw revert(1) by (intro crashed_down [OF _ revert(2)]) auto
  qed
qed

end
