(* ===== verification/Ramwal_Steps.thy ===== *)
theory Ramwal_Steps
  imports Ramwal_Inv
begin

text \<open>
  Every operation of the log writer keeps the invariant of \<^verbatim>\<open>Ramwal_Inv\<close>, whatever system calls fail.
\<close>

section \<open>Buffered writes\<close>

text \<open>\<open>wrote g w x g' w'\<close>: the bytes \<open>x\<close> were added to the stream of the active segment, of which some part was
  moved from the buffer to the file.\<close>

definition wrote :: "wal \<Rightarrow> disk \<Rightarrow> bytes \<Rightarrow> wal \<Rightarrow> disk \<Rightarrow> bool" where
  "wrote g w x g' w' \<longleftrightarrow> (\<exists>ext buf'. g' = g\<lparr>w_buf := buf'\<rparr> \<and>
     segs w' = segs (append_bytes (w_seg g) ext w) \<and> ext @ buf' = w_buf g @ x \<and>
     manifest w' = manifest w \<and> manifest_dur w' = manifest_dur w)"

lemma append_bytes_nil: "segs (append_bytes i [] w) = segs w"
  by (auto simp: append_bytes_def seg_upd_def intro!: map_idI)

lemma append_bytes_twice:
  "segs w1 = segs (append_bytes i a w) \<Longrightarrow> segs (append_bytes i b w1) = segs (append_bytes i (a @ b) w)"
  by (auto simp: append_bytes_def seg_upd_def)

lemma wroteI:
  "segs w' = segs (append_bytes (w_seg g) ext w) \<Longrightarrow> ext @ buf' = w_buf g @ x \<Longrightarrow>
   manifest w' = manifest w \<Longrightarrow> manifest_dur w' = manifest_dur w \<Longrightarrow> wrote g w x (g\<lparr>w_buf := buf'\<rparr>) w'"
  unfolding wrote_def by blast

lemma wrote_none [intro]: "same_dir w w' \<Longrightarrow> wrote g w [] g w'"
  using wroteI [of w' g "[]" w "w_buf g" "[]"] by (simp add: append_bytes_nil same_dir_def)

lemma wrote_trans:
  assumes "wrote g w x g1 w1" "wrote g1 w1 y g2 w2"
  shows "wrote g w (x @ y) g2 w2"
proof -
  obtain a b where a: "g1 = g\<lparr>w_buf := b\<rparr>" "segs w1 = segs (append_bytes (w_seg g) a w)" "a @ b = w_buf g @ x"
    "manifest w1 = manifest w" "manifest_dur w1 = manifest_dur w"
    using assms(1) unfolding wrote_def by blast
  obtain c d where c: "g2 = g1\<lparr>w_buf := d\<rparr>" "segs w2 = segs (append_bytes (w_seg g1) c w1)" "c @ d = w_buf g1 @ y"
    "manifest w2 = manifest w1" "manifest_dur w2 = manifest_dur w1"
    using assms(2) unfolding wrote_def by blast
  have "segs w2 = segs (append_bytes (w_seg g) (a @ c) w)"
    using a c append_bytes_twice [OF a(2)] by simp
  moreover have "(a @ c) @ d = w_buf g @ x @ y" using a(1,3) c(3) by (metis append_assoc wal.select_convs(1) wal.surjective wal.update_convs(1))
  moreover have "g2 = g\<lparr>w_buf := d\<rparr>" using a(1) c(1) by simp
  ultimately show ?thesis
    using wroteI [of w2 g "a @ c" w d "x @ y"] a c by simp
qed

lemma append_bytes_frame [simp]:
  "manifest (append_bytes i x w) = manifest w" "manifest_dur (append_bytes i x w) = manifest_dur w"
  by (simp_all add: append_bytes_def seg_upd_def)

lemma append_bytes_segs: "segs w = segs w' \<Longrightarrow> segs (append_bytes i x w) = segs (append_bytes i x w')"
  by (simp add: append_bytes_def seg_upd_def)

lemma flush_buf_wrote:
  assumes "flush_buf g w = (r, g', w')"
  shows "wrote g w [] g' w' \<and> (r = None \<longrightarrow> w_buf g' = [])"
proof (cases "w_buf g = []")
  case True
  then show ?thesis using assms by (auto simp: flush_buf_def)
next
  case False
  show ?thesis
  proof (cases rule: sys_cases [of w])
    case (ok w1)
    then have "g' = g\<lparr>w_buf := []\<rparr>" "w' = append_bytes (w_seg g) (w_buf g) w1" "r = None"
      using assms False by (simp_all add: flush_buf_def)
    then show ?thesis
      using wroteI [of w' g "w_buf g" w "[]" "[]"] ok append_bytes_segs [of w1 w] by (simp add: same_dir_def)
  next
    case (fail n e w1)
    then have "g' = g\<lparr>w_buf := drop n (w_buf g)\<rparr>" "w' = append_bytes (w_seg g) (take n (w_buf g)) w1" "r = Some e"
      using assms False by (simp_all add: flush_buf_def)
    then show ?thesis
      using wroteI [of w' g "take n (w_buf g)" w "drop n (w_buf g)" "[]"] fail append_bytes_segs [of w1 w]
      by (simp add: same_dir_def)
  qed
qed

lemma wrote_seg: "wrote g w x g' w' \<Longrightarrow> w_seg g' = w_seg g \<and> buffer_capacity g' = buffer_capacity g"
  by (auto simp: wrote_def)

lemma wrote_buf: "wrote g w [] (g\<lparr>w_buf := w_buf g\<rparr>) w" "wrote g w bs (g\<lparr>w_buf := w_buf g @ bs\<rparr>) w"
  using wroteI [of w g "[]" w "w_buf g" "[]"] wroteI [of w g "[]" w "w_buf g @ bs" bs]
  by (simp_all add: append_bytes_nil)

lemma wrote_direct:
  assumes "w_buf g = [] \<or> x = []" "same_dir w w1"
  shows "wrote g w x g (append_bytes (w_seg g) x w1)"
proof (cases "x = []")
  case True
  have "same_dir w (append_bytes (w_seg g) [] w1)"
    using assms(2) by (simp add: same_dir_def append_bytes_nil) (simp add: append_bytes_def seg_upd_def)
  then show ?thesis using True wrote_none by blast
next
  case False
  then have e: "w_buf g = []" using assms(1) by simp
  have "wrote g w x (g\<lparr>w_buf := []\<rparr>) (append_bytes (w_seg g) x w1)"
    using assms(2) append_bytes_segs [of w1 w] e by (intro wroteI [of _ g x w]) (auto simp: same_dir_def)
  moreover have "g\<lparr>w_buf := []\<rparr> = g" using e by simp
  ultimately show ?thesis by simp
qed

text \<open>The free space of the buffer bounds what it holds, so a slice as large as the buffer finds it empty.\<close>

lemma write_all_wrote:
  assumes run: "write_all bs g w = (r, g', w')"
  shows "\<exists>k. wrote g w (take k bs) g' w' \<and> (r = None \<longrightarrow> take k bs = bs)"
proof (cases "length bs < buffer_capacity g - length (w_buf g)")
  case True
  then show ?thesis
    using run wrote_buf(2) [of g w bs] by (intro exI [of _ "length bs"]) (auto simp: write_all_def Let_def)
next
  case nf: False
  obtain r1 g1 w1 where f: "(if length bs > buffer_capacity g - length (w_buf g) then flush_buf g w else (None, g, w)) =
      (r1, g1, w1)" by (metis surj_pair)
  have w1: "wrote g w [] g1 w1" using f flush_buf_wrote by (auto split: if_splits)
  have e1: "w_buf g1 = [] \<or> bs = []" if "r1 = None" "length bs \<ge> buffer_capacity g1"
  proof (cases "length bs > buffer_capacity g - length (w_buf g)")
    case True
    then show ?thesis using f flush_buf_wrote that by auto
  next
    case False
    then have g: "g1 = g" and l: "length bs = buffer_capacity g - length (w_buf g)" using f nf by auto
    have "buffer_capacity g \<le> length bs" using that(2) g by simp
    with l have "length (w_buf g) = 0 \<or> length bs = 0" by arith
    then show ?thesis using g by simp
  qed
  show ?thesis
  proof (cases r1)
    case (Some e)
    then have "r = Some e" "g' = g1" "w' = w1" using run nf f by (auto simp: write_all_def Let_def)
    then show ?thesis using w1 by (intro exI [of _ 0]) simp
  next
    case None
    show ?thesis
    proof (cases "length bs \<ge> buffer_capacity g1")
      case True
      then have cap: "length bs \<ge> buffer_capacity g" using wrote_seg [OF w1] by simp
      show ?thesis
      proof (cases rule: sys_cases [of w1])
        case (ok w2)
        then have "r = None" "g' = g1" "w' = append_bytes (w_seg g1) bs w2"
          using run nf f None cap by (auto simp: write_all_def Let_def)
        then show ?thesis
          using wrote_trans [OF w1 wrote_direct [OF e1 [OF None True] ok(2)]]
          by (intro exI [of _ "length bs"]) simp
      next
        case (fail k e w2)
        then have "r = Some e" "g' = g1" "w' = append_bytes (w_seg g1) (take k bs) w2"
          using run nf f None cap by (auto simp: write_all_def Let_def)
        then show ?thesis
          using wrote_trans [OF w1 wrote_direct [OF _ fail(2), of g1 "take k bs"]] e1 [OF None True]
          by (intro exI [of _ k]) auto
      qed
    next
      case False
      then have "\<not> length bs \<ge> buffer_capacity g" using wrote_seg [OF w1] by simp
      then have "r = None" "g' = g1\<lparr>w_buf := w_buf g1 @ bs\<rparr>" "w' = w1"
        using run nf f None by (auto simp: write_all_def Let_def)
      then show ?thesis
        using wrote_trans [OF w1 wrote_buf(2) [of g1 w1 bs]] by (intro exI [of _ "length bs"]) simp
    qed
  qed
qed

lemma append_writes_wrote:
  assumes run: "append_writes hdr stored g w = (r, g', w')"
  shows "\<exists>k. wrote g w (take k (hdr @ stored)) g' w' \<and> (r = None \<longrightarrow> length (hdr @ stored) \<le> k)"
proof -
  obtain r1 g1 w1 where h: "write_all hdr g w = (r1, g1, w1)" by (metis surj_pair)
  obtain k where k: "wrote g w (take k hdr) g1 w1" "r1 = None \<longrightarrow> take k hdr = hdr"
    using write_all_wrote [OF h] by blast
  show ?thesis
  proof (cases r1)
    case (Some e)
    then have "r = Some e" "g' = g1" "w' = w1" using run h by (simp_all add: append_writes_def)
    then show ?thesis using k(1) by (intro exI [of _ "min k (length hdr)"]) (auto simp: min_def)
  next
    case None
    then have "write_all stored g1 w1 = (r, g', w')" using run h by (simp add: append_writes_def)
    from write_all_wrote [OF this] obtain l where
      l: "wrote g1 w1 (take l stored) g' w'" "r = None \<longrightarrow> take l stored = stored" by blast
    have "wrote g w (hdr @ take l stored) g' w'" using wrote_trans [OF k(1) l(1)] k(2) None by simp
    then show ?thesis
      using l(2) by (intro exI [of _ "length hdr + l"]) (auto simp: take_all_iff)
  qed
qed

section \<open>The active segment\<close>

lemma seg_upd_last:
  assumes "segs w = map fst xs @ [(i, s)]" "sorted_wrt (<) (map fst (segs w))"
  shows "segs (seg_upd i f w) = map fst xs @ [(i, f s)]"
proof -
  have "fst x \<noteq> i" if "x \<in> set (map fst xs)" for x
  proof -
    have "fst x < i" using that assms by (simp add: sorted_wrt_append) blast
    then show ?thesis by simp
  qed
  then have "(case x of (j, t) \<Rightarrow> (j, if j = i then f t else t)) = x" if "x \<in> set (map fst xs)" for x
    using that by (cases x) fastforce
  then have "map (\<lambda>(j, t). (j, if j = i then f t else t)) (map fst xs) = map fst xs"
    by (intro map_idI)
  then show ?thesis unfolding seg_upd_def using assms(1) by simp
qed

lemma sorted_same_idx: "segs w = xs @ [(i, s)] \<Longrightarrow> segs w' = xs @ [(i, s')] \<Longrightarrow>
    sorted_wrt (<) (map fst (segs w)) \<Longrightarrow> sorted_wrt (<) (map fst (segs w'))"
  by simp

lemma wrote_rep:
  assumes r: "disk_rep crc dz w (w_seg g) (w_buf g) xs s its n j" and wr: "wrote g w x g' w'"
    and st: "sf_data s @ w_buf g @ x = take n' (encs crc (its @ mr))" "n' \<le> length (encs crc (its @ mr))"
    and ok: "list_all (item_ok dz) mr" "asc None (map fst (concat (map snd xs) @ its @ mr))"
  shows "\<exists>ext. disk_rep crc dz w' (w_seg g') (w_buf g') xs (s\<lparr>sf_data := sf_data s @ ext\<rparr>) (its @ mr) n' j"
proof -
  note d = disk_repD [OF r]
  obtain ext buf' where e: "g' = g\<lparr>w_buf := buf'\<rparr>" "segs w' = segs (append_bytes (w_seg g) ext w)"
    "ext @ buf' = w_buf g @ x" using wr unfolding wrote_def by blast
  have sw: "segs w' = map fst xs @ [(w_seg g, s\<lparr>sf_data := sf_data s @ ext\<rparr>)]"
    unfolding e(2) append_bytes_def by (rule seg_upd_last [OF d(1,2)])
  have data: "(sf_data s @ ext) @ buf' = take n' (encs crc (its @ mr))" using e(3) st(1) by simp
  have "disk_rep crc dz w' (w_seg g) buf' xs (s\<lparr>sf_data := sf_data s @ ext\<rparr>) (its @ mr) n' j"
    using d st(2) ok data sorted_same_idx [OF d(1) sw d(2)]
    by (intro disk_repI sw) (auto simp: list_all_append)
  then show ?thesis using e(1) by auto
qed

lemma mem_rep_cong:
  assumes "mem_rep g w xs s its j" "w_durable g' = w_durable g" "lsn_counter g' = lsn_counter g"
    "w_ckpt g' = w_ckpt g" "closed_segments g' = closed_segments g" "manifest w' = manifest w"
    "manifest_dur w' = manifest_dur w" "sf_linked s' = sf_linked s"
  shows "mem_rep g' w' xs s' its j"
proof -
  have l: "linked_above m xs s' its' = linked_above m xs s its'" for m its'
    unfolding linked_above_def assms(8) ..
  show ?thesis using assms(1) unfolding mem_rep_def assms(2-7) l .
qed

lemma mem_repD:
  assumes "mem_rep g w xs s its j"
  shows "w_durable g = high (map fst (concat (map snd xs) @ take j its))"
    "lsn_counter g = - 1 \<or> (\<forall>it \<in> set (concat (map snd xs) @ its). fst it < lsn_counter g)"
    "m_ok (manifest w)" "m_ok (manifest_dur w)"
    "mval (manifest w) \<le> w_durable g" "w_ckpt g \<le> mval (manifest w)"
    "linked_above (mval (manifest_dur w)) xs s (take j its)" "closed_ok (closed_segments g) xs"
  using assms unfolding mem_rep_def by blast+

lemma mem_repI:
  assumes "w_durable g = high (map fst (concat (map snd xs) @ take j its))"
    "lsn_counter g = - 1 \<or> (\<forall>it \<in> set (concat (map snd xs) @ its). fst it < lsn_counter g)"
    "m_ok (manifest w)" "m_ok (manifest_dur w)"
    "mval (manifest w) \<le> w_durable g" "w_ckpt g \<le> mval (manifest w)"
    "linked_above (mval (manifest_dur w)) xs s (take j its)" "closed_ok (closed_segments g) xs"
  shows "mem_rep g w xs s its j"
  using assms unfolding mem_rep_def by blast

lemma open_rep_cong:
  assumes "open_rep crc g w xs its n" "written_lsn g' = written_lsn g" "w_ckpt g' = w_ckpt g"
    "manifest w' = manifest w" "manifest_dur w' = manifest_dur w"
  shows "open_rep crc g' w' xs its n"
  using assms unfolding open_rep_def by simp

lemma up_repI:
  "disk_rep crc dz w (w_seg g) (w_buf g) xs s its n j \<Longrightarrow> mem_rep g w xs s its j \<Longrightarrow>
   (w_state g = Open \<Longrightarrow> open_rep crc g w xs its n) \<Longrightarrow> up_rep crc dz g w xs s its n j"
  unfolding up_rep_def by blast

lemma up_repD:
  assumes "up_rep crc dz g w xs s its n j"
  shows "disk_rep crc dz w (w_seg g) (w_buf g) xs s its n j" "mem_rep g w xs s its j"
    "w_state g = Open \<Longrightarrow> open_rep crc g w xs its n"
  using assms unfolding up_rep_def by blast+

lemma up_invI: "up_rep crc dz g w xs s its n j \<Longrightarrow> up_inv crc dz g w"
  unfolding up_inv_def by blast

lemma poison_simps [simp]:
  "w_state (poison g) = PoisonedState" "w_buf (poison g) = w_buf g" "w_seg (poison g) = w_seg g"
  "w_durable (poison g) = w_durable g" "lsn_counter (poison g) = lsn_counter g" "w_ckpt (poison g) = w_ckpt g"
  "closed_segments (poison g) = closed_segments g" "written_lsn (poison g) = written_lsn g"
  "locked (poison g) = locked g"
  by (simp_all add: poison_def)

lemma poison_rep:
  assumes u: "up_rep crc dz g w xs s its n j"
  shows "up_rep crc dz (poison g) w xs s its n j"
proof (rule up_repI)
  show "mem_rep (poison g) w xs s its j" by (rule mem_rep_cong [OF up_repD(2) [OF u]]) simp_all
qed (use up_repD(1) [OF u] in simp_all)

lemma wrote_frame:
  assumes "wrote g w x g' w'"
  shows "\<exists>b. g' = g\<lparr>w_buf := b\<rparr>" "manifest w' = manifest w" "manifest_dur w' = manifest_dur w"
  using assms unfolding wrote_def by blast+

text \<open>Moving bytes from the buffer to the file changes nothing of what the log holds.\<close>

lemma wrote_nil_rep:
  assumes u: "up_rep crc dz g w xs s its n j" and wr: "wrote g w [] g' w'"
  shows "\<exists>s'. up_rep crc dz g' w' xs s' its n j"
proof -
  note r = up_repD [OF u]
  note d = disk_repD [OF r(1)]
  obtain b where b: "g' = g\<lparr>w_buf := b\<rparr>" using wrote_frame [OF wr] by blast
  from wrote_rep [OF r(1) wr, of n "[]"] d obtain ext where
    e: "disk_rep crc dz w' (w_seg g') (w_buf g') xs (s\<lparr>sf_data := sf_data s @ ext\<rparr>) its n j" by auto
  have "up_rep crc dz g' w' xs (s\<lparr>sf_data := sf_data s @ ext\<rparr>) its n j"
    using wrote_frame(2,3) [OF wr] b
    by (intro up_repI e mem_rep_cong [OF r(2)] open_rep_cong [OF r(3)]) auto
  then show ?thesis by blast
qed

lemma sync_data_rep:
  assumes u: "up_rep crc dz g w xs s its n j" and run: "sync_data g w = (r, g', w')"
  shows "\<exists>s'. up_rep crc dz g' w' xs s' its n j \<and> g' = g \<and>
    (r = None \<longrightarrow> sf_synced s' = length (sf_data s'))"
proof -
  note q = up_repD [OF u]
  note d = disk_repD [OF q(1)]
  show ?thesis
  proof (cases rule: sys_cases [of w])
    case (ok w1)
    let ?s = "s\<lparr>sf_synced := length (sf_data s)\<rparr>"
    have e: "g' = g" "w' = seg_upd (w_seg g) (\<lambda>s. s\<lparr>sf_synced := length (sf_data s)\<rparr>) w1" "r = None"
      using run ok by (auto simp: sync_data_def)
    have s1: "segs w1 = map fst xs @ [(w_seg g, s)]" "sorted_wrt (<) (map fst (segs w1))"
      using ok d by (auto simp: same_dir_def)
    have sw: "segs w' = map fst xs @ [(w_seg g, ?s)]" unfolding e(2) by (rule seg_upd_last [OF s1])
    have "disk_rep crc dz w' (w_seg g) (w_buf g) xs ?s its n j"
      using d sorted_same_idx [OF d(1) sw d(2)] by (intro disk_repI sw) auto
    moreover have "manifest w' = manifest w" "manifest_dur w' = manifest_dur w"
      using ok e(2) by (auto simp: seg_upd_def same_dir_def)
    ultimately have "up_rep crc dz g w' xs ?s its n j"
      by (intro up_repI mem_rep_cong [OF q(2)] open_rep_cong [OF q(3)]) auto
    then show ?thesis using e by auto
  next
    case (fail k e w1)
    then have e: "g' = g" "w' = w1" "r = Some e" using run by (auto simp: sync_data_def)
    have "up_rep crc dz g w1 xs s its n j"
      using fail(2) d by (intro up_repI disk_repI mem_rep_cong [OF q(2)] open_rep_cong [OF q(3)]) (auto simp: same_dir_def)
    then show ?thesis using e by auto
  qed
qed

lemma sync_data_frame: "sync_data g w = (r, g', w') \<Longrightarrow> g' = g"
  by (auto simp: sync_data_def split: prod.splits option.splits)

text \<open>After a successful barrier every item of the log is synced.\<close>

lemma sync_inner_rep:
  assumes u: "up_rep crc dz g w xs s its n j" and run: "sync_inner g w = (r, g', w')"
  shows "\<exists>s'. up_rep crc dz g' w' xs s' its n j \<and> (\<exists>b. g' = g\<lparr>w_buf := b\<rparr>) \<and>
    (r = None \<longrightarrow> w_buf g' = [] \<and> sf_synced s' = length (sf_data s'))"
proof -
  obtain r1 g1 w1 where f: "flush_buf g w = (r1, g1, w1)" by (metis surj_pair)
  note fw = flush_buf_wrote [OF f]
  obtain s1 where s1: "up_rep crc dz g1 w1 xs s1 its n j" using wrote_nil_rep [OF u] fw by blast
  obtain b where b: "g1 = g\<lparr>w_buf := b\<rparr>" using wrote_frame fw by blast
  show ?thesis
  proof (cases r1)
    case (Some e)
    then have "g' = g1" "w' = w1" "r = Some e" using run f by (auto simp: sync_inner_def)
    then show ?thesis using s1 b by auto
  next
    case None
    then have sd: "sync_data g1 w1 = (r, g', w')" using run f by (simp add: sync_inner_def)
    from sync_data_rep [OF s1 sd] obtain s2 where "up_rep crc dz g' w' xs s2 its n j" "g' = g1"
      "r = None \<longrightarrow> sf_synced s2 = length (sf_data s2)" by blast
    then show ?thesis using b fw None by auto
  qed
qed

lemma durable_all:
  assumes u: "up_rep crc dz g w xs s its n j" and o: "w_state g = Open"
    and sy: "w_buf g = []" "sf_synced s = length (sf_data s)"
  shows "up_rep crc dz (g\<lparr>w_durable := written_lsn g\<rparr>) w xs s its n (length its)"
proof -
  note q = up_repD [OF u]
  note d = disk_repD [OF q(1)]
  note op = q(3) [OF o, unfolded open_rep_def]
  have len: "length (sf_data s) = length (encs crc its)" using d(4) op sy(1) by simp
  have wr: "written_lsn g = high (map fst (concat (map snd xs) @ its))" using op by blast
  have "high (map fst (concat (map snd xs) @ take j its)) \<le> high (map fst (concat (map snd xs) @ take j its @ drop j its))"
    by (rule high_mono_app) (use d(7) in simp)
  then have mw: "mval (manifest w) \<le> written_lsn g"
    using mem_repD(1,5) [OF q(2)] unfolding wr by simp
  have la: "linked_above (mval (manifest_dur w)) xs s its"
    using mem_repD(7) [OF q(2)] unfolding linked_above_def by (meson in_set_takeD)
  have "mem_rep (g\<lparr>w_durable := written_lsn g\<rparr>) w xs s its (length its)"
    by (rule mem_repI) (use mem_repD [OF q(2)] wr mw la in simp_all)
  moreover have "disk_rep crc dz w (w_seg g) (w_buf g) xs s its n (length its)"
    using d len sy by (intro disk_repI) auto
  ultimately show ?thesis
    using q(3) by (intro up_repI) (auto simp: open_rep_def)
qed

section \<open>Appending\<close>

lemma up_rep_cong:
  assumes u: "up_rep crc dz g w xs s its n j" and "w_seg g' = w_seg g" "w_buf g' = w_buf g"
    "w_durable g' = w_durable g" "lsn_counter g' = lsn_counter g" "w_ckpt g' = w_ckpt g"
    "closed_segments g' = closed_segments g" "written_lsn g' = written_lsn g" "w_state g' = w_state g"
  shows "up_rep crc dz g' w xs s its n j"
proof (rule up_repI)
  show "mem_rep g' w xs s its j" by (rule mem_rep_cong [OF up_repD(2) [OF u]]) (simp_all add: assms)
  show "open_rep crc g' w xs its n" if "w_state g' = Open"
    by (rule open_rep_cong [OF up_repD(3) [OF u]]) (use that in \<open>simp_all add: assms\<close>)
qed (use up_repD(1) [OF u] assms in simp_all)

lemma barrier_rep:
  assumes u: "up_rep crc dz g w xs s its n j" and run: "barrier now g w = (r, g', w')"
  shows "\<exists>s' b t. up_rep crc dz g' w' xs s' its n j \<and> g' = g\<lparr>w_buf := b, next_sync_due_ns := t\<rparr> \<and> r \<noteq> Deadlock \<and>
    (r = Ok True \<longrightarrow> w_buf g' = [] \<and> sf_synced s' = length (sf_data s')) \<and>
    (w_durability g = SyncEach \<longrightarrow> r \<noteq> Ok False)"
proof -
  have same: "\<exists>b t. g = g\<lparr>w_buf := b, next_sync_due_ns := t\<rparr>"
    by (intro exI [of _ "w_buf g"] exI [of _ "next_sync_due_ns g"]) simp
  obtain r1 g1 w1 where si: "sync_inner g w = (r1, g1, w1)" by (metis surj_pair)
  from sync_inner_rep [OF u si] obtain s1 b where s1: "up_rep crc dz g1 w1 xs s1 its n j" "g1 = g\<lparr>w_buf := b\<rparr>"
    "r1 = None \<longrightarrow> w_buf g1 = [] \<and> sf_synced s1 = length (sf_data s1)" by blast
  have g1: "g1 = g\<lparr>w_buf := b, next_sync_due_ns := next_sync_due_ns g\<rparr>" using s1(2) by simp
  consider (no) "w_durability g = Buffered \<or> w_durability g = Explicit" | (each) "w_durability g = SyncEach"
    | (grp) "w_durability g = GroupCommit" by (cases "w_durability g") auto
  then show ?thesis
  proof cases
    case no
    then have "r = Ok False" "g' = g" "w' = w" using run by (auto simp: barrier_def)
    then show ?thesis using u same no by auto
  next
    case each
    show ?thesis
    proof (cases r1)
      case None
      then have "r = Ok True" "g' = g1" "w' = w1" using run si each by (auto simp: barrier_def)
      then show ?thesis using s1 g1 None by blast
    next
      case (Some e)
      then have "r = Err e" "g' = g1" "w' = w1" using run si each by (auto simp: barrier_def)
      then show ?thesis using s1(1) g1 by blast
    qed
  next
    case grp
    show ?thesis
    proof (cases "now \<ge> next_sync_due_ns g")
      case False
      then have "r = Ok False" "g' = g" "w' = w" using run grp by (auto simp: barrier_def maybe_group_commit_def)
      then show ?thesis using u same grp by auto
    next
      case True
      show ?thesis
      proof (cases r1)
        case (Some e)
        then have "r = Err e" "g' = g1" "w' = w1" using run si grp True by (auto simp: barrier_def maybe_group_commit_def)
        then show ?thesis using s1(1) g1 by blast
      next
        case None
        show ?thesis
        proof (cases "checked_add now group_commit_window_ns")
          case n: None
          then have "r = Panic" "g' = g1" "w' = w1"
            using run si grp True None by (auto simp: barrier_def maybe_group_commit_def)
          then show ?thesis using s1(1) g1 by blast
        next
          case (Some due)
          then have e: "r = Ok True" "g' = g1\<lparr>next_sync_due_ns := due\<rparr>" "w' = w1"
            using run si grp True None by (auto simp: barrier_def maybe_group_commit_def)
          have "up_rep crc dz g' w' xs s1 its n j" unfolding e by (rule up_rep_cong [OF s1(1)]) simp_all
          then show ?thesis using e s1(2,3) None grp by auto
        qed
      qed
    qed
  qed
qed

lemma closed_last_other: "i \<noteq> seg \<Longrightarrow> closed_last (close_segment seg l cs) i = closed_last cs i"
proof -
  assume "i \<noteq> seg"
  then have "filter (\<lambda>(s, _). s = i) (close_segment seg l cs) = filter (\<lambda>(s, _). s = i) cs"
    by (induction cs) auto
  then show ?thesis by (simp add: closed_last_def)
qed

lemma closed_last_Some:
  assumes "closed_last cs i = Some l"
  shows "(i, l) \<in> set cs \<and> (\<forall>l'. (i, l') \<in> set cs \<longrightarrow> l' \<le> l)"
proof -
  let ?ls = "map snd (filter (\<lambda>(s, _). s = i) cs)"
  obtain a as where as: "?ls = a # as" and l: "l = fold max as a"
    using assms by (auto simp: closed_last_def split: list.splits)
  have m: "l = Max (set ?ls)" unfolding as l by (rule Max.set_eq_fold [symmetric])
  have mem: "x \<in> set ?ls \<longleftrightarrow> (i, x) \<in> set cs" for x by force
  have "Max (set ?ls) \<in> set ?ls" using as by (intro Max_in) auto
  then have "(i, l) \<in> set cs" using mem m by blast
  moreover have "l' \<le> l" if "(i, l') \<in> set cs" for l'
    unfolding m using that mem by (intro Max_ge) auto
  ultimately show ?thesis by blast
qed

lemma close_segment_mem: "\<exists>m \<ge> l. (seg, m) \<in> set (close_segment seg l cs)"
proof (induction cs)
  case (Cons c cs)
  then show ?case by (cases c) (auto intro: exI [of _ "max _ l"])
qed auto

lemma closed_ok_close:
  assumes "closed_ok cs xs" "\<forall>x \<in> set (map fst xs). fst x < seg" "\<forall>it \<in> set its. fst it \<le> l"
  shows "closed_ok (close_segment seg l cs) (xs @ [((seg, s), its)])"
  unfolding closed_ok_def
proof (clarify)
  fix i f fs m it1 it2 it3
  assume x: "((i, f), fs) \<in> set (xs @ [((seg, s), its)])"
    and m: "closed_last (close_segment seg l cs) i = Some m" and it: "(it1, it2, it3) \<in> set fs"
  show "fst (it1, it2, it3) \<le> m"
  proof (cases "((i, f), fs) \<in> set xs")
    case True
    have "i \<noteq> seg" using True assms(2) by force
    then have "closed_last cs i = Some m" using m by (simp add: closed_last_other)
    then show ?thesis using True it assms(1) unfolding closed_ok_def by fastforce
  next
    case False
    then have e: "i = seg" "fs = its" using x by auto
    obtain k where "l \<le> k" "(seg, k) \<in> set (close_segment seg l cs)" using close_segment_mem by blast
    then have "l \<le> m" using closed_last_Some [OF m] e(1) by (metis order_trans)
    moreover have "it1 \<le> l" using it assms(3) e(2) by fastforce
    ultimately show ?thesis by simp
  qed
qed

lemma closed_ok_close_active:
  assumes "closed_ok cs xs" "\<forall>x \<in> set (map fst xs). fst x < seg"
  shows "closed_ok (close_segment seg l cs) xs"
  unfolding closed_ok_def
proof (clarify)
  fix i f fs m it1 it2 it3
  assume x: "((i, f), fs) \<in> set xs" and m: "closed_last (close_segment seg l cs) i = Some m" and it: "(it1, it2, it3) \<in> set fs"
  have "i \<noteq> seg" using x assms(2) by force
  then have "closed_last cs i = Some m" using m by (simp add: closed_last_other)
  then show "fst (it1, it2, it3) \<le> m" using x it assms(1) unfolding closed_ok_def by fastforce
qed

lemma insort_key_end: "\<forall>y \<in> set xs. fst y < fst x \<Longrightarrow> insort_key fst x xs = xs @ [x]"
  for x :: "u64 \<times> 'a"
  by (induction xs) auto

lemma seg_insert_end:
  assumes "\<forall>y \<in> set (segs w). fst y < i"
  shows "segs (seg_insert i s w) = segs w @ [(i, s)]"
proof -
  have "filter (\<lambda>(j, _). j \<noteq> i) (segs w) = segs w" using assms by (intro filter_True) auto
  then show ?thesis using insort_key_end [of "segs w" "(i, s)"] assms by (simp add: seg_insert_def)
qed

lemma olds_below:
  assumes "disk_rep crc dz w i buf xs s its n j"
  shows "\<forall>x \<in> set (map fst xs). fst x < i"
  using disk_repD(1,2) [OF assms] by (simp add: sorted_wrt_append)

lemma close_rep:
  assumes u: "up_rep crc dz g w xs s its n j"
  shows "up_rep crc dz (g\<lparr>closed_segments := close_segment (w_seg g) l (closed_segments g)\<rparr>) w xs s its n j"
proof -
  let ?g = "g\<lparr>closed_segments := close_segment (w_seg g) l (closed_segments g)\<rparr>"
  have "mem_rep ?g w xs s its j"
    by (rule mem_repI)
      (use mem_repD [OF up_repD(2) [OF u]] closed_ok_close_active olds_below [OF up_repD(1) [OF u]] in simp_all)
  then show ?thesis using up_repD(1,3) [OF u] by (intro up_repI) (auto simp: open_rep_def)
qed

lemma new_segment_rep:
  assumes u: "up_rep crc dz g w xs s its n (length its)" and o: "w_state g = Open"
    and sy: "w_buf g = []" "sf_synced s = length (sf_data s)" and new: "w_seg g < new"
    and w': "segs w' = segs w @ [(new, \<lparr>sf_data = [], sf_synced = 0, sf_linked = False\<rparr>)]"
      "manifest w' = manifest w" "manifest_dur w' = manifest_dur w"
    and g': "w_buf g' = []" "w_seg g' = new" "w_durable g' = w_durable g" "lsn_counter g' = lsn_counter g"
      "w_ckpt g' = w_ckpt g" "written_lsn g' = written_lsn g" "w_state g' = w_state g"
      "closed_segments g' = close_segment (w_seg g) (written_lsn g) (closed_segments g)"
  shows "up_rep crc dz g' w' (xs @ [((w_seg g, s), its)]) \<lparr>sf_data = [], sf_synced = 0, sf_linked = False\<rparr> [] 0 0"
proof -
  let ?xs = "xs @ [((w_seg g, s), its)]" and ?s = "\<lparr>sf_data = [], sf_synced = 0, sf_linked = False\<rparr>"
  note q = up_repD [OF u]
  note d = disk_repD [OF q(1)]
  note m = mem_repD [OF q(2)]
  note op = q(3) [OF o, unfolded open_rep_def]
  have data: "sf_data s = encs crc its" using d(4) op sy(1) by simp
  have "olds_ok crc ?xs" using d(3) data sy(2) by (auto simp: olds_ok_def)
  moreover have sw: "segs w' = map fst ?xs @ [(new, ?s)]" using w'(1) d(1) by simp
  moreover have "sorted_wrt (<) (map fst (segs w'))"
    using d(2) olds_below [OF q(1)] new unfolding sw d(1)
    by (auto simp: sorted_wrt_append intro: less_trans)
  ultimately have dr: "disk_rep crc dz w' new [] ?xs ?s [] 0 0"
    using d(6,7) by (intro disk_repI) auto
  have "\<forall>it \<in> set its. fst it \<le> written_lsn g"
  proof
    fix it assume "it \<in> set its"
    then have "fst it \<in> set (map fst (concat (map snd xs) @ its))" by simp
    from asc_high [OF d(7) this] show "fst it \<le> written_lsn g" using op by simp
  qed
  then have cl: "closed_ok (closed_segments g') ?xs"
    unfolding g' by (intro closed_ok_close m(8) olds_below [OF q(1)])
  have la: "linked_above (mval (manifest_dur w')) ?xs ?s (take 0 [])"
    using m(7) w' unfolding linked_above_def by auto
  have "mem_rep g' w' ?xs ?s [] 0"
    by (rule mem_repI) (use m la cl w' g' in simp_all)
  then show ?thesis using dr op g' w' by (intro up_repI) (auto simp: open_rep_def)
qed

lemma rotate_rep:
  assumes u: "up_rep crc dz g w xs s its n j" and o: "w_state g = Open"
    and run: "rotate lsn g w = (res, g', w')"
  shows "up_inv crc dz g' w' \<and> (\<forall>l. res \<noteq> Ok l)"
proof -
  obtain r1 g1 w1 where si: "sync_inner g w = (r1, g1, w1)" by (metis surj_pair)
  from sync_inner_rep [OF u si] obtain s1 b where s1: "up_rep crc dz g1 w1 xs s1 its n j" "g1 = g\<lparr>w_buf := b\<rparr>"
    "r1 = None \<longrightarrow> w_buf g1 = [] \<and> sf_synced s1 = length (sf_data s1)" by blast
  show ?thesis
  proof (cases r1)
    case (Some e)
    then have "res = Err (from_io e)" "g' = poison g1" "w' = w1" using run si by (auto simp: rotate_def)
    then show ?thesis using poison_rep [OF s1(1)] by (auto intro: up_invI)
  next
    case None
    have o1: "w_state g1 = Open" using s1(2) o by simp
    let ?g = "g1\<lparr>w_durable := written_lsn g1\<rparr>"
    let ?g2 = "?g\<lparr>closed_segments := close_segment (w_seg ?g) (written_lsn ?g) (closed_segments ?g)\<rparr>"
    have u2: "up_rep crc dz ?g w1 xs s1 its n (length its)" using durable_all [OF s1(1) o1] s1(3) None by simp
    have u3: "up_rep crc dz ?g2 w1 xs s1 its n (length its)" by (rule close_rep [OF u2])
    show ?thesis
    proof (cases "checked_add (w_seg g1) 1")
      case n: None
      then have "res = Panic" "g' = ?g2" "w' = w1" using run si None by (auto simp: rotate_def Let_def)
      then show ?thesis using u3 by (auto intro: up_invI)
    next
      case (Some new)
      then have nw: "w_seg g1 < new"
        by (auto simp: checked_add_Some word_less_nat_alt unat_word_ariths)
      show ?thesis
      proof (cases rule: sys_cases [of w1])
        case (ok w2)
        let ?e = "\<lparr>sf_data = [], sf_synced = 0, sf_linked = False\<rparr>"
        let ?g' = "?g2\<lparr>w_buf := [], w_bytes := 0, w_seg := new, locked := True\<rparr>"
        have e: "res = Deadlock" "g' = ?g'" "w' = seg_insert new ?e w2"
          using run si None Some ok by (auto simp: rotate_def Let_def)
        have bl: "\<forall>y \<in> set (segs w2). fst y < new"
          using ok(2) disk_repD(1) [OF up_repD(1) [OF u2]] olds_below [OF up_repD(1) [OF u2]] nw
          by (auto simp: same_dir_def intro: less_trans)
        have sw: "segs w' = segs w1 @ [(new, ?e)]" unfolding e(3) seg_insert_end [OF bl] using ok(2) by (simp add: same_dir_def)
        have mw: "manifest w' = manifest w1" "manifest_dur w' = manifest_dur w1"
          unfolding e(3) using ok(2) by (simp_all add: seg_insert_def same_dir_def)
        have "up_rep crc dz g' w' (xs @ [((w_seg ?g, s1), its)]) ?e [] 0 0"
          unfolding e(2) by (rule new_segment_rep [OF u2 _ _ _ _ sw mw]) (use o1 s1(3) None nw in simp_all)
        then show ?thesis using e(1) by (auto intro: up_invI)
      next
        case (fail k e w2)
        then have e: "res = Err (from_io e)" "g' = poison ?g2" "w' = w2"
          using run si None Some by (auto simp: rotate_def Let_def)
        have "up_rep crc dz ?g2 w2 xs s1 its n (length its)"
        proof (rule up_repI)
          note d = disk_repD [OF up_repD(1) [OF u3]]
          show "disk_rep crc dz w2 (w_seg ?g2) (w_buf ?g2) xs s1 its n (length its)"
            using d fail(2) by (intro disk_repI) (auto simp: same_dir_def)
          show "mem_rep ?g2 w2 xs s1 its (length its)"
            by (rule mem_rep_cong [OF up_repD(2) [OF u3]]) (use fail(2) in \<open>simp_all add: same_dir_def\<close>)
          show "open_rep crc ?g2 w2 xs its n" if "w_state ?g2 = Open"
            by (rule open_rep_cong [OF up_repD(3) [OF u3 that]]) (use fail(2) in \<open>simp_all add: same_dir_def\<close>)
        qed
        from up_invI [OF poison_rep [OF this]] show ?thesis using e by simp
      qed
    qed
  qed
qed

text \<open>The effect of a completed append on what the log holds.\<close>

definition appended ::
  "(bytes \<Rightarrow> u32) \<Rightarrow> (bytes \<Rightarrow> string + bytes) \<Rightarrow> wal \<Rightarrow> wal \<Rightarrow> disk \<Rightarrow> old_seg list \<Rightarrow> wal_item list \<Rightarrow> wal_item \<Rightarrow> bool" where
  "appended crc dz g g' w' xs its it \<longleftrightarrow>
     (\<exists>s j. up_rep crc dz g' w' xs s (its @ [it]) (length (encs crc (its @ [it]))) j) \<and> w_seg g' = w_seg g \<and>
     (w_durability g = SyncEach \<longrightarrow> w_durable g' = fst it)"

lemma append_commit_rep:
  assumes u: "up_rep crc dz g w xs s (its @ [it]) n j" and o: "w_state g = Open" and l: "written_lsn g = fst it"
    and run: "append_commit now lsn g w = (res, g', w')"
  shows "up_inv crc dz g' w' \<and> (\<forall>l. res = Ok l \<longrightarrow> l = lsn \<and> appended crc dz g g' w' xs its it)"
proof -
  have nn: "n = length (encs crc (its @ [it]))" using up_repD(3) [OF u o] by (simp add: open_rep_def)
  obtain r1 g1 w1 where b: "barrier now g w = (r1, g1, w1)" by (metis surj_pair)
  from barrier_rep [OF u b] obtain s1 bf t where s1: "up_rep crc dz g1 w1 xs s1 (its @ [it]) n j"
    and g1: "g1 = g\<lparr>w_buf := bf, next_sync_due_ns := t\<rparr>" and r1: "r1 \<noteq> Deadlock"
    "r1 = Ok True \<longrightarrow> w_buf g1 = [] \<and> sf_synced s1 = length (sf_data s1)"
    "w_durability g = SyncEach \<longrightarrow> r1 \<noteq> Ok False" by blast
  have o1: "w_state g1 = Open" using g1 o by simp
  show ?thesis
  proof (cases r1)
    case (Ok bar)
    define g2 where "g2 = (if bar then g1\<lparr>w_durable := written_lsn g1\<rparr> else g1)"
    have u2: "\<exists>j'. up_rep crc dz g2 w1 xs s1 (its @ [it]) n j'"
    proof (cases bar)
      case True
      then show ?thesis using durable_all [OF s1 o1] r1(2) Ok by (auto simp: g2_def)
    next
      case False
      then show ?thesis using s1 by (auto simp: g2_def)
    qed
    then obtain j' where u2: "up_rep crc dz g2 w1 xs s1 (its @ [it]) n j'" by blast
    have g2: "w_state g2 = Open" "w_seg g2 = w_seg g" "w_durability g = SyncEach \<longrightarrow> w_durable g2 = fst it"
      using g1 o l r1(3) Ok by (auto simp: g2_def)
    show ?thesis
    proof (cases "w_bytes g2 \<ge> seg_max g2")
      case True
      then have "rotate lsn g2 w1 = (res, g', w')" using run b Ok by (simp add: append_commit_def g2_def Let_def)
      from rotate_rep [OF u2 g2(1) this] show ?thesis by blast
    next
      case False
      then have "res = Ok lsn \<and> g' = g2 \<and> w' = w1" using run b Ok by (auto simp: append_commit_def g2_def Let_def)
      then show ?thesis using u2 g2 nn by (auto simp: appended_def intro: up_invI)
    qed
  next
    case (Err e)
    then have "res = Err (from_io e)" "g' = poison g1" "w' = w1" using run b by (auto simp: append_commit_def)
    then show ?thesis using up_invI [OF poison_rep [OF s1]] by simp
  next
    case Panic
    then have "res = Panic" "g' = g1" "w' = w1" using run b by (auto simp: append_commit_def)
    then show ?thesis using up_invI [OF s1] by simp
  next
    case Deadlock
    with r1(1) show ?thesis by simp
  qed
qed

lemma word_less_succ: "x \<noteq> - 1 \<Longrightarrow> x < x + (1 :: 'a::len word)"
proof -
  assume "x \<noteq> - 1"
  then have "1 + x \<noteq> 0" by (metis add_eq_0_iff minus_minus)
  then have "unat (1 + x) = Suc (unat x)" by (rule unatSuc)
  then show ?thesis by (simp add: word_less_nat_alt add.commute)
qed

lemma counter_rep:
  assumes u: "up_rep crc dz g w xs s its n j" and c: "lsn_counter g \<noteq> - 1"
  shows "up_rep crc dz (g\<lparr>lsn_counter := lsn_counter g + 1\<rparr>) w xs s its n j"
proof -
  have lt: "lsn_counter g < lsn_counter g + 1" using c by (rule word_less_succ)
  have "mem_rep (g\<lparr>lsn_counter := lsn_counter g + 1\<rparr>) w xs s its j"
    by (rule mem_repI) (use mem_repD [OF up_repD(2) [OF u]] c lt in \<open>auto intro: less_trans\<close>)
  then show ?thesis using up_repD(1,3) [OF u] by (intro up_repI) (auto simp: open_rep_def)
qed

lemma asc_next:
  assumes "asc None (map fst its)" "\<forall>it \<in> set its. fst it < l"
  shows "asc None (map fst (its @ [(l, st, fl)]))"
proof -
  have "above (last_of None (map fst its)) l"
    using assms(2) by (cases "its = []") (auto simp: above_def last_of_def last_map)
  then show ?thesis using assms(1) by (simp add: asc_append)
qed

text \<open>A record, whole or torn, is added at the end of a log that is not poisoned.\<close>

lemma grow_rep:
  assumes u: "up_rep crc dz g w xs s its n j" and o: "w_state g = Open"
    and c: "lsn_counter g \<noteq> - 1" and lsn: "lsn = lsn_counter g"
    and wr: "wrote (g\<lparr>lsn_counter := lsn + 1\<rparr>) w (take k (enc_item crc (lsn, st, fl))) g' w'"
    and ok: "item_ok dz (lsn, st, fl)"
  shows "\<exists>s'. disk_rep crc dz w' (w_seg g') (w_buf g') xs s' (its @ [(lsn, st, fl)])
        (length (encs crc its) + min k (length (enc_item crc (lsn, st, fl)))) j \<and>
      mem_rep g' w' xs s' (its @ [(lsn, st, fl)]) j"
proof -
  let ?it = "(lsn, st, fl)" and ?g = "g\<lparr>lsn_counter := lsn + 1\<rparr>"
  note q = up_repD [OF counter_rep [OF u c]]
  note d = disk_repD [OF up_repD(1) [OF u]]
  have n: "n = length (encs crc its)" using up_repD(3) [OF u o] by (simp add: open_rep_def)
  have below: "\<forall>it \<in> set (concat (map snd xs) @ its). fst it < lsn"
    using mem_repD(2) [OF up_repD(2) [OF u]] c lsn by simp
  have a: "asc None (map fst (concat (map snd xs) @ its @ [?it]))"
    using asc_next [OF d(7), of lsn st fl] below by simp
  let ?n = "length (encs crc its) + min k (length (enc_item crc ?it))"
  have st: "sf_data s @ w_buf ?g @ take k (enc_item crc ?it) = take ?n (encs crc (its @ [?it]))"
    using d(4) n by (simp add: min_def)
  obtain ext where e: "disk_rep crc dz w' (w_seg g') (w_buf g') xs (s\<lparr>sf_data := sf_data s @ ext\<rparr>) (its @ [?it]) ?n j"
    using wrote_rep [of crc dz w ?g xs s its n j _ g' w' ?n "[?it]"] q(1) lsn wr st a ok by auto
  have lt: "lsn < lsn + 1" using c lsn by (intro word_less_succ) simp
  obtain b where g': "g' = ?g\<lparr>w_buf := b\<rparr>" using wrote_frame [OF wr] by blast
  have tj: "take j (its @ [?it]) = take j its" using d(9) by simp
  have la: "linked_above (mval (manifest_dur w)) xs (s\<lparr>sf_data := sf_data s @ ext\<rparr>) (take j its)"
    using mem_repD(7) [OF up_repD(2) [OF u]] unfolding linked_above_def by simp
  have cnt: "\<forall>it \<in> set (concat (map snd xs) @ its @ [?it]). fst it < lsn + 1"
  proof
    fix it assume "it \<in> set (concat (map snd xs) @ its @ [?it])"
    then consider "it \<in> set (concat (map snd xs) @ its)" | "it = ?it" by auto
    then show "fst it < lsn + 1"
    proof cases
      case 1
      then have "fst it < lsn" using below by blast
      then show ?thesis using lt by order
    qed (use lt in simp)
  qed
  have "mem_rep g' w' xs (s\<lparr>sf_data := sf_data s @ ext\<rparr>) (its @ [?it]) j"
    by (rule mem_repI, unfold tj)
      (use mem_repD [OF up_repD(2) [OF u]] la cnt wrote_frame(2,3) [OF wr] in \<open>simp_all add: g'\<close>)
  with e show ?thesis by blast
qed

lemma stored_item_ok:
  assumes "lz4_ok compress dz" "length payload \<le> max_record" "encode_payload compress payload c 64 = (stored, flags)"
    "length stored \<le> max_record"
  shows "item_ok dz (lsn, stored, flags) \<and> item_rec dz (lsn, stored, flags) = (lsn, payload)"
proof -
  have "decode_payload dz stored flags max_record = Inr payload"
    using assms by (intro payload_roundtrip) auto
  moreover have "flags AND NOT flag_compressed = 0"
    using encode_payload_flags [of compress payload c 64] assms(3) by simp
  ultimately show ?thesis using assms(4) by (simp add: item_ok_def item_rec_def)
qed

lemma append_rep:
  assumes u: "up_rep crc dz g w xs s its n j" and z: "lz4_ok compress dz"
    and enc: "encode_payload compress payload (w_compression g = Lz4) 64 = (stored, flags)"
    and fit: "length stored \<le> max_record"
    and run: "wal_append crc compress now payload g w = (res, g', w')"
  shows "up_inv crc dz g' w' \<and>
    (\<forall>l. res = Ok l \<longrightarrow> l = lsn_counter g \<and> length payload \<le> max_record \<and> w_state g = Open \<and> \<not> locked g \<and>
       appended crc dz g g' w' xs its (l, stored, flags))"
proof (cases "length payload > max_record \<or> locked g \<or> w_state g = PoisonedState \<or> lsn_counter g = - 1")
  case True
  then have "g' = g \<and> w' = w \<and> (\<forall>l. res \<noteq> Ok l)"
    using run enc by (auto simp: wal_append_def Let_def split: if_splits)
  then show ?thesis using up_invI [OF u] by simp
next
  case False
  then have len: "length payload \<le> max_record" and nl: "\<not> locked g" and c: "lsn_counter g \<noteq> - 1" and o: "w_state g = Open"
    by (auto intro: wal_state.exhaust [of "w_state g"])
  define lsn where "lsn = lsn_counter g"
  define g1 where "g1 = g\<lparr>lsn_counter := lsn + 1\<rparr>"
  define hdr where "hdr = header_encode (header_new crc lsn stored flags)"
  let ?it = "(lsn, stored, flags)"
  have u1: "up_rep crc dz g1 w xs s its n j" using counter_rep [OF u c] by (simp add: g1_def lsn_def)
  have run1: "(if w_fail_next_write g1 then
       (Err (from_io (OtherIo ''injected write failure'')), poison (g1\<lparr>w_fail_next_write := False\<rparr>), w)
     else if w_fail_next_diskfull g1 then
       (Err (from_io StorageFull), poison (g1\<lparr>w_fail_next_diskfull := False\<rparr>), w)
     else case append_writes hdr stored g1 w of
       (Some e, g, w) \<Rightarrow> (Err (from_io e), poison g, w)
     | (None, g, w) \<Rightarrow>
         append_commit now lsn (g\<lparr>w_bytes := w_bytes g + header_size + length stored, written_lsn := lsn\<rparr>) w) = (res, g', w')"
    using run len nl c o
    unfolding wal_append_def Let_def enc prod.case lsn_def [symmetric] g1_def [symmetric] hdr_def [symmetric]
    by simp
  show ?thesis
  proof (cases "w_fail_next_write g1 \<or> w_fail_next_diskfull g1")
    case True
    then obtain b where "(\<forall>l. res \<noteq> Ok l) \<and> w' = w \<and> (g' = poison (g1\<lparr>w_fail_next_write := b\<rparr>) \<or> g' = poison (g1\<lparr>w_fail_next_diskfull := b\<rparr>))"
      using run1 by (auto split: if_splits)
    moreover have "up_rep crc dz (g1\<lparr>w_fail_next_write := b\<rparr>) w xs s its n j" "up_rep crc dz (g1\<lparr>w_fail_next_diskfull := b\<rparr>) w xs s its n j"
      by (rule up_rep_cong [OF u1]; simp)+
    ultimately show ?thesis using up_invI [OF poison_rep] by blast
  next
    case False
    obtain r2 g2 w2 where aw: "append_writes hdr stored g1 w = (r2, g2, w2)" by (metis surj_pair)
    from append_writes_wrote [OF aw] obtain k where
      k: "wrote g1 w (take k (enc_item crc ?it)) g2 w2" "r2 = None \<longrightarrow> length (enc_item crc ?it) \<le> k"
      by (auto simp: enc_item_def hdr_def)
    note ok = stored_item_ok [OF z len enc fit, of lsn]
    from grow_rep [OF u o c lsn_def k(1) [unfolded g1_def]] ok obtain s2 where
      s2: "disk_rep crc dz w2 (w_seg g2) (w_buf g2) xs s2 (its @ [?it])
          (length (encs crc its) + min k (length (enc_item crc ?it))) j" "mem_rep g2 w2 xs s2 (its @ [?it]) j" by blast
    obtain b where g2: "g2 = g1\<lparr>w_buf := b\<rparr>" using wrote_frame [OF k(1)] by blast
    show ?thesis
    proof (cases r2)
      case (Some e)
      then have e: "res = Err (from_io e)" "g' = poison g2" "w' = w2" using run1 False aw by (auto split: if_splits)
      have "up_rep crc dz (poison g2) w2 xs s2 (its @ [?it]) (length (encs crc its) + min k (length (enc_item crc ?it))) j"
      proof (rule up_repI)
        show "mem_rep (poison g2) w2 xs s2 (its @ [?it]) j" by (rule mem_rep_cong [OF s2(2)]) simp_all
      qed (use s2(1) in simp_all)
      from up_invI [OF this] show ?thesis using e by simp
    next
      case None
      let ?g3 = "g2\<lparr>w_bytes := w_bytes g2 + header_size + length stored, written_lsn := lsn\<rparr>"
      let ?n = "length (encs crc (its @ [?it]))"
      have com: "append_commit now lsn ?g3 w2 = (res, g', w')" using run1 False aw None by (auto split: if_splits)
      have nn: "length (encs crc its) + min k (length (enc_item crc ?it)) = ?n" using k(2) None by simp
      have o3: "w_state ?g3 = Open" using g2 o by (simp add: g1_def)
      have "up_rep crc dz ?g3 w2 xs s2 (its @ [?it]) ?n j"
      proof (rule up_repI)
        show "disk_rep crc dz w2 (w_seg ?g3) (w_buf ?g3) xs s2 (its @ [?it]) ?n j" using s2(1) nn by simp
        show "mem_rep ?g3 w2 xs s2 (its @ [?it]) j" by (rule mem_rep_cong [OF s2(2)]) simp_all
        have op: "manifest_dur w = manifest w" "mval (manifest w) = w_ckpt g"
          using up_repD(3) [OF u o] by (simp_all add: open_rep_def)
        have "high (map fst (concat (map snd xs) @ its @ [?it])) = lsn"
          using high_simps(2) [of "map fst (concat (map snd xs) @ its)" lsn] by simp
        then show "open_rep crc ?g3 w2 xs (its @ [?it]) ?n"
          using op wrote_frame(2,3) [OF k(1)] g2 by (simp add: open_rep_def g1_def)
      qed
      from append_commit_rep [OF this o3 _ com] show ?thesis
        using len nl o g2 by (auto simp: appended_def g1_def lsn_def)
    qed
  qed
qed

section \<open>Flush, sync and the test seams\<close>

lemma flush_rep:
  assumes u: "up_rep crc dz g w xs s its n j" and run: "flush g w = (res, g', w')"
  shows "up_inv crc dz g' w'"
proof (cases "locked g \<or> w_state g = PoisonedState")
  case True
  then show ?thesis using run up_invI [OF u] by (auto simp: flush_def split: if_splits)
next
  case False
  obtain r1 g1 w1 where f: "flush_buf g w = (r1, g1, w1)" by (metis surj_pair)
  obtain s1 where s1: "up_rep crc dz g1 w1 xs s1 its n j" using wrote_nil_rep [OF u] flush_buf_wrote [OF f] by blast
  have "w' = w1" "g' = g1 \<or> g' = poison g1" using run f False by (auto simp: flush_def split: option.splits)
  then show ?thesis using up_invI [OF s1] up_invI [OF poison_rep [OF s1]] by auto
qed

lemma sync_rep:
  assumes u: "up_rep crc dz g w xs s its n j" and run: "sync g w = (res, g', w')"
  shows "up_inv crc dz g' w' \<and>
    (res = Ok () \<longrightarrow> w_durable g' = written_lsn g \<and> (\<exists>s'. up_rep crc dz g' w' xs s' its n (length its)))"
proof (cases "locked g \<or> w_state g = PoisonedState")
  case True
  then show ?thesis using run up_invI [OF u] by (auto simp: sync_def split: if_splits)
next
  case False
  then have o: "w_state g = Open" by (auto intro: wal_state.exhaust [of "w_state g"])
  obtain r1 g1 w1 where f: "sync_inner g w = (r1, g1, w1)" by (metis surj_pair)
  from sync_inner_rep [OF u f] obtain s1 b where s1: "up_rep crc dz g1 w1 xs s1 its n j" "g1 = g\<lparr>w_buf := b\<rparr>"
    "r1 = None \<longrightarrow> w_buf g1 = [] \<and> sf_synced s1 = length (sf_data s1)" by blast
  show ?thesis
  proof (cases r1)
    case (Some e)
    then have "res = Err (from_io e)" "g' = poison g1" "w' = w1" using run f False by (auto simp: sync_def)
    then show ?thesis using up_invI [OF poison_rep [OF s1(1)]] by simp
  next
    case None
    then have e: "res = Ok ()" "g' = g1\<lparr>w_durable := written_lsn g1\<rparr>" "w' = w1" using run f False by (auto simp: sync_def)
    have "up_rep crc dz g' w' xs s1 its n (length its)"
      unfolding e by (rule durable_all [OF s1(1)]) (use s1 None o in simp_all)
    then show ?thesis using e(2) s1(2) up_invI by auto
  qed
qed

end
