(* ===== verification/Ramwal_Open.thy ===== *)
theory Ramwal_Open
  imports Ramwal_Steps
begin

text \<open>
  Checkpoints, retention and opening keep the invariant; opening a directory that satisfies it
  never fails but for a failing system call.
\<close>

section \<open>Checkpoints\<close>

lemma try_sys_then:
  assumes "try_sys w k = (res, w2)" and "\<And>w1. same_dir w w1 \<Longrightarrow> k w1 = (res, w2) \<Longrightarrow> P"
    and "\<And>e. same_dir w w2 \<Longrightarrow> io_fail w e \<Longrightarrow> res = Inl (from_io e) \<Longrightarrow> P"
  shows P
  using assms(1) by (cases rule: try_sys_cases) (use assms in auto)

definition linked_segs :: "(u64 \<times> seg_file) list \<Rightarrow> (u64 \<times> seg_file) list" where
  "linked_segs ss = map (\<lambda>(i, s). (i, s\<lparr>sf_linked := True\<rparr>)) ss"

lemma fsync_dir_cases:
  assumes "fsync_dir w = (res, w2)"
  shows "res = Inr () \<and> segs w2 = linked_segs (segs w) \<and> manifest w2 = manifest w \<and> manifest_dur w2 = manifest w \<and>
      set (faults w2) \<subseteq> set (faults w)
    \<or> (\<exists>e. res = Inl (from_io e) \<and> same_dir w w2 \<and> io_fail w e)"
  using assms unfolding fsync_dir_def
  by (cases rule: try_sys_cases) (auto simp: same_dir_def linked_segs_def)

lemma write_manifest_cases:
  assumes "write_manifest lsn w = (res, w2)"
  shows "res = Inr () \<and> segs w2 = linked_segs (segs w) \<and> manifest w2 = Some (manifest_text lsn) \<and>
      manifest_dur w2 = Some (manifest_text lsn)
    \<or> (\<exists>e. res = Inl e) \<and> segs w2 = segs w \<and> manifest_dur w2 = manifest_dur w \<and>
      (manifest w2 = manifest w \<or> manifest w2 = Some (manifest_text lsn))"
  using assms unfolding write_manifest_def
proof (rule try_sys_then)
  fix w1 assume s1: "same_dir w w1" and r1: "try_sys w1 (\<lambda>w. try_sys w (\<lambda>w. try_sys w (\<lambda>w.
       fsync_dir (w\<lparr>manifest := Some (manifest_text lsn)\<rparr>)))) = (res, w2)"
  from r1 show ?thesis
  proof (rule try_sys_then)
    fix w3 assume s3: "same_dir w1 w3" and r3: "try_sys w3 (\<lambda>w. try_sys w (\<lambda>w.
       fsync_dir (w\<lparr>manifest := Some (manifest_text lsn)\<rparr>))) = (res, w2)"
    from r3 show ?thesis
    proof (rule try_sys_then)
      fix w4 assume s4: "same_dir w3 w4" and r4: "try_sys w4 (\<lambda>w. fsync_dir (w\<lparr>manifest := Some (manifest_text lsn)\<rparr>)) = (res, w2)"
      from r4 show ?thesis
      proof (rule try_sys_then)
        fix w5 assume s5: "same_dir w4 w5" and r5: "fsync_dir (w5\<lparr>manifest := Some (manifest_text lsn)\<rparr>) = (res, w2)"
        have "same_dir w w5" using s1 s3 s4 s5 by (blast intro: same_dir_trans)
        then show ?thesis using fsync_dir_cases [OF r5] by (auto simp: same_dir_def)
      qed (use s1 s3 s4 in \<open>auto simp: same_dir_def\<close>)
    qed (use s1 s3 in \<open>auto simp: same_dir_def\<close>)
  qed (use s1 in \<open>auto simp: same_dir_def\<close>)
qed (auto simp: same_dir_def)

definition link_olds :: "old_seg list \<Rightarrow> old_seg list" where
  "link_olds xs = map (\<lambda>((i, f), its). ((i, f\<lparr>sf_linked := True\<rparr>), its)) xs"

lemma link_olds_simps [simp]:
  "map snd (link_olds xs) = map snd xs" "map fst (map fst (link_olds xs)) = map fst (map fst xs)"
  "map fst (link_olds xs) = linked_segs (map fst xs)" "olds_ok crc (link_olds xs) = olds_ok crc xs"
  by (force simp: link_olds_def linked_segs_def olds_ok_def)+

lemma closed_ok_link [simp]: "closed_ok cs (link_olds xs) = closed_ok cs xs"
  by (force simp: closed_ok_def link_olds_def)

lemma linked_segs_fst [simp]: "map fst (linked_segs ss) = map fst ss"
  by (simp add: linked_segs_def split_def comp_def)

lemma linked_above_link:
  assumes "\<exists>it \<in> set (concat (map snd xs) @ its). m \<le> fst it"
  shows "linked_above m (link_olds xs) (s\<lparr>sf_linked := True\<rparr>) its"
  using assms unfolding linked_above_def link_olds_def by force

lemma disk_rep_link:
  assumes d: "disk_rep crc dz w i buf xs s its n j" and w': "segs w' = linked_segs (segs w)"
  shows "disk_rep crc dz w' i buf (link_olds xs) (s\<lparr>sf_linked := True\<rparr>) its n j"
proof -
  note d = disk_repD [OF d]
  have "segs w' = map fst (link_olds xs) @ [(i, s\<lparr>sf_linked := True\<rparr>)]"
    unfolding w' d(1) by (simp add: linked_segs_def)
  then show ?thesis using d w' by (intro disk_repI) auto
qed

lemma high_item: "its \<noteq> [] \<Longrightarrow> last its \<in> set its \<and> fst (last its) = high (map fst its)"
  for its :: "(u64 \<times> 'a) list"
  by (simp add: high_last last_map)

lemma checkpoint_up:
  assumes u: "up_rep crc dz g w xs s its n j" and run: "checkpoint lsn g w = (res, g', w')"
  shows "\<exists>xs' s'. up_rep crc dz g' w' xs' s' its n j \<and> map snd xs' = map snd xs"
proof (cases "locked g \<or> w_state g = PoisonedState \<or> lsn > written_lsn g \<or> lsn > w_durable g \<or> lsn < w_ckpt g")
  case True
  then show ?thesis using run u by (auto simp: checkpoint_def split: if_splits)
next
  case False
  then have nl: "\<not> locked g" and o: "w_state g = Open" and lw: "lsn \<le> written_lsn g" and ld: "lsn \<le> w_durable g"
    and lc: "w_ckpt g \<le> lsn"
    by (auto intro: wal_state.exhaust [of "w_state g"])
  have run': "(case write_manifest lsn w of
      (Inl e, w) \<Rightarrow> (Err e, poison g, w) | (Inr _, w) \<Rightarrow> (Ok (), g\<lparr>w_ckpt := lsn\<rparr>, w)) = (res, g', w')"
    using run nl o leD [OF lw] leD [OF ld] leD [OF lc] by (simp add: checkpoint_def)
  note q = up_repD [OF u]
  note m = mem_repD [OF q(2)]
  note op = q(3) [OF o, unfolded open_rep_def]
  obtain r w1 where wm: "write_manifest lsn w = (r, w1)" by fastforce
  from write_manifest_cases [OF wm] show ?thesis
  proof
    assume a: "r = Inr () \<and> segs w1 = linked_segs (segs w) \<and> manifest w1 = Some (manifest_text lsn) \<and>
      manifest_dur w1 = Some (manifest_text lsn)"
    then have e: "g' = g\<lparr>w_ckpt := lsn\<rparr>" "w' = w1" using run' wm by auto
    let ?s = "s\<lparr>sf_linked := True\<rparr>"
    have la: "linked_above lsn (link_olds xs) ?s (take j its)"
    proof (cases "lsn = 0")
      case True
      then show ?thesis by (simp add: linked_above_def)
    next
      case False
      let ?l = "concat (map snd xs) @ take j its"
      have "?l \<noteq> []"
      proof
        assume "?l = []"
        then have "w_durable g = 0" using m(1) by (simp only: list.map high_simps)
        then show False using ld False by simp
      qed
      note hi = high_item [OF this]
      have "lsn \<le> fst (last ?l)" using hi m(1) ld by (simp only:)
      with hi show ?thesis by (intro linked_above_link bexI [of _ "last ?l"]) (simp_all only:)
    qed
    have "mem_rep g' w' (link_olds xs) ?s its j"
      by (rule mem_repI) (use m la a ld in \<open>simp_all add: e\<close>)
    moreover have "disk_rep crc dz w' (w_seg g') (w_buf g') (link_olds xs) ?s its n j"
      using disk_rep_link [OF q(1)] a by (simp add: e)
    moreover have "open_rep crc g' w' (link_olds xs) its n" using op a by (simp add: e open_rep_def)
    ultimately have "up_rep crc dz g' w' (link_olds xs) ?s its n j" by (intro up_repI)
    then show ?thesis by (intro exI conjI) (assumption, simp)
  next
    assume a: "(\<exists>e. r = Inl e) \<and> segs w1 = segs w \<and> manifest_dur w1 = manifest_dur w \<and>
      (manifest w1 = manifest w \<or> manifest w1 = Some (manifest_text lsn))"
    then have e: "g' = poison g" "w' = w1" using run' wm by auto
    have "mem_rep g' w' xs s its j"
      by (rule mem_repI) (use m a ld lc in \<open>auto simp: e\<close>)
    moreover have "disk_rep crc dz w' (w_seg g') (w_buf g') xs s its n j"
      using disk_repD [OF q(1)] a by (intro disk_repI) (auto simp: e)
    ultimately have "up_rep crc dz g' w' xs s its n j" by (intro up_repI) (auto simp: e)
    then show ?thesis by blast
  qed
qed

lemma checkpoint_rep:
  assumes "up_rep crc dz g w xs s its n j" "checkpoint lsn g w = (res, g', w')"
  shows "up_inv crc dz g' w'"
  using checkpoint_up [OF assms] up_invI by blast

section \<open>Retention\<close>

lemma high_filter:
  assumes a: "asc None (map fst (concat (map snd xs) @ ys))"
    and rm: "\<And>x it. x \<in> set xs \<Longrightarrow> \<not> P x \<Longrightarrow> it \<in> set (snd x) \<Longrightarrow> fst it < m"
    and m: "m \<le> high (map fst (concat (map snd xs) @ ys))"
  shows "high (map fst (concat (map snd (filter P xs)) @ ys)) = high (map fst (concat (map snd xs) @ ys))"
proof -
  let ?f = "map fst (concat (map snd xs) @ ys)" and ?g = "map fst (concat (map snd (filter P xs)) @ ys)"
  have sub: "set ?g \<subseteq> set ?f" by auto
  have ag: "asc None ?g"
  proof -
    have "asc None (map fst (concat (map snd (filter (\<lambda>x. case x of (Some y, l) \<Rightarrow> P (y, l) | (None, l) \<Rightarrow> True)
        (map (\<lambda>(y, l). (Some y, l)) xs @ [(None, ys)])))))"
      by (rule asc_filter) (use a in \<open>simp add: comp_def split_def\<close>)
    then show ?thesis by (simp add: filter_map comp_def split_def)
  qed
  show ?thesis
  proof (cases "?f = []")
    case True
    then have "?g = []" using sub by auto
    with True show ?thesis by (simp only:)
  next
    case False
    then have "concat (map snd xs) @ ys \<noteq> []" by simp
    from high_item [OF this] obtain it where it: "it \<in> set (concat (map snd xs) @ ys)" "fst it = high ?f" by blast
    have "it \<in> set (concat (map snd (filter P xs)) @ ys)"
    proof (cases "it \<in> set ys")
      case False
      then obtain x where x: "x \<in> set xs" "it \<in> set (snd x)" using it(1) by auto
      have "P x" using rm [OF x(1) _ x(2)] it(2) m by fastforce
      then show ?thesis using x by (cases x) auto
    qed simp
    then have hg: "high ?f \<in> set ?g" unfolding it(2) [symmetric] set_map by (rule imageI)
    then have "?g \<noteq> []" by (metis empty_iff list.set(1))
    then have "high ?g \<in> set ?f" using high_in sub by blast
    then have "high ?g \<le> high ?f" by (rule asc_high [OF a])
    moreover have "high ?f \<le> high ?g" by (rule asc_high [OF ag hg])
    ultimately show ?thesis by simp
  qed
qed

lemma same_dir_rep:
  assumes u: "up_rep crc dz g w xs s its n j" and s: "same_dir w w'"
  shows "up_rep crc dz g w' xs s its n j"
proof (rule up_repI)
  show "disk_rep crc dz w' (w_seg g) (w_buf g) xs s its n j"
    using disk_repD [OF up_repD(1) [OF u]] s by (intro disk_repI) (auto simp: same_dir_def)
  show "mem_rep g w' xs s its j"
    by (rule mem_rep_cong [OF up_repD(2) [OF u]]) (use s in \<open>simp_all add: same_dir_def\<close>)
  show "open_rep crc g w' xs its n" if "w_state g = Open"
    by (rule open_rep_cong [OF up_repD(3) [OF u that]]) (use s in \<open>simp_all add: same_dir_def\<close>)
qed

lemma linked_aboveI:
  "x \<in> set xs \<Longrightarrow> sf_linked (snd (fst x)) \<Longrightarrow> it \<in> set (snd x) \<Longrightarrow> m \<le> fst it \<Longrightarrow> linked_above m xs s its"
  unfolding linked_above_def split_def by blast

lemma remove_rep:
  assumes u: "up_rep crc dz g w xs s its n j" and o: "w_state g = Open" and i: "i \<noteq> w_seg g"
    and l: "closed_last (closed_segments g) i = Some l" "l < safe" "safe \<le> w_ckpt g"
  shows "up_rep crc dz g (seg_remove i w) (filter (\<lambda>x. fst (fst x) \<noteq> i) xs) s its n j"
    "\<And>x it. x \<in> set xs \<Longrightarrow> fst (fst x) = i \<Longrightarrow> it \<in> set (snd x) \<Longrightarrow> fst it < safe"
proof -
  let ?P = "\<lambda>x :: old_seg. fst (fst x) \<noteq> i"
  let ?xs = "filter ?P xs" and ?w = "seg_remove i w"
  note q = up_repD [OF u]
  note d = disk_repD [OF q(1)]
  note m = mem_repD [OF q(2)]
  note op = q(3) [OF o, unfolded open_rep_def]
  show small: "fst it < safe" if "x \<in> set xs" "fst (fst x) = i" "it \<in> set (snd x)" for x it
  proof -
    have "fst it \<le> l" using m(8) l(1) that unfolding closed_ok_def by fastforce
    then show ?thesis using l(2) by order
  qed
  have sw: "segs ?w = map fst ?xs @ [(w_seg g, s)]"
    using d(1) i by (auto simp: seg_remove_def filter_map comp_def split_def)
  have so: "sorted_wrt (<) (map fst (segs ?w))"
    using d(2) by (auto simp: seg_remove_def sorted_wrt_map sorted_wrt_filter)
  have ok: "olds_ok crc ?xs" "list_all (item_ok dz) (concat (map snd ?xs) @ its)"
    using d(3,6) list_all_filter by (auto simp: olds_ok_def)
  have as: "asc None (map fst (concat (map snd ?xs) @ its))"
  proof -
    have "asc None (map fst (concat (map snd (filter ?P (xs @ [((w_seg g, s), its)])))))"
      by (rule asc_filter) (use d(7) in simp)
    then show ?thesis using i by simp
  qed
  have dr: "disk_rep crc dz ?w (w_seg g) (w_buf g) ?xs s its n j"
    using d by (intro disk_repI sw so ok as) auto
  have rm: "fst it < safe" if "x \<in> set xs" "\<not> ?P x" "it \<in> set (snd x)" for x it
    using small [OF that(1) _ that(3)] that(2) by simp
  have aj: "asc None (map fst (concat (map snd xs) @ take j its))"
    using d(7) by (metis append_assoc append_take_drop_id asc_append map_append)
  have du: "w_durable g = high (map fst (concat (map snd ?xs) @ take j its))"
    unfolding m(1) by (rule high_filter [OF aj rm, symmetric]) (use m l(3) op in \<open>auto simp flip: m(1)\<close>)
  have "high (map fst (concat (map snd xs) @ take j its)) \<le> high (map fst (concat (map snd xs) @ take j its @ drop j its))"
    by (rule high_mono_app) (use d(7) in simp)
  then have dw: "w_durable g \<le> written_lsn g" using op m(1) by simp
  have sd: "safe \<le> w_durable g" using m(5,6) l(3) by order
  have wr: "written_lsn g = high (map fst (concat (map snd ?xs) @ its))"
  proof -
    have "safe \<le> high (map fst (concat (map snd xs) @ its))" using sd dw op by simp
    then have "high (map fst (concat (map snd ?xs) @ its)) = high (map fst (concat (map snd xs) @ its))"
      by (intro high_filter [OF d(7) rm])
    then show ?thesis using op by simp
  qed
  have md: "mval (manifest_dur w) = w_ckpt g" using op by simp
  have la: "linked_above (mval (manifest_dur w)) ?xs s (take j its)"
  proof (cases "\<exists>((i', f), fs) \<in> set xs. sf_linked f \<and> (\<exists>it \<in> set fs. w_ckpt g \<le> fst it)")
    case True
    then obtain x it where x: "x \<in> set xs" "sf_linked (snd (fst x))" "it \<in> set (snd x)" "w_ckpt g \<le> fst it" by fastforce
    have "?P x" using rm [OF x(1) _ x(3)] x(4) l(3) by (metis leD order_trans)
    then have "x \<in> set ?xs" using x(1) by simp
    then show ?thesis unfolding md by (rule linked_aboveI [OF _ x(2,3,4)])
  next
    case False
    then show ?thesis using m(7) unfolding md linked_above_def by blast
  qed
  have cl: "closed_ok (closed_segments g) ?xs" using m(8) unfolding closed_ok_def by auto
  have "mem_rep g ?w ?xs s its j"
    by (rule mem_repI)
      (use m la cl du in \<open>auto simp: seg_remove_def\<close>)
  then show "up_rep crc dz g ?w ?xs s its n j"
    using dr wr op by (intro up_repI) (auto simp: open_rep_def seg_remove_def)
qed

text \<open>Retention removes whole segments all of whose records are below the safe sequence number.\<close>

definition retained :: "u64 \<Rightarrow> old_seg list \<Rightarrow> old_seg list \<Rightarrow> bool" where
  "retained safe xs xs' \<longleftrightarrow> (\<exists>P. xs' = filter P xs \<and>
     (\<forall>x \<in> set xs. \<not> P x \<longrightarrow> (\<forall>it \<in> set (snd x). fst it < safe)))"

lemma retained_refl [simp]: "retained safe xs xs"
  unfolding retained_def by (rule exI [of _ "\<lambda>_. True"]) simp

lemma retained_trans:
  assumes "retained safe xs xs1" "retained safe xs1 xs2"
  shows "retained safe xs xs2"
proof -
  obtain P where P: "xs1 = filter P xs" "\<forall>x \<in> set xs. \<not> P x \<longrightarrow> (\<forall>it \<in> set (snd x). fst it < safe)"
    using assms(1) unfolding retained_def by blast
  obtain Q where Q: "xs2 = filter Q xs1" "\<forall>x \<in> set xs1. \<not> Q x \<longrightarrow> (\<forall>it \<in> set (snd x). fst it < safe)"
    using assms(2) unfolding retained_def by blast
  show ?thesis
    unfolding retained_def
  proof (intro exI [of _ "\<lambda>x. P x \<and> Q x"] conjI)
    show "xs2 = filter (\<lambda>x. P x \<and> Q x) xs" using P(1) Q(1) by simp
    show "\<forall>x \<in> set xs. \<not> (P x \<and> Q x) \<longrightarrow> (\<forall>it \<in> set (snd x). fst it < safe)"
      using P(2) Q(2) unfolding P(1) set_filter by blast
  qed
qed

lemma retention_loop_rep:
  assumes "up_rep crc dz g w xs s its n j" "w_state g = Open" "safe \<le> w_ckpt g"
    "retention_loop mx safe (w_seg g) (closed_segments g) sizes over w = (res, w')"
  shows "(\<exists>xs'. up_rep crc dz g w' xs' s its n j \<and> retained safe xs xs') \<and>
    (res = Inr () \<or> (\<exists>e. io_fail w e)) \<and> set (faults w') \<subseteq> set (faults w)"
  using assms
proof (induction sizes arbitrary: over w xs)
  case Nil
  then show ?case by auto
next
  case (Cons c rest)
  obtain i sz where c: "c = (i, sz)" by fastforce
  show ?case
  proof (cases "mx > 0 \<and> over = 0")
    case True
    then show ?thesis using Cons.prems c by auto
  next
    case go: False
    show ?thesis
    proof (cases "i \<noteq> w_seg g \<and> (\<exists>l. closed_last (closed_segments g) i = Some l \<and> l < safe)")
      case False
      then have "retention_loop mx safe (w_seg g) (closed_segments g) rest over w = (res, w')"
        using Cons.prems(4) go by (auto simp: c not_less split: if_splits option.splits)
      from Cons.IH [OF Cons.prems(1-3) this] show ?thesis .
    next
      case True
      then obtain l where l: "i \<noteq> w_seg g" "closed_last (closed_segments g) i = Some l" "l < safe" by blast
      have "try_sys w (\<lambda>w. retention_loop mx safe (w_seg g) (closed_segments g) rest (over - sz) (seg_remove i w)) = (res, w')"
        using Cons.prems(4) go l leD by (auto simp: c split: if_splits)
      then show ?thesis
      proof (rule try_sys_then)
        fix w1 assume s1: "same_dir w w1"
          and r1: "retention_loop mx safe (w_seg g) (closed_segments g) rest (over - sz) (seg_remove i w1) = (res, w')"
        have u1: "up_rep crc dz g w1 xs s its n j" by (rule same_dir_rep [OF Cons.prems(1) s1])
        note rm = remove_rep [OF u1 Cons.prems(2) l Cons.prems(3)]
        have re: "retained safe xs (filter (\<lambda>x. fst (fst x) \<noteq> i) xs)"
          unfolding retained_def using rm(2) by blast
        have f: "set (faults (seg_remove i w1)) \<subseteq> set (faults w)" using s1 by (simp add: same_dir_def seg_remove_def)
        from Cons.IH [OF rm(1) Cons.prems(2,3) r1] show ?thesis
          using retained_trans [OF re] f by (auto simp: io_fail_def)
      next
        fix e assume sd: "same_dir w w'" and io: "io_fail w e"
        have "set (faults w') \<subseteq> set (faults w)" using sd by (simp add: same_dir_def)
        then show ?thesis using same_dir_rep [OF Cons.prems(1) sd] io retained_refl by blast
      qed
    qed
  qed
qed

lemma run_retention_raw_rep:
  assumes u: "up_rep crc dz g w xs s its n j" and safe: "safe \<le> w_ckpt g"
    and run: "run_retention_raw mx safe g w = (res, g', w')"
  shows "g' = g \<and> (\<exists>xs'. up_rep crc dz g w' xs' s its n j \<and> retained safe xs xs') \<and>
    (w_state g = Open \<and> \<not> locked g \<longrightarrow> res = Ok () \<or> (\<exists>e. io_fail w e))"
proof (cases "locked g \<or> w_state g = PoisonedState \<or> safe = 0")
  case True
  then show ?thesis using run u by (auto simp: run_retention_raw_def split: if_splits)
next
  case False
  then have o: "w_state g = Open" by (auto intro: wal_state.exhaust [of "w_state g"])
  define k where "k = (\<lambda>w. let sizes = list_segs_with_size w; total = sum_list (map snd sizes)
          in if mx > 0 \<and> total \<le> mx then (Inr (), w)
             else retention_loop mx safe (w_seg g) (closed_segments g) sizes (if mx > 0 then total - mx else 0) w)"
  obtain r w1 where t: "try_sys w k = (r, w1)" by fastforce
  have e: "g' = g" "w' = w1" "r = Inr () \<Longrightarrow> res = Ok ()"
    using run False t unfolding run_retention_raw_def k_def [symmetric] by (auto split: sum.splits)
  from t have "(\<exists>xs'. up_rep crc dz g w1 xs' s its n j \<and> retained safe xs xs') \<and> (r = Inr () \<or> (\<exists>e. io_fail w e))"
  proof (rule try_sys_then)
    fix w2 assume s2: "same_dir w w2" and k2: "k w2 = (r, w1)"
    have u2: "up_rep crc dz g w2 xs s its n j" by (rule same_dir_rep [OF u s2])
    show ?thesis
    proof (cases "mx > 0 \<and> sum_list (map snd (list_segs_with_size w2)) \<le> mx")
      case True
      then show ?thesis using k2 u2 by (auto simp: k_def Let_def)
    next
      case False
      then have "retention_loop mx safe (w_seg g) (closed_segments g) (list_segs_with_size w2)
          (if mx > 0 then sum_list (map snd (list_segs_with_size w2)) - mx else 0) w2 = (r, w1)"
        using k2 by (simp add: k_def Let_def split: if_splits)
      from retention_loop_rep [OF u2 o safe this] s2 show ?thesis
        by (auto simp: same_dir_def io_fail_def)
    qed
  next
    fix e assume sd: "same_dir w w1" and io: "io_fail w e"
    show ?thesis using same_dir_rep [OF u sd] io retained_refl by blast
  qed
  with e show ?thesis by auto
qed

section \<open>Opening\<close>

definition down_rep ::
  "(bytes \<Rightarrow> u32) \<Rightarrow> (bytes \<Rightarrow> string + bytes) \<Rightarrow> disk \<Rightarrow> wal_item list list \<Rightarrow> nat \<Rightarrow> bool" where
  "down_rep crc dz w itss n \<longleftrightarrow>
     sorted_wrt (<) (map fst (segs w)) \<and> all_synced w \<and> links_ok w \<and>
     m_ok (manifest w) \<and> manifest_dur w = manifest w \<and>
     log_of crc dz w itss n \<and> mval (manifest w) \<le> high (map fst (concat (recov crc itss n)))"

lemma down_inv_rep: "down_inv crc dz w \<longleftrightarrow> (\<exists>itss n. down_rep crc dz w itss n)"
  unfolding down_inv_def down_rep_def by blast

lemma same_dir_down: "down_rep crc dz w itss n \<Longrightarrow> same_dir w w' \<Longrightarrow> down_rep crc dz w' itss n"
  unfolding down_rep_def all_synced_def links_ok_def log_of_def contents_def same_dir_def by simp

lemma fits_cases:
  assumes "snd c = take n (encs crc its)" "n \<le> length (encs crc its)"
  shows "length (encs crc (fits crc n its)) = n \<Longrightarrow> snd c = encs crc (fits crc n its)"
proof -
  assume l: "length (encs crc (fits crc n its)) = n"
  obtain r where "its = fits crc n its @ r" using fits_prefix by blast
  then have "encs crc its = encs crc (fits crc n its) @ encs crc r" by (metis encs_simps(3))
  then show ?thesis using assms(1) l by simp
qed

lemma log_of_cases:
  assumes "log_of crc dz w itss n"
  obtains (empty) "contents w = []" "itss = []"
  | (segs) ds c oits its where "contents w = ds @ [c]" "itss = oits @ [its]"
      "map snd ds = map (encs crc) oits" "n \<le> length (encs crc its)" "snd c = take n (encs crc its)"
proof (cases "contents w" rule: rev_cases)
  case Nil
  then show ?thesis using assms empty by (simp add: log_of_def)
next
  case (snoc ds c)
  then have "length itss = Suc (length ds)" using assms log_holds_length by (fastforce simp: log_of_def)
  then obtain oits its where i: "itss = oits @ [its]" by (metis length_0_conv nat.distinct(1) rev_exhaust)
  show ?thesis using segs [OF snoc i] assms by (simp add: log_of_def snoc i log_holds_snoc)
qed

text \<open>The contents of the directory when the active segment has been opened.\<close>

definition opened :: "(bytes \<Rightarrow> u32) \<Rightarrow> (u64 \<times> bytes) list \<Rightarrow> wal_item list list \<Rightarrow> (u64 \<times> bytes) list" where
  "opened crc cs R = (if cs = [] then [(1, [])] else butlast cs @ [(fst (last cs), encs crc (last R))])"

lemma opened_fst: "cs \<noteq> [] \<Longrightarrow> map fst (opened crc cs R) = map fst cs"
  by (cases cs rule: rev_cases) (simp_all add: opened_def)

lemma fixed_cases:
  assumes "log_of crc dz w itss n"
  shows "fixed crc True (contents w) itss n =
      (if contents w = [] then [] else opened crc (contents w) (recov crc itss n))
    \<or> contents w \<noteq> [] \<and> last (recov crc itss n) = [] \<and> fixed crc True (contents w) itss n = butlast (contents w)"
  using assms
proof (cases rule: log_of_cases)
  case empty
  then show ?thesis by (simp add: fixed_def)
next
  case (segs ds c oits its)
  have r: "last (recov crc itss n) = fits crc n its" using segs by (simp add: recov_snoc)
  show ?thesis
  proof (cases "length (encs crc (fits crc n its)) = n")
    case True
    have "snd c = encs crc (fits crc n its)" by (rule fits_cases [OF segs(5,4) True])
    then show ?thesis using segs True r by (cases c) (simp add: fixed_def opened_def Let_def)
  next
    case False
    then show ?thesis using segs r by (simp add: fixed_def opened_def Let_def)
  qed
qed

lemma fixed_log:
  assumes l: "log_of crc dz w itss n" and w': "contents w' = fixed crc True (contents w) itss n"
  shows "\<exists>itss' n'. log_of crc dz w' itss' n' \<and> concat (recov crc itss' n') = concat (recov crc itss n)"
  using l
proof (cases rule: log_of_cases)
  case empty
  then show ?thesis using l w' by (intro exI [of _ itss] exI [of _ n]) (simp add: log_of_def fixed_def)
next
  case (segs ds c oits its)
  let ?f = "fits crc n its"
  have r: "recov crc itss n = oits @ [?f]" using segs by (simp add: recov_snoc)
  have ok: "list_all (item_ok dz) (concat oits @ ?f)" "asc None (map fst (concat oits @ ?f))"
  proof -
    have "set ?f \<subseteq> set its" by (rule fits_sub)
    then show "list_all (item_ok dz) (concat oits @ ?f)"
      using l segs(2) unfolding log_of_def list_all_iff by auto
    show "asc None (map fst (concat oits @ ?f))" using asc_recov [OF l] r by simp
  qed
  from fixed_cases [OF l] show ?thesis
  proof
    assume "fixed crc True (contents w) itss n =
      (if contents w = [] then [] else opened crc (contents w) (recov crc itss n))"
    then have "contents w' = ds @ [(fst c, encs crc ?f)]" using w' segs r by (simp add: opened_def)
    then have "log_holds crc (contents w') (oits @ [?f]) (length (encs crc ?f))"
      using segs(3) by (simp add: log_holds_snoc)
    then show ?thesis
      using ok r by (intro exI [of _ "oits @ [?f]"] exI [of _ "length (encs crc ?f)"])
        (simp add: log_of_def recov_snoc fits_all)
  next
    assume "contents w \<noteq> [] \<and> last (recov crc itss n) = [] \<and> fixed crc True (contents w) itss n = butlast (contents w)"
    then have f: "?f = []" and "contents w' = ds" using w' segs r by simp_all
    then have "log_holds crc (contents w') oits (length (encs crc (last oits)))"
      using segs(3) by (intro log_holds_full) simp
    moreover have "recov crc oits (length (encs crc (last oits))) = oits" by (auto simp: recov_def fits_all)
    ultimately show ?thesis
      using ok r f by (intro exI [of _ oits] exI [of _ "length (encs crc (last oits))"]) (simp add: log_of_def)
  qed
qed

lemma contents_set: "segs w = a @ [(i, s)] \<Longrightarrow> contents w = map (\<lambda>(i, s). (i, sf_data s)) a @ [(i, sf_data s)]"
  by (simp add: contents_def)

lemma contents_nil: "contents w = [] \<longleftrightarrow> segs w = []"
  by (simp add: contents_def)

lemma recov_ok:
  assumes l: "log_of crc dz w itss n"
  shows "list_all (item_ok dz) (concat (recov crc itss n))" "asc None (map fst (concat (recov crc itss n)))"
proof -
  show "list_all (item_ok dz) (concat (recov crc itss n))"
  proof (cases itss rule: rev_cases)
    case (snoc a its)
    have "set (fits crc n its) \<subseteq> set its" by (rule fits_sub)
    then show ?thesis using l unfolding log_of_def list_all_iff snoc recov_snoc by auto
  qed (simp add: recov_def)
  show "asc None (map fst (concat (recov crc itss n)))" by (rule asc_recov [OF l])
qed

lemma opened_log:
  assumes l: "log_of crc dz w itss n" and w': "contents w' = opened crc (contents w) (recov crc itss n)"
  shows "\<exists>itss' n'. log_of crc dz w' itss' n' \<and> concat (recov crc itss' n') = concat (recov crc itss n)"
  using l
proof (cases rule: log_of_cases)
  case empty
  then have "log_holds crc (contents w') [[]] 0" using w' by (simp add: opened_def)
  then show ?thesis using empty by (intro exI [of _ "[[]]"] exI [of _ 0]) (simp add: log_of_def recov_def)
next
  case (segs ds c oits its)
  let ?f = "fits crc n its"
  have r: "recov crc itss n = oits @ [?f]" using segs by (simp add: recov_snoc)
  have "log_holds crc (contents w') (oits @ [?f]) (length (encs crc ?f))"
    using w' segs r by (simp add: opened_def log_holds_snoc)
  then show ?thesis using recov_ok [OF l] unfolding r
    by (intro exI [of _ "oits @ [?f]"] exI [of _ "length (encs crc ?f)"]) (simp add: log_of_def recov_snoc fits_all)
qed

text \<open>A directory that is ready for writing, up to the durability of an empty last segment.\<close>

definition ready :: "disk \<Rightarrow> bool" where
  "ready w \<longleftrightarrow> sorted_wrt (<) (map fst (segs w)) \<and> all_synced w \<and> links_ok w"

lemma linked_links: "all_linked w \<Longrightarrow> links_ok w"
  unfolding all_linked_def links_ok_def split_def by (meson in_set_butlastD last_in_set)

lemma open_segment_step:
  assumes l: "log_of crc dz w0 itss n" and so: "sorted_wrt (<) (map fst (contents w0))"
    and w: "contents w = fixed crc True (contents w0) itss n" and sy: "all_synced w" "all_linked w"
    and i: "i = (if contents w0 = [] then 1 else fst (last (contents w0)))"
    and run: "open_segment i w = (res, w')"
  shows "set (faults w') \<subseteq> set (faults w) \<and> manifest w' = manifest w \<and> manifest_dur w' = manifest_dur w \<and>
    (res = Inr () \<and> contents w' = opened crc (contents w0) (recov crc itss n) \<and> ready w' \<or>
     (\<exists>e. io_fail w e \<and> res = Inl (from_io e) \<and>
        (same_dir w w' \<or> contents w' = opened crc (contents w0) (recov crc itss n) \<and> ready w')))"
proof -
  let ?e = "\<lparr>sf_data = [], sf_synced = 0, sf_linked = False\<rparr>"
  let ?in = "\<lambda>w. if map_of (segs w) i = None then seg_insert i ?e w else w"
  have ins: "contents (?in v) = opened crc (contents w0) (recov crc itss n) \<and> ready (?in v) \<and> faults (?in v) = faults v \<and>
      manifest (?in v) = manifest v \<and> manifest_dur (?in v) = manifest_dur v" if v: "same_dir w v" for v
  proof -
    have cv: "contents v = contents w" and sv: "all_synced v" "all_linked v" and sg: "segs v = segs w"
      using v sy by (auto simp: same_dir_def contents_def all_synced_def all_linked_def)
    have fi: "map fst (segs v) = map fst (contents w)" using sg by simp
    have new: "contents (seg_insert i ?e v) = contents v @ [(i, [])] \<and> ready (seg_insert i ?e v)"
      if b: "\<forall>y \<in> set (segs v). fst y < i" and sov: "sorted_wrt (<) (map fst (segs v))"
    proof -
      have s2: "segs (seg_insert i ?e v) = segs v @ [(i, ?e)]" by (rule seg_insert_end [OF b])
      have "sorted_wrt (<) (map fst (segs v) @ [i])" using sov b by (simp add: sorted_wrt_append)
      then show ?thesis
        using sv s2 unfolding ready_def contents_def all_synced_def all_linked_def links_ok_def by auto
    qed
    have fr: "faults (seg_insert i ?e v) = faults v" "manifest (seg_insert i ?e v) = manifest v"
      "manifest_dur (seg_insert i ?e v) = manifest_dur v" by (simp_all add: seg_insert_def)
    from fixed_cases [OF l] show ?thesis
    proof
      assume f: "fixed crc True (contents w0) itss n =
        (if contents w0 = [] then [] else opened crc (contents w0) (recov crc itss n))"
      show ?thesis
      proof (cases "contents w0 = []")
        case True
        then have "segs v = []" using f w sg by (simp add: contents_nil)
        then show ?thesis using new fr i True by (simp add: opened_def contents_def)
      next
        case False
        then have c: "contents v = opened crc (contents w0) (recov crc itss n)" using f w cv by simp
        have k: "map fst (contents v) = map fst (contents w0)"
          unfolding c using False by (rule opened_fst)
        have "i \<in> set (map fst (contents v))" using False i by (simp add: c opened_def)
        then have "i \<in> fst ` set (segs v)" by (simp only: contents_fst set_map)
        then have "map_of (segs v) i \<noteq> None" by (simp add: map_of_eq_None_iff)
        moreover have "ready v"
        proof -
          have "sorted_wrt (<) (map fst (segs v))" using so k by simp
          moreover have "links_ok v" by (rule linked_links [OF sv(2)])
          ultimately show ?thesis using sv(1) by (simp add: ready_def)
        qed
        ultimately show ?thesis using c by auto
      qed
    next
      assume f: "contents w0 \<noteq> [] \<and> last (recov crc itss n) = [] \<and> fixed crc True (contents w0) itss n = butlast (contents w0)"
      then have c: "contents v = butlast (contents w0)" using w cv by simp
      have sp: "map fst (contents w0) = map fst (segs v) @ [i]"
      proof -
        have "map fst (contents w0) = map fst (butlast (contents w0) @ [last (contents w0)])" using f by simp
        then show ?thesis using c i f by (metis (no_types, lifting) contents_fst list.simps(8) list.simps(9) map_append)
      qed
      then have sov: "sorted_wrt (<) (map fst (segs v))" and b: "\<forall>y \<in> set (segs v). fst y < i"
        using so unfolding sp by (auto simp: sorted_wrt_append)
      have "map_of (segs v) i = None" using b by (fastforce simp: map_of_eq_None_iff)
      moreover have "contents v @ [(i, [])] = opened crc (contents w0) (recov crc itss n)"
        using f c i by (simp add: opened_def)
      ultimately show ?thesis using new [OF b sov] fr by simp
    qed
  qed
  from run show ?thesis unfolding open_segment_def Let_def
  proof (rule try_sys_then)
    fix w1 assume s1: "same_dir w w1" and r1: "try_sys (?in w1) (\<lambda>w. (Inr (), w)) = (res, w')"
    note i1 = ins [OF s1]
    from r1 show ?thesis
    proof (rule try_sys_then)
      fix w2 assume s2: "same_dir (?in w1) w2" and "(Inr (), w2) = (res, w')"
      then show ?thesis using i1 s1 by (auto simp: same_dir_def contents_def ready_def all_synced_def links_ok_def)
    next
      fix e assume s2: "same_dir (?in w1) w'" and io: "io_fail (?in w1) e" and r: "res = Inl (from_io e)"
      have "io_fail w e" using io i1 s1 by (auto simp: io_fail_def same_dir_def)
      moreover have "contents w' = contents (?in w1)" "ready w'" "manifest w' = manifest w" "manifest_dur w' = manifest_dur w"
        "set (faults w') \<subseteq> set (faults w)"
        using s2 i1 s1 by (auto simp: same_dir_def contents_def ready_def all_synced_def links_ok_def)
      ultimately show ?thesis using i1 r by auto
    qed
  next
    fix e assume "same_dir w w'" "io_fail w e" "res = Inl (from_io e)"
    then show ?thesis by (auto simp: same_dir_def)
  qed
qed

end
