(* ===== verification/Ramwal_Reach.thy ===== *)
theory Ramwal_Reach
  imports Ramwal_Open
begin

text \<open>
  Opening a log, and every state a log can reach: any configurations, operations, failing system
  calls and machine crashes, in any order.
\<close>

section \<open>The instance that opening creates\<close>

lemma map_filter_mem:
  "(i, l) \<in> set (List.map_filter (\<lambda>(s, l). map_option (Pair s) l) rs) \<longleftrightarrow> (i, Some l) \<in> set rs"
  by (force simp: List.map_filter_def)

lemma reports_mem: "(i, x) \<in> set (reports cs R) \<longleftrightarrow> (\<exists>d its. ((i, d), its) \<in> set (zip cs R) \<and> x = last_of None (map fst its))"
  by (force simp: reports_def)

lemma zip_distinct:
  assumes "distinct (map fst cs)" "((i, d), a) \<in> set (zip cs R)" "((i, d'), b) \<in> set (zip cs R)"
  shows "a = b"
proof -
  obtain k where k: "k < length cs" "k < length R" "cs ! k = (i, d)" "R ! k = a" using assms(2) by (auto simp: set_zip)
  obtain m where m: "m < length cs" "m < length R" "cs ! m = (i, d')" "R ! m = b" using assms(3) by (auto simp: set_zip)
  have "k = m" using assms(1) k m by (metis distinct_conv_nth fst_conv length_map nth_map)
  with k m show ?thesis by simp
qed

lemma asc_sub:
  assumes "asc None (map fst (concat R))" "its \<in> set R"
  shows "asc None (map fst its)"
proof -
  obtain a b where "R = a @ its # b" using assms(2) by (metis split_list)
  then have "asc (last_of None (map fst (concat a))) (map fst its)" using assms(1) by (simp add: asc_append)
  then show ?thesis by (rule asc_None)
qed

lemma reports_closed:
  assumes d: "distinct (map fst cs)" and z: "((i, e), its) \<in> set (zip cs R)" and a: "asc None (map fst (concat R))"
    and l: "closed_last (List.map_filter (\<lambda>(s, l). map_option (Pair s) l) (reports cs R)) i = Some l"
    and it: "it \<in> set its"
  shows "fst it \<le> l"
proof -
  have "(i, Some l) \<in> set (reports cs R)"
    by (rule iffD1 [OF map_filter_mem]) (rule conjunct1 [OF closed_last_Some [OF l]])
  then obtain e' its' where z': "((i, e'), its') \<in> set (zip cs R)" "Some l = last_of None (map fst its')"
    unfolding reports_mem by blast
  have "its' = its" by (rule zip_distinct [OF d z'(1) z])
  then have "last_of None (map fst its) = Some l" using z'(2) by simp
  then have h: "high (map fst its) = l" by (simp add: high_def or_zero_def)
  have "its \<in> set R" using z by (meson set_zip_rightD)
  from asc_high [OF asc_sub [OF a this], of "fst it"] it h show ?thesis by simp
qed

lemma split_ready:
  assumes "contents w = ds @ [(i, d)]"
  obtains olds s where "segs w = olds @ [(i, s)]" "sf_data s = d" "map (\<lambda>(i, s). (i, sf_data s)) olds = ds"
proof -
  have "segs w \<noteq> []" using assms by (auto simp: contents_def)
  then obtain olds x where x: "segs w = olds @ [x]" by (metis rev_exhaust)
  then show ?thesis using that [of olds "snd x"] assms by (cases x) (auto simp: contents_def)
qed

lemma zip_olds:
  assumes "length olds = length oits"
  shows "map fst (zip olds oits) = olds" "map snd (zip olds oits) = oits"
  using assms by simp_all

lemma start_lsn_above:
  assumes "asc None ls" "l \<in> set ls"
  shows "start_lsn (last_of None ls) = - 1 \<or> l < start_lsn (last_of None ls)"
proof -
  have lo: "last_of None ls = Some (high ls)" using assms(2) by (auto simp: high_def or_zero_def last_of_def)
  have le: "l \<le> high ls" by (rule asc_high [OF assms])
  show ?thesis
  proof (cases "lsn_checked_next (high ls)")
    case None
    then show ?thesis by (simp add: start_lsn_def lo)
  next
    case (Some m)
    then have "m = high ls + 1" "unat (high ls) + 1 < 2 ^ 64" by (auto simp: lsn_checked_next_def checked_add_Some)
    then have "high ls < m" by (auto simp: word_less_nat_alt unat_word_ariths)
    with le have "l < m" by order
    then show ?thesis using Some by (simp add: start_lsn_def lo)
  qed
qed

lemma opened_split:
  assumes "log_of crc dz w0 itss n"
  shows "\<exists>ds oits its. opened crc (contents w0) (recov crc itss n) =
      ds @ [(if contents w0 = [] then 1 else fst (last (contents w0)), encs crc its)] \<and>
    map snd ds = map (encs crc) oits \<and> concat oits @ its = concat (recov crc itss n) \<and>
    set (zip ds oits) \<subseteq> set (zip (contents w0) (recov crc itss n))"
  using assms
proof (cases rule: log_of_cases)
  case empty
  then show ?thesis by (intro exI [of _ "[]"]) (simp add: opened_def recov_def)
next
  case (segs ds c oits its)
  have len: "length ds = length oits" using segs(3) by (metis length_map)
  show ?thesis
    by (intro exI [of _ ds] exI [of _ oits] exI [of _ "fits crc n its"])
      (use segs len in \<open>auto simp: opened_def recov_snoc\<close>)
qed

lemma open_wal_rep:
  assumes l: "log_of crc dz w0 itss n" and d0: "distinct (map fst (contents w0))"
    and w: "contents w = opened crc (contents w0) (recov crc itss n)" and re: "ready w"
    and m: "m_ok (manifest w)" "manifest_dur w = manifest w"
      "mval (manifest w) \<le> high (map fst (concat (recov crc itss n)))"
    and rc: "rr_last (rec_report rc) = last_of None (map fst (concat (recov crc itss n)))"
      "rr_reports (rec_report rc) = reports (contents w0) (recov crc itss n)"
      "rec_segment rc = (if contents w0 = [] then 1 else fst (last (contents w0)))"
  shows "\<exists>xs s its. up_rep crc dz (open_wal c rc (mval (manifest w))) w xs s its (length (encs crc its)) (length its) \<and>
    concat (map snd xs) @ its = concat (recov crc itss n)"
proof -
  let ?R = "recov crc itss n" and ?g = "open_wal c rc (mval (manifest w))"
  define i where "i = rec_segment rc"
  obtain ds oits its where op1: "opened crc (contents w0) ?R = ds @ [(i, encs crc its)]"
    and op3: "map snd ds = map (encs crc) oits" and op4: "concat oits @ its = concat ?R"
    and op5: "set (zip ds oits) \<subseteq> set (zip (contents w0) ?R)"
    using opened_split [OF l, folded rc(3), folded i_def] by (elim exE conjE) (rule that)
  have cw: "contents w = ds @ [(i, encs crc its)]" using w op1 by simp
  obtain olds s where sg: "segs w = olds @ [(i, s)]" "sf_data s = encs crc its" "map (\<lambda>(i, s). (i, sf_data s)) olds = ds"
    by (rule split_ready [OF cw])
  have len: "length olds = length oits" using arg_cong [OF sg(3), of length] arg_cong [OF op3, of length] by simp
  define xs where "xs = zip olds oits"
  note z = zip_olds [OF len, folded xs_def]
  have so: "sorted_wrt (<) (map fst (segs w))" and sy: "all_synced w" and ln: "links_ok w" using re by (simp_all add: ready_def)
  have data: "sf_data (snd (fst x)) = encs crc (snd x)" "((fst (fst x), sf_data (snd (fst x))), snd x) \<in> set (zip ds oits)"
    if mem: "x \<in> set xs" for x
  proof -
    obtain k where k: "k < length olds" "x = (olds ! k, oits ! k)" using mem len by (auto simp: xs_def set_zip)
    have dk: "ds ! k = (fst (olds ! k), sf_data (snd (olds ! k)))" using k(1) sg(3) by (auto simp: split_def)
    have ld: "length ds = length oits" using arg_cong [OF op3, of length] by simp
    have "map snd ds ! k = map (encs crc) oits ! k" using op3 by simp
    then show "sf_data (snd (fst x)) = encs crc (snd x)" using k len dk ld by simp
    show "((fst (fst x), sf_data (snd (fst x))), snd x) \<in> set (zip ds oits)"
      using k len dk ld by (auto simp: set_zip intro!: exI [of _ k])
  qed
  have syn: "sf_synced s = length (sf_data s)" "\<forall>x \<in> set olds. sf_synced (snd x) = length (sf_data (snd x))"
    using sy sg(1) by (auto simp: all_synced_def)
  have lnk: "\<forall>x \<in> set olds. sf_linked (snd x)" "sf_linked s \<or> its = []"
    using ln sg by (auto simp: links_ok_def)
  have oo: "olds_ok crc xs"
    unfolding olds_ok_def
  proof (clarify)
    fix j f q assume x: "((j, f), q) \<in> set xs"
    then have "fst ((j, f), q) \<in> set (map fst xs)" unfolding set_map by (rule imageI)
    then have "(j, f) \<in> set olds" unfolding z(1) by simp
    then show "sf_data f = encs crc q \<and> sf_synced f = length (sf_data f)"
      using data(1) [OF x] syn(2) by fastforce
  qed
  have R: "concat (map snd xs) @ its = concat ?R" using z op4 by simp
  have as: "asc None (map fst (concat (map snd xs) @ its))" unfolding R by (rule recov_ok(2) [OF l])
  have dr: "disk_rep crc dz w (w_seg ?g) (w_buf ?g) xs s its (length (encs crc its)) (length its)"
    using sg z so oo as i_def syn(1) recov_ok(1) [OF l, folded R]
    by (intro disk_repI) (auto simp: open_wal_def)
  have hi: "or_zero (rr_last (rec_report rc)) = high (map fst (concat (map snd xs) @ its))"
    unfolding R rc(1) high_def ..
  have la: "linked_above (mval (manifest w)) xs s its"
  proof (cases "mval (manifest w) = 0")
    case False
    have "concat (map snd xs) @ its \<noteq> []"
    proof
      assume "concat (map snd xs) @ its = []"
      then have "concat ?R = []" using R by simp
      then show False using m(3) False by (simp only: list.map high_simps word_le_0_iff)
    qed
    from high_item [OF this] obtain it where it: "it \<in> set (concat (map snd xs) @ its)"
      "fst it = high (map fst (concat (map snd xs) @ its))" by blast
    have le: "mval (manifest w) \<le> fst it" using m(3) unfolding it(2) R .
    show ?thesis
    proof (cases "it \<in> set its")
      case True
      then show ?thesis using lnk(2) le unfolding linked_above_def by auto
    next
      case False
      then obtain x where x: "x \<in> set xs" "it \<in> set (snd x)" using it(1) by auto
      then have "fst x \<in> set (map fst xs)" by simp
      then have "fst x \<in> set olds" unfolding z(1) .
      then show ?thesis using linked_aboveI [OF x(1) _ x(2) le] lnk(1) by blast
    qed
  qed (simp add: linked_above_def)
  have cl: "closed_ok (closed_segments ?g) xs"
    unfolding closed_ok_def
  proof (clarify)
    fix j f q lst i1 i2 i3
    assume x: "((j, f), q) \<in> set xs" and c: "closed_last (closed_segments ?g) j = Some lst" and it: "(i1, i2, i3) \<in> set q"
    have zz: "((j, sf_data f), q) \<in> set (zip (contents w0) ?R)" using subsetD [OF op5 data(2) [OF x]] by simp
    have "closed_last (List.map_filter (\<lambda>(s, l). map_option (Pair s) l) (reports (contents w0) ?R)) j = Some lst"
      using c rc(2) by (simp add: open_wal_def)
    from reports_closed [OF d0 zz recov_ok(2) [OF l] this it] show "fst (i1, i2, i3) \<le> lst" .
  qed
  have cnt: "lsn_counter ?g = - 1 \<or> (\<forall>it \<in> set (concat (map snd xs) @ its). fst it < lsn_counter ?g)"
  proof -
    have lc: "lsn_counter ?g = start_lsn (last_of None (map fst (concat (map snd xs) @ its)))"
      unfolding R by (simp add: open_wal_def rc(1))
    have "fst it \<in> set (map fst (concat (map snd xs) @ its))" if "it \<in> set (concat (map snd xs) @ its)" for it
      unfolding set_map using that by (rule imageI)
    then show ?thesis unfolding lc using start_lsn_above [OF as] by blast
  qed
  have "mem_rep ?g w xs s its (length its)"
  proof (rule mem_repI)
    show "w_durable ?g = high (map fst (concat (map snd xs) @ take (length its) its))"
      using hi by (simp add: open_wal_def)
    show "mval (manifest w) \<le> w_durable ?g" using m(3) hi R by (simp add: open_wal_def)
    show "w_ckpt ?g \<le> mval (manifest w)" by (simp add: open_wal_def)
    show "linked_above (mval (manifest_dur w)) xs s (take (length its) its)" using la m(2) by simp
  qed (use m cnt cl in simp_all)
  then have "up_rep crc dz ?g w xs s its (length (encs crc its)) (length its)"
    using dr m(2) hi by (intro up_repI) (auto simp: open_rep_def open_wal_def)
  with R show ?thesis by blast
qed

section \<open>Opening\<close>

lemma ready_remove:
  assumes r: "ready w" and sg: "segs w = olds @ [(a, s)]" and i: "i \<noteq> a"
  shows "ready (seg_remove i w) \<and> (\<exists>olds'. segs (seg_remove i w) = olds' @ [(a, s)])"
proof -
  let ?o = "filter (\<lambda>(j, _). j \<noteq> i) olds"
  have s': "segs (seg_remove i w) = ?o @ [(a, s)]" using sg i by (simp add: seg_remove_def)
  have "sorted_wrt (<) (map fst ?o @ [a])"
    using r sg by (auto simp: ready_def sorted_wrt_append sorted_wrt_map sorted_wrt_filter)
  then show ?thesis using r sg s' unfolding ready_def all_synced_def links_ok_def by auto
qed

lemma retention_ready:
  assumes "ready w" "segs w = olds @ [(a, s)]" "retention_loop mx safe a cl sizes over w = (res, w')"
  shows "ready w' \<and> manifest w' = manifest w \<and> manifest_dur w' = manifest_dur w"
  using assms
proof (induction sizes arbitrary: over w olds)
  case (Cons c rest)
  obtain i sz where c: "c = (i, sz)" by fastforce
  show ?case
  proof (cases "mx > 0 \<and> over = 0")
    case True
    then show ?thesis using Cons.prems c by auto
  next
    case go: False
    show ?thesis
    proof (cases "i \<noteq> a \<and> (\<exists>l. closed_last cl i = Some l \<and> l < safe)")
      case False
      then have "retention_loop mx safe a cl rest over w = (res, w')"
        using Cons.prems(3) go by (auto simp: c not_less split: if_splits option.splits)
      from Cons.IH [OF Cons.prems(1,2) this] show ?thesis .
    next
      case True
      then obtain l where l: "i \<noteq> a" "closed_last cl i = Some l" "l < safe" by blast
      have "try_sys w (\<lambda>w. retention_loop mx safe a cl rest (over - sz) (seg_remove i w)) = (res, w')"
        using Cons.prems(3) go l leD by (auto simp: c split: if_splits)
      then show ?thesis
      proof (rule try_sys_then)
        fix w1 assume s1: "same_dir w w1" and r1: "retention_loop mx safe a cl rest (over - sz) (seg_remove i w1) = (res, w')"
        have "ready w1" "segs w1 = olds @ [(a, s)]"
          using Cons.prems(1,2) s1 by (auto simp: same_dir_def ready_def all_synced_def links_ok_def)
        from ready_remove [OF this l(1)] obtain olds' where
          "ready (seg_remove i w1)" "segs (seg_remove i w1) = olds' @ [(a, s)]" by blast
        from Cons.IH [OF this r1] show ?thesis using s1 by (simp add: same_dir_def seg_remove_def)
      next
        assume "same_dir w w'"
        then show ?thesis using Cons.prems(1) by (auto simp: same_dir_def ready_def all_synced_def links_ok_def)
      qed
    qed
  qed
qed simp

lemma run_retention_ready:
  assumes r: "ready w" "segs w = olds @ [(w_seg g, s)]" and run: "run_retention safe g w = (res, g', w')"
  shows "ready w' \<and> manifest w' = manifest w \<and> manifest_dur w' = manifest_dur w"
proof (cases "safe = 0 \<or> locked g \<or> w_state g = PoisonedState")
  case True
  then show ?thesis using run r by (auto simp: run_retention_def run_retention_raw_def split: if_splits)
next
  case False
  let ?mx = "retention_max g"
  define k where "k = (\<lambda>w. let sizes = list_segs_with_size w; total = sum_list (map snd sizes)
          in if ?mx > 0 \<and> total \<le> ?mx then (Inr (), w)
             else retention_loop ?mx safe (w_seg g) (closed_segments g) sizes (if ?mx > 0 then total - ?mx else 0) w)"
  obtain q w1 where t: "try_sys w k = (q, w1)" by fastforce
  have e: "w' = w1"
    using run False t unfolding run_retention_def run_retention_raw_def k_def [symmetric] by (auto split: sum.splits)
  from t show ?thesis unfolding e
  proof (rule try_sys_then)
    fix w2 assume s2: "same_dir w w2" and k2: "k w2 = (q, w1)"
    have r2: "ready w2" "segs w2 = olds @ [(w_seg g, s)]"
      using r s2 by (auto simp: same_dir_def ready_def all_synced_def links_ok_def)
    show "ready w1 \<and> manifest w1 = manifest w \<and> manifest_dur w1 = manifest_dur w"
    proof (cases "?mx > 0 \<and> sum_list (map snd (list_segs_with_size w2)) \<le> ?mx")
      case True
      then show ?thesis using k2 r2 s2 by (auto simp: k_def Let_def same_dir_def)
    next
      case False
      then have "retention_loop ?mx safe (w_seg g) (closed_segments g) (list_segs_with_size w2)
          (if ?mx > 0 then sum_list (map snd (list_segs_with_size w2)) - ?mx else 0) w2 = (q, w1)"
        using k2 by (simp add: k_def Let_def split: if_splits)
      from retention_ready [OF r2 this] s2 show ?thesis by (simp add: same_dir_def)
    qed
  next
    assume "same_dir w w1"
    then show "ready w1 \<and> manifest w1 = manifest w \<and> manifest_dur w1 = manifest_dur w"
      using r by (auto simp: same_dir_def ready_def all_synced_def links_ok_def)
  qed
qed

text \<open>An open log whose bytes are all synced and whose directory is ready can be closed again.\<close>

lemma up_down:
  assumes u: "up_rep crc dz g w xs s its n j" and o: "w_state g = Open" and b: "w_buf g = []" and r: "ready w"
  shows "down_inv crc dz w"
proof -
  note q = up_repD [OF u]
  note d = disk_repD [OF q(1)]
  note op = q(3) [OF o, unfolded open_rep_def]
  let ?n = "length (encs crc its)"
  have data: "sf_data s = encs crc its" using d(4) op b by simp
  have "contents w = map (\<lambda>(i, s). (i, sf_data s)) (map fst xs) @ [(w_seg g, sf_data s)]" using d(1) by (simp add: contents_def)
  moreover have "map snd (map (\<lambda>(i, s). (i, sf_data s)) (map fst xs)) = map (encs crc) (map snd xs)"
    using olds_data [OF d(3)] by (simp add: comp_def split_def)
  ultimately have "log_holds crc (contents w) (map snd xs @ [its]) ?n" by (simp add: log_holds_snoc data)
  then have l: "log_of crc dz w (map snd xs @ [its]) ?n" using d(6,7) by (simp add: log_of_def)
  have "high (map fst (concat (map snd xs) @ take j its)) \<le> high (map fst (concat (map snd xs) @ take j its @ drop j its))"
    by (rule high_mono_app) (use d(7) in simp)
  then have h: "mval (manifest w) \<le> high (map fst (concat (recov crc (map snd xs @ [its]) ?n)))"
    using mem_repD(1,5) [OF q(2)] by (simp add: recov_snoc fits_all)
  show ?thesis
    unfolding down_inv_def using r l h mem_repD(3) [OF q(2)] op unfolding ready_def by blast
qed

lemma down_of:
  assumes "ready w" "m_ok (manifest w)" "manifest_dur w = manifest w"
    "\<exists>itss' n'. log_of crc dz w itss' n' \<and> concat (recov crc itss' n') = rs" "mval (manifest w) \<le> high (map fst rs)"
  shows "down_inv crc dz w"
proof -
  from assms(4) obtain itss' n' where l: "log_of crc dz w itss' n'" and r: "concat (recov crc itss' n') = rs" by blast
  have "mval (manifest w) \<le> high (map fst (concat (recov crc itss' n')))" unfolding r by (rule assms(5))
  with l show ?thesis using assms(1-3) unfolding down_inv_def ready_def by blast
qed

lemma fixed_sorted:
  assumes "sorted_wrt (<) (map fst (contents w0))" "log_of crc dz w0 itss n"
    "contents w = fixed crc True (contents w0) itss n"
  shows "sorted_wrt (<) (map fst (segs w))"
proof -
  from fixed_cases [OF assms(2)] have "sorted_wrt (<) (map fst (contents w))"
  proof
    assume f: "fixed crc True (contents w0) itss n = (if contents w0 = [] then [] else opened crc (contents w0) (recov crc itss n))"
    show ?thesis
    proof (cases "contents w0 = []")
      case True
      then have "contents w = []" using f assms(3) by simp
      then show ?thesis by (simp only: list.map sorted_wrt.simps)
    next
      case False
      then have "contents w = opened crc (contents w0) (recov crc itss n)" using f assms(3) by simp
      then show ?thesis using opened_fst [OF False] assms(1) by (simp only:)
    qed
  next
    assume f: "contents w0 \<noteq> [] \<and> last (recov crc itss n) = [] \<and> fixed crc True (contents w0) itss n = butlast (contents w0)"
    then have c: "contents w = butlast (contents w0)" using assms(3) by simp
    have "map fst (contents w0) = map fst (butlast (contents w0)) @ [fst (last (contents w0))]"
      using f by (metis append_butlast_last_id list.simps(8) list.simps(9) map_append)
    then show ?thesis using assms(1) unfolding c by (simp only: sorted_wrt_append)
  qed
  then show ?thesis by (simp only: contents_fst)
qed

definition open_ok ::
  "(bytes \<Rightarrow> u32) \<Rightarrow> (bytes \<Rightarrow> string + bytes) \<Rightarrow> wal_item list \<Rightarrow> disk \<Rightarrow> wal_error + wal \<Rightarrow> disk \<Rightarrow> bool" where
  "open_ok crc dz rs w res w' \<longleftrightarrow>
     (\<exists>g. res = Inr g \<and> up_inv crc dz g w' \<and> w_state g = Open \<and> \<not> locked g \<and> w_durable g = high (map fst rs) \<and>
        rr_records (rec_report (w_recovery g)) = map (item_rec dz) rs)
     \<or> (\<exists>e err. io_fail w e \<and> res = Inl err \<and> down_inv crc dz w')"

lemma open_recovered_rep:
  assumes l: "log_of crc dz w0 itss n" and so: "sorted_wrt (<) (map fst (contents w0))"
    and w: "contents w = fixed crc True (contents w0) itss n" and sy: "all_synced w" "all_linked w"
    and m: "m_ok (manifest w)" "manifest_dur w = manifest w"
      "mval (manifest w) \<le> high (map fst (concat (recov crc itss n)))"
    and rc: "rr_last (rec_report rc) = last_of None (map fst (concat (recov crc itss n)))"
      "rr_reports (rec_report rc) = reports (contents w0) (recov crc itss n)"
      "rec_segment rc = (if contents w0 = [] then 1 else fst (last (contents w0)))"
      "rr_records (rec_report rc) = map (item_rec dz) (concat (recov crc itss n))"
    and run: "open_recovered c rc (mval (manifest w)) w = (res, w')"
  shows "open_ok crc dz (concat (recov crc itss n)) w res w'"
proof -
  let ?rs = "concat (recov crc itss n)" and ?ck = "mval (manifest w)"
  let ?g = "open_wal c rc ?ck"
  have lst: "or_zero (rr_last (rec_report rc)) = high (map fst ?rs)" by (simp add: rc(1) high_def)
  have run1: "bind_io (open_segment (rec_segment rc) w) (\<lambda>_ w.
        if retention_max ?g > 0 then
          (case run_retention ?ck ?g w of (Err e, _, w) \<Rightarrow> (Inl e, w) | (_, g, w) \<Rightarrow> (Inr g, w))
        else (Inr ?g, w)) = (res, w')"
    using run leD [OF m(3)] unfolding open_recovered_def Let_def lst by simp
  obtain q w4 where os: "open_segment (rec_segment rc) w = (q, w4)" by fastforce
  note st = open_segment_step [OF l so w sy rc(3) os]
  have rw: "ready w" using fixed_sorted [OF so l w] sy linked_links by (simp add: ready_def)
  have mw: "manifest w4 = manifest w" "manifest_dur w4 = manifest w" using st m(2) by simp_all
  show ?thesis
  proof (cases q)
    case (Inl e)
    then have e: "res = Inl e" "w' = w4" using run1 os by (simp_all add: bind_io_def)
    from st Inl obtain e' where io: "io_fail w e'" and
      c: "same_dir w w4 \<or> contents w4 = opened crc (contents w0) (recov crc itss n) \<and> ready w4" by auto
    have "down_inv crc dz w4"
      using c
    proof
      assume s: "same_dir w w4"
      then have c4: "contents w4 = fixed crc True (contents w0) itss n" "ready w4"
        using w rw by (auto simp: same_dir_def contents_def ready_def all_synced_def links_ok_def)
      show ?thesis by (rule down_of [OF c4(2) _ _ fixed_log [OF l c4(1)]]) (use m mw in simp_all)
    next
      assume c4: "contents w4 = opened crc (contents w0) (recov crc itss n) \<and> ready w4"
      show ?thesis
        by (rule down_of [OF conjunct2 [OF c4] _ _ opened_log [OF l conjunct1 [OF c4]]]) (use m mw in simp_all)
    qed
    then show ?thesis using io e unfolding open_ok_def by blast
  next
    case (Inr u)
    have c4: "contents w4 = opened crc (contents w0) (recov crc itss n)" "ready w4" using st Inr by auto
    have d0: "distinct (map fst (contents w0))" using so by (simp only: strict_sorted_iff)
    obtain xs s its where up: "up_rep crc dz ?g w4 xs s its (length (encs crc its)) (length its)"
      "concat (map snd xs) @ its = ?rs"
      using open_wal_rep [OF l d0 c4 _ _ _ rc(1,2,3), of c] m mw by auto
    have g: "w_state ?g = Open" "\<not> locked ?g" "w_durable ?g = high (map fst ?rs)" "w_buf ?g = []"
      "rr_records (rec_report (w_recovery ?g)) = map (item_rec dz) ?rs" "w_ckpt ?g = ?ck"
      using lst rc(4) by (simp_all add: open_wal_def)
    show ?thesis
    proof (cases "retention_max ?g > 0")
      case False
      then have "res = Inr ?g" "w' = w4" using run1 os Inr by (simp_all add: bind_io_def)
      then show ?thesis using up_invI [OF up(1)] g unfolding open_ok_def by blast
    next
      case True
      obtain r g5 w5 where rr: "run_retention ?ck ?g w4 = (r, g5, w5)" by (metis surj_pair)
      have raw: "run_retention ?ck ?g w4 = (Ok (), ?g, w4) \<and> ?ck = 0 \<or> run_retention_raw (retention_max ?g) ?ck ?g w4 = (r, g5, w5)"
        using rr by (auto simp: run_retention_def split: if_splits)
      have re: "g5 = ?g \<and> (\<exists>xs'. up_rep crc dz ?g w5 xs' s its (length (encs crc its)) (length its)) \<and>
          (r = Ok () \<or> (\<exists>e. io_fail w4 e))"
        using raw
      proof
        assume "run_retention ?ck ?g w4 = (Ok (), ?g, w4) \<and> ?ck = 0"
        then show ?thesis using rr up(1) by auto
      next
        assume raw: "run_retention_raw (retention_max ?g) ?ck ?g w4 = (r, g5, w5)"
        show ?thesis using run_retention_raw_rep [OF up(1) _ raw] g(1,2,6) by auto
      qed
      then obtain xs' where xs': "up_rep crc dz ?g w5 xs' s its (length (encs crc its)) (length its)" and g5: "g5 = ?g" by blast
      have rd: "ready w5"
        using run_retention_ready [OF c4(2) disk_repD(1) [OF up_repD(1) [OF up(1)]] rr] by blast
      show ?thesis
      proof (cases "\<exists>e. r = Err e")
        case False
        then have "res = Inr ?g" "w' = w5"
          using run1 os Inr True rr g5 by (auto simp: bind_io_def split: outcome.splits)
        then show ?thesis using up_invI [OF xs'] g unfolding open_ok_def by blast
      next
        case True
        then obtain e where "r = Err e" by blast
        then have e: "res = Inl e" "w' = w5"
          using run1 os Inr rr \<open>retention_max ?g > 0\<close> by (simp_all add: bind_io_def)
        obtain e' where "io_fail w4 e'" using re \<open>r = Err e\<close> by auto
        then have "io_fail w e'" using st by (auto simp: io_fail_def)
        then show ?thesis using up_down [OF xs' g(1,4) rd] e unfolding open_ok_def by blast
      qed
    qed
  qed
qed

lemma reports_last:
  assumes "log_of crc dz w itss n"
  shows "(if reports (contents w) (recov crc itss n) = [] then 1 else fst (last (reports (contents w) (recov crc itss n)))) =
    (if contents w = [] then 1 else fst (last (contents w)))"
  using assms
proof (cases rule: log_of_cases)
  case empty
  then show ?thesis by (simp add: reports_def)
next
  case (segs ds c oits its)
  have "length ds = length oits" using arg_cong [OF segs(3), of length] by simp
  then show ?thesis using segs by (simp add: reports_def recov_snoc)
qed

lemma read_manifest_step:
  assumes "m_ok (manifest w)" "read_manifest w = (res, w')"
  shows "same_dir w w' \<and> (res = Inr (mval (manifest w)) \<or> (\<exists>e. io_fail w e \<and> res = Inl (from_io e)))"
proof (cases "manifest w")
  case None
  then show ?thesis using assms(2) by (simp add: read_manifest_def)
next
  case (Some t)
  then obtain n where t: "t = manifest_text n" using assms(1) by (auto simp: m_ok_def)
  have "try_sys w (\<lambda>w. (Inr n, w)) = (res, w')" using assms(2) Some t by (simp add: read_manifest_def)
  then show ?thesis by (rule try_sys_then) (use Some t in auto)
qed

lemma recover_step:
  assumes l: "log_of crc dz w itss n" and so: "sorted_wrt (<) (map fst (contents w))"
    and run: "recover crc dz w = (res, w')"
  shows "dir_step w w' \<and>
    ((\<exists>rc. res = Inr rc \<and> contents w' = fixed crc True (contents w) itss n \<and>
       rr_last (rec_report rc) = last_of None (map fst (concat (recov crc itss n))) \<and>
       rr_reports (rec_report rc) = reports (contents w) (recov crc itss n) \<and>
       rec_segment rc = (if contents w = [] then 1 else fst (last (contents w))) \<and>
       rr_records (rec_report rc) = map (item_rec dz) (concat (recov crc itss n))) \<or>
     (\<exists>e. io_fail w e \<and> res = Inl (from_io e) \<and> contents w' \<in> {contents w, fixed crc True (contents w) itss n}))"
proof -
  obtain q w1 where q: "scan_dir crc dz True w = (q, w1)" by fastforce
  have d: "distinct (map fst (segs w))" using so by (simp add: strict_sorted_iff)
  have lg: "log_holds crc (contents w) itss n" "list_all (item_ok dz) (concat itss)" "asc None (map fst (concat itss))"
    using l by (simp_all only: log_of_def)
  note g = scan_dir_good [OF lg d q]
  show ?thesis
  proof (cases q)
    case (Inl e)
    then have "res = Inl e" "w' = w1" using run q by (simp_all add: recover_def recover_dir_def bind_io_def)
    then show ?thesis using g Inl by blast
  next
    case (Inr rep)
    then have ra: "rep_after crc dz (contents w) (recov crc itss n) n (empty_report (length (segs w))) rep"
      and c: "contents w1 = fixed crc True (contents w) itss n" and ds: "dir_step w w1" using g by auto
    have rr: "rr_reports rep = reports (contents w) (recov crc itss n)"
      "rr_last rep = last_of None (map fst (concat (recov crc itss n)))"
      "rr_records rep = map (item_rec dz) (concat (recov crc itss n))"
      using ra by (simp_all add: rep_after_def empty_report_def)
    have e: "res = Inr \<lparr>rec_report = rep, rec_segment = (if rr_reports rep = [] then 1 else fst (last (rr_reports rep))),
        rec_offset = rr_append rep\<rparr>" "w' = w1"
      using run q Inr by (simp_all add: recover_def recover_dir_def bind_io_def)
    have "dir_step w w'" using ds e(2) by simp
    moreover have "\<exists>rc. res = Inr rc \<and> contents w' = fixed crc True (contents w) itss n \<and>
       rr_last (rec_report rc) = last_of None (map fst (concat (recov crc itss n))) \<and>
       rr_reports (rec_report rc) = reports (contents w) (recov crc itss n) \<and>
       rec_segment rc = (if contents w = [] then 1 else fst (last (contents w))) \<and>
       rr_records (rec_report rc) = map (item_rec dz) (concat (recov crc itss n))"
      unfolding e(1,2) by (rule exI, rule conjI, rule refl) (use rr c reports_last [OF l] in \<open>simp only: recovery.select_convs simp_thms\<close>)
    ultimately show ?thesis by blast
  qed
qed

lemma open_log_rep:
  assumes dn: "down_rep crc dz w itss n" and cfg: "check_config c = None"
    and run: "open_log crc dz c w = (res, w')"
  shows "open_ok crc dz (concat (recov crc itss n)) w res w'"
proof -
  have run0: "try_sys w (\<lambda>w. bind_io (fsync_dir w) (\<lambda>_ w. bind_io (recover crc dz w) (\<lambda>rc w.
      bind_io (read_manifest w) (\<lambda>ckpt w. open_recovered c rc ckpt w)))) = (res, w')"
    using run cfg by (simp add: open_log_def)
  have bad: "open_ok crc dz (concat (recov crc itss n)) w (Inl err) v" if "io_fail w e" "down_inv crc dz v" for e err v
    using that unfolding open_ok_def by blast
  from run0 show ?thesis
  proof (rule try_sys_then)
    fix e assume "same_dir w w'" "io_fail w e" "res = Inl (from_io e)"
    then show ?thesis using bad same_dir_down [OF dn] down_inv_rep by blast
  next
    fix w1 assume s1: "same_dir w w1" and run1: "bind_io (fsync_dir w1) (\<lambda>_ w. bind_io (recover crc dz w) (\<lambda>rc w.
      bind_io (read_manifest w) (\<lambda>ckpt w. open_recovered c rc ckpt w))) = (res, w')"
    have d1: "down_rep crc dz w1 itss n" by (rule same_dir_down [OF dn s1])
    have io1: "io_fail w e" if "io_fail w1 e" for e using that s1 by (auto simp: same_dir_def io_fail_def)
    obtain q2 w2 where f: "fsync_dir w1 = (q2, w2)" by fastforce
    note fs = fsync_dir_step [OF f]
    have so1: "sorted_wrt (<) (map fst (contents w1))" and lg1: "log_of crc dz w1 itss n" and sy1: "all_synced w1"
      and m1: "m_ok (manifest w1)" "manifest_dur w1 = manifest w1" "mval (manifest w1) \<le> high (map fst (concat (recov crc itss n)))"
      and rd1: "ready w1"
      using d1 by (simp_all add: down_rep_def ready_def)
    from fsync_dir_cases [OF f] show ?thesis
    proof
      assume "\<exists>e. q2 = Inl (from_io e) \<and> same_dir w1 w2 \<and> io_fail w1 e"
      then obtain e where e: "q2 = Inl (from_io e)" "same_dir w1 w2" "io_fail w1 e" by blast
      then have "res = Inl (from_io e)" "w' = w2" using run1 f by (simp_all add: bind_io_def)
      then show ?thesis using bad [OF io1 [OF e(3)]] same_dir_down [OF d1 e(2)] down_inv_rep by blast
    next
      assume ok2: "q2 = Inr () \<and> segs w2 = linked_segs (segs w1) \<and> manifest w2 = manifest w1 \<and>
        manifest_dur w2 = manifest w1 \<and> set (faults w2) \<subseteq> set (faults w1)"
      have c2: "contents w2 = contents w1" "all_linked w2" "all_synced w2" "manifest_dur w2 = manifest w2" "manifest w2 = manifest w1"
        using fs ok2 sy1 by (auto simp: dir_step_def)
      have io2: "io_fail w e" if "io_fail w2 e" for e using that ok2 io1 by (auto simp: io_fail_def)
      have lg2: "log_of crc dz w2 itss n" using lg1 c2(1) by (simp add: log_of_def)
      have so2: "sorted_wrt (<) (map fst (contents w2))" using so1 c2(1) by (simp only:)
      have run2: "bind_io (recover crc dz w2) (\<lambda>rc w. bind_io (read_manifest w) (\<lambda>ckpt w. open_recovered c rc ckpt w)) = (res, w')"
        using run1 f ok2 by (simp add: bind_io_def)
      obtain q3 w3 where r: "recover crc dz w2 = (q3, w3)" by fastforce
      note rs = recover_step [OF lg2 so2 r]
      have st3: "all_synced w3" "all_linked w3" "manifest w3 = manifest w1" "manifest_dur w3 = manifest w3"
        "set (faults w3) \<subseteq> set (faults w2)"
        using rs c2 by (auto simp: dir_step_def)
      have rd3: "ready w3" if "contents w3 \<in> {contents w2, fixed crc True (contents w2) itss n}"
      proof -
        have "sorted_wrt (<) (map fst (segs w3))"
        proof (cases "contents w3 = contents w2")
          case True
          then have "map fst (segs w3) = map fst (contents w2)" by (metis contents_fst)
          then show ?thesis using so2 by (simp only:)
        next
          case False
          then show ?thesis using that fixed_sorted [OF so2 lg2] by blast
        qed
        then show ?thesis using st3 linked_links by (simp add: ready_def)
      qed
      have dn3: "down_inv crc dz w3" if c3: "contents w3 \<in> {contents w2, fixed crc True (contents w2) itss n}"
      proof -
        have "\<exists>itss' n'. log_of crc dz w3 itss' n' \<and> concat (recov crc itss' n') = concat (recov crc itss n)"
        proof (cases "contents w3 = contents w2")
          case True
          then show ?thesis using lg2 by (intro exI [of _ itss] exI [of _ n]) (simp add: log_of_def)
        next
          case False
          then have "contents w3 = fixed crc True (contents w2) itss n" using c3 by simp
          then show ?thesis by (rule fixed_log [OF lg2])
        qed
        from down_of [OF rd3 [OF c3] _ _ this] show ?thesis using st3 m1 by simp
      qed
      from rs consider (ok) rc where "q3 = Inr rc" "contents w3 = fixed crc True (contents w2) itss n"
          "rr_last (rec_report rc) = last_of None (map fst (concat (recov crc itss n)))"
          "rr_reports (rec_report rc) = reports (contents w2) (recov crc itss n)"
          "rec_segment rc = (if contents w2 = [] then 1 else fst (last (contents w2)))"
          "rr_records (rec_report rc) = map (item_rec dz) (concat (recov crc itss n))"
        | (fail) e where "io_fail w2 e" "q3 = Inl (from_io e)" "contents w3 \<in> {contents w2, fixed crc True (contents w2) itss n}"
        by blast
      then show ?thesis
      proof cases
        case fail
        then have "res = Inl (from_io e)" "w' = w3" using run2 r by (simp_all add: bind_io_def)
        then show ?thesis using bad [OF io2 [OF fail(1)] dn3 [OF fail(3)]] by simp
      next
        case ok
        have run3: "bind_io (read_manifest w3) (\<lambda>ckpt w. open_recovered c rc ckpt w) = (res, w')"
          using run2 r ok(1) by (simp add: bind_io_def)
        obtain q4 w4 where rm: "read_manifest w3 = (q4, w4)" by fastforce
        have m3: "m_ok (manifest w3)" using st3 m1 by simp
        note rmc = read_manifest_step [OF m3 rm]
        have s4: "contents w4 = contents w3" "all_synced w4" "all_linked w4" "manifest w4 = manifest w1" "manifest_dur w4 = manifest w4"
          using rmc st3 by (auto simp: same_dir_def contents_def all_synced_def all_linked_def)
        from rmc consider (good) "q4 = Inr (mval (manifest w3))" | (bad) e where "io_fail w3 e" "q4 = Inl (from_io e)" by blast
        then show ?thesis
        proof cases
          case bad
          then have e: "res = Inl (from_io e)" "w' = w4" using run3 rm by (simp_all add: bind_io_def)
          have "io_fail w e" using bad(1) st3(5) io2 by (auto simp: io_fail_def)
          moreover have "down_inv crc dz w4"
            using dn3 ok(2) same_dir_down rmc unfolding down_inv_rep by blast
          ultimately show ?thesis using e unfolding open_ok_def by blast
        next
          case good
          have run4: "open_recovered c rc (mval (manifest w4)) w4 = (res, w')"
            using run3 rm good st3(3) s4(4) by (simp add: bind_io_def)
          have c4: "contents w4 = fixed crc True (contents w2) itss n" using s4(1) ok(2) by simp
          have m4: "m_ok (manifest w4)" "mval (manifest w4) \<le> high (map fst (concat (recov crc itss n)))"
            using m1 s4(4) by simp_all
          have "open_ok crc dz (concat (recov crc itss n)) w4 res w'"
            by (rule open_recovered_rep [OF lg2 so2 c4 s4(2,3) m4(1) s4(5) m4(2) ok(3,4,5,6) run4])
          moreover have f4: "set (faults w4) \<subseteq> set (faults w2)" using rmc st3(5) by (auto simp: same_dir_def)
          have "io_fail w e" if "io_fail w4 e" for e by (rule io2 [OF io_fail_mono [OF f4 that]])
          ultimately show ?thesis unfolding open_ok_def by blast
        qed
      qed
    qed
  qed
qed

end
