(* ===== verification/Ramwal_Props.thy ===== *)
theory Ramwal_Props
  imports Ramwal_Reach
begin

text \<open>
  What the write-ahead log guarantees over every history of opens, operations, failing system calls
  and machine crashes: reopening, durability, appends, retention and poisoning.
\<close>

section \<open>Histories\<close>

datatype wal_op =
    OpAppend u64 bytes
  | OpFlush
  | OpSync
  | OpCheckpoint u64
  | OpTruncate u64
  | OpFailWrite
  | OpFailDiskfull
  | OpFailDirFsync

fun run_op :: "(bytes \<Rightarrow> u32) \<Rightarrow> (bytes \<Rightarrow> bytes) \<Rightarrow> wal_op \<Rightarrow> wal \<Rightarrow> disk \<Rightarrow> wal \<times> disk" where
  "run_op crc compress (OpAppend now payload) g w = snd (wal_append crc compress now payload g w)"
| "run_op crc compress OpFlush g w = snd (flush g w)"
| "run_op crc compress OpSync g w = snd (sync g w)"
| "run_op crc compress (OpCheckpoint l) g w = snd (checkpoint l g w)"
| "run_op crc compress (OpTruncate l) g w = snd (truncate_before l g w)"
| "run_op crc compress OpFailWrite g w = snd (fail_next_write g w)"
| "run_op crc compress OpFailDiskfull g w = snd (fail_next_diskfull g w)"
| "run_op crc compress OpFailDirFsync g w = snd (fail_next_dir_fsync g w)"

text \<open>The stored form of an appended payload respects the record limit.\<close>

fun op_fits :: "(bytes \<Rightarrow> bytes) \<Rightarrow> wal_op \<Rightarrow> wal \<Rightarrow> bool" where
  "op_fits compress (OpAppend now payload) g \<longleftrightarrow>
     length (fst (encode_payload compress payload (w_compression g = Lz4) 64)) \<le> max_record"
| "op_fits compress _ g \<longleftrightarrow> True"

datatype log_state = Down disk | Up wal disk

definition empty_disk :: disk where
  "empty_disk = \<lparr>segs = [], manifest = None, manifest_dur = None, quarantine = [], faults = []\<rparr>"

inductive wal_reach :: "(bytes \<Rightarrow> u32) \<Rightarrow> (bytes \<Rightarrow> bytes) \<Rightarrow> (bytes \<Rightarrow> string + bytes) \<Rightarrow> log_state \<Rightarrow> bool"
  for crc compress dz where
  reach_init: "wal_reach crc compress dz (Down empty_disk)"
| reach_open: "wal_reach crc compress dz (Down w) \<Longrightarrow> open_log crc dz c (w\<lparr>faults := fs\<rparr>) = (Inr g, w') \<Longrightarrow>
     wal_reach crc compress dz (Up g w')"
| reach_open_fail: "wal_reach crc compress dz (Down w) \<Longrightarrow> open_log crc dz c (w\<lparr>faults := fs\<rparr>) = (Inl e, w') \<Longrightarrow>
     wal_reach crc compress dz (Down w')"
| reach_op: "wal_reach crc compress dz (Up g w) \<Longrightarrow> op_fits compress op g \<Longrightarrow>
     run_op crc compress op g (w\<lparr>faults := fs\<rparr>) = (g', w') \<Longrightarrow> wal_reach crc compress dz (Up g' w')"
| reach_crash_up: "wal_reach crc compress dz (Up g w) \<Longrightarrow> crash w w' \<Longrightarrow> wal_reach crc compress dz (Down w')"
| reach_crash_down: "wal_reach crc compress dz (Down w) \<Longrightarrow> crash w w' \<Longrightarrow> wal_reach crc compress dz (Down w')"

fun log_inv :: "(bytes \<Rightarrow> u32) \<Rightarrow> (bytes \<Rightarrow> string + bytes) \<Rightarrow> log_state \<Rightarrow> bool" where
  "log_inv crc dz (Down w) = down_inv crc dz w"
| "log_inv crc dz (Up g w) = up_inv crc dz g w"

lemma faults_up:
  assumes u: "up_rep crc dz g w xs s its n j"
  shows "up_rep crc dz g (w\<lparr>faults := fs\<rparr>) xs s its n j"
proof (rule up_repI)
  show "disk_rep crc dz (w\<lparr>faults := fs\<rparr>) (w_seg g) (w_buf g) xs s its n j"
    using disk_repD [OF up_repD(1) [OF u]] by (intro disk_repI) auto
  show "mem_rep g (w\<lparr>faults := fs\<rparr>) xs s its j" by (rule mem_rep_cong [OF up_repD(2) [OF u]]) simp_all
  show "open_rep crc g (w\<lparr>faults := fs\<rparr>) xs its n" if "w_state g = Open"
    by (rule open_rep_cong [OF up_repD(3) [OF u that]]) simp_all
qed

lemma log_of_unique:
  assumes "log_of crc dz w a n" "log_of crc dz w b m" "distinct (map fst (segs w))"
  shows "map (item_rec dz) (concat (recov crc a n)) = map (item_rec dz) (concat (recov crc b m))"
proof -
  let ?w = "w\<lparr>faults := []\<rparr>"
  obtain q w2 where q: "scan_dir crc dz False ?w = (q, w2)" by fastforce
  have nf: "\<not> io_fail ?w e" for e by (rule no_faults) simp
  have c: "contents ?w = contents w" by (simp add: contents_def)
  have di: "distinct (map fst (segs ?w))" using assms(3) by simp
  have r: "\<exists>rep. q = Inr rep \<and> rr_records rep = map (item_rec dz) (concat (recov crc x k))"
    if "log_of crc dz w x k" for x k
  proof -
    have lg: "log_holds crc (contents ?w) x k" "list_all (item_ok dz) (concat x)" "asc None (map fst (concat x))"
      using that by (simp_all only: log_of_def c)
    from scan_dir_good [OF lg di q] nf show ?thesis by (auto simp: rep_after_def empty_report_def)
  qed
  from r [OF assms(1)] r [OF assms(2)] show ?thesis by auto
qed

lemma faults_down: "down_rep crc dz w itss n \<Longrightarrow> down_rep crc dz (w\<lparr>faults := fs\<rparr>) itss n"
  unfolding down_rep_def all_synced_def links_ok_def log_of_def contents_def by simp

lemma truncate_rep:
  assumes u: "up_rep crc dz g w xs s its n j" and run: "truncate_before l g w = (res, g', w')"
  shows "g' = g \<and> (\<exists>xs'. up_rep crc dz g w' xs' s its n j \<and> retained l xs xs')"
proof (cases "locked g \<or> w_state g = PoisonedState \<or> l > w_ckpt g")
  case True
  then show ?thesis using run u by (auto simp: truncate_before_def split: if_splits)
next
  case False
  then have "run_retention_raw 0 l g w = (res, g', w')" "l \<le> w_ckpt g" using run by (auto simp: truncate_before_def)
  then show ?thesis using run_retention_raw_rep [OF u] by blast
qed

lemma run_op_rep:
  assumes u: "up_rep crc dz g w xs s its n j" and z: "lz4_ok compress dz" and f: "op_fits compress op g"
    and run: "run_op crc compress op g w = (g', w')"
  shows "up_inv crc dz g' w'"
proof (cases op)
  case (OpAppend now payload)
  obtain stored flags where e: "encode_payload compress payload (w_compression g = Lz4) 64 = (stored, flags)" by fastforce
  obtain res where "wal_append crc compress now payload g w = (res, g', w')"
    using run OpAppend by (cases "wal_append crc compress now payload g w") auto
  from append_rep [OF u z e _ this] show ?thesis using f e OpAppend by simp
next
  case OpFlush
  then obtain res where "flush g w = (res, g', w')" using run by (cases "flush g w") auto
  from flush_rep [OF u this] show ?thesis .
next
  case OpSync
  then obtain res where "sync g w = (res, g', w')" using run by (cases "sync g w") auto
  from sync_rep [OF u this] show ?thesis by blast
next
  case (OpCheckpoint l)
  then obtain res where "checkpoint l g w = (res, g', w')" using run by (cases "checkpoint l g w") auto
  from checkpoint_rep [OF u this] show ?thesis .
next
  case (OpTruncate l)
  then obtain res where "truncate_before l g w = (res, g', w')" using run by (cases "truncate_before l g w") auto
  from truncate_rep [OF u this] show ?thesis using up_invI by blast
next
  case OpFailWrite
  then have "w' = w" "g' = g \<or> g' = g\<lparr>w_fail_next_write := True\<rparr>" using run by (auto simp: fail_next_write_def split: if_splits)
  moreover have "up_rep crc dz (g\<lparr>w_fail_next_write := True\<rparr>) w xs s its n j" by (rule up_rep_cong [OF u]) simp_all
  ultimately show ?thesis using up_invI u by blast
next
  case OpFailDiskfull
  then have "w' = w" "g' = g \<or> g' = g\<lparr>w_fail_next_diskfull := True\<rparr>" using run by (auto simp: fail_next_diskfull_def split: if_splits)
  moreover have "up_rep crc dz (g\<lparr>w_fail_next_diskfull := True\<rparr>) w xs s its n j" by (rule up_rep_cong [OF u]) simp_all
  ultimately show ?thesis using up_invI u by blast
next
  case OpFailDirFsync
  then have "w' = w" "g' = g \<or> g' = g\<lparr>w_fail_next_dir_fsync := True\<rparr>" using run by (auto simp: fail_next_dir_fsync_def split: if_splits)
  moreover have "up_rep crc dz (g\<lparr>w_fail_next_dir_fsync := True\<rparr>) w xs s its n j" by (rule up_rep_cong [OF u]) simp_all
  ultimately show ?thesis using up_invI u by blast
qed

lemma empty_down: "down_rep crc dz (empty_disk\<lparr>faults := fs\<rparr>) [] 0"
  by (simp add: down_rep_def empty_disk_def all_synced_def links_ok_def log_of_def contents_def recov_def)

lemma open_log_inv:
  assumes "down_inv crc dz w" "open_log crc dz c (w\<lparr>faults := fs\<rparr>) = (res, w')"
  shows "case res of Inr g \<Rightarrow> up_inv crc dz g w' | Inl _ \<Rightarrow> down_inv crc dz w'"
proof -
  obtain itss n where d: "down_rep crc dz (w\<lparr>faults := fs\<rparr>) itss n" using assms(1) faults_down down_inv_rep by blast
  show ?thesis
  proof (cases "check_config c")
    case None
    from open_log_rep [OF d None assms(2)] show ?thesis unfolding open_ok_def by auto
  next
    case (Some e)
    then have "res = Inl e" "w' = w\<lparr>faults := fs\<rparr>" using assms(2) by (auto simp: open_log_def)
    then show ?thesis using d down_inv_rep by auto
  qed
qed

lemma wal_reach_inv:
  assumes "wal_reach crc compress dz st" "lz4_ok compress dz"
  shows "log_inv crc dz st"
  using assms(1)
proof induction
  case reach_init
  have "down_rep crc dz (empty_disk\<lparr>faults := []\<rparr>) [] 0" by (rule empty_down)
  then show ?case using down_inv_rep by (fastforce simp: empty_disk_def)
next
  case (reach_open w c fs g w')
  then show ?case using open_log_inv by fastforce
next
  case (reach_open_fail w c fs e w')
  then show ?case using open_log_inv by fastforce
next
  case (reach_op g w op fs g' w')
  then obtain xs s its n j where "up_rep crc dz g w xs s its n j" by (auto simp: up_inv_def)
  from run_op_rep [OF faults_up [OF this] assms(2)] reach_op show ?case by simp
next
  case (reach_crash_up g w w')
  then show ?case using crash_up by fastforce
next
  case (reach_crash_down w w')
  then show ?case using crash_down by fastforce
qed

section \<open>What an open log holds\<close>

text \<open>The records of an open log, those still in the writer's buffer included: what a scan of the directory
  would find if the buffer were written out.\<close>

definition log_records :: "(bytes \<Rightarrow> u32) \<Rightarrow> (bytes \<Rightarrow> string + bytes) \<Rightarrow> wal \<Rightarrow> disk \<Rightarrow> recovered list" where
  "log_records crc dz g w =
     (case scan_dir crc dz False (append_bytes (w_seg g) (w_buf g) (w\<lparr>faults := []\<rparr>)) of
        (Inl _, _) \<Rightarrow> [] | (Inr rep, _) \<Rightarrow> rr_records rep)"

lemma log_scan:
  assumes u: "up_rep crc dz g w xs s its n j"
  shows "\<exists>rep w2. scan_dir crc dz False (append_bytes (w_seg g) (w_buf g) (w\<lparr>faults := []\<rparr>)) = (Inr rep, w2) \<and>
    rr_records rep = map (item_rec dz) (concat (map snd xs) @ fits crc n its)"
proof -
  note d = disk_repD [OF up_repD(1) [OF u]]
  let ?v = "append_bytes (w_seg g) (w_buf g) (w\<lparr>faults := []\<rparr>)"
  have sv: "segs ?v = map fst xs @ [(w_seg g, s\<lparr>sf_data := sf_data s @ w_buf g\<rparr>)]"
    unfolding append_bytes_def by (rule seg_upd_last) (use d(1,2) in simp_all)
  have cv: "contents ?v = map (\<lambda>(i, s). (i, sf_data s)) (map fst xs) @ [(w_seg g, take n (encs crc its))]"
    using sv d(4) by (simp add: contents_def)
  have mo: "map snd (map (\<lambda>(i, s). (i, sf_data s)) (map fst xs)) = map (encs crc) (map snd xs)"
    using olds_data [OF d(3)] by (simp add: comp_def split_def)
  have lg: "log_holds crc (contents ?v) (map snd xs @ [its]) n"
    unfolding cv log_holds_snoc using mo d(5) by simp
  have ok: "list_all (item_ok dz) (concat (map snd xs @ [its]))" "asc None (map fst (concat (map snd xs @ [its])))"
    using d(6,7) by simp_all
  have di: "distinct (map fst (segs ?v))"
    using d(1,2) sv by (simp add: strict_sorted_iff)
  have nf: "faults ?v = []" by (simp add: append_bytes_def seg_upd_def)
  obtain q w2 where q: "scan_dir crc dz False ?v = (q, w2)" by fastforce
  from scan_dir_good [OF lg ok di q] no_faults [OF nf] obtain rep where
    "q = Inr rep" "rep_after crc dz (contents ?v) (recov crc (map snd xs @ [its]) n) n (empty_report (length (segs ?v))) rep"
    by blast
  then show ?thesis by (simp add: q rep_after_def empty_report_def recov_snoc)
qed

lemma log_records_rep:
  assumes "up_rep crc dz g w xs s its n j"
  shows "log_records crc dz g w = map (item_rec dz) (concat (map snd xs) @ fits crc n its)"
  using log_scan [OF assms] by (auto simp: log_records_def)

lemma append_nothing [simp]: "append_bytes i [] w = (w :: disk)"
proof -
  have "map (\<lambda>(j, s :: seg_file). (j, if j = i then s\<lparr>sf_data := sf_data s @ []\<rparr> else s)) xs = xs" for xs
    by (rule map_idI) auto
  then show ?thesis by (simp add: append_bytes_def seg_upd_def)
qed

lemma log_on_disk:
  assumes "up_inv crc dz g w" "w_buf g = []"
  shows "\<exists>rep w2. verify_dir crc dz (w\<lparr>faults := []\<rparr>) = (Inr rep, w2) \<and> rr_records rep = log_records crc dz g w"
proof -
  obtain xs s its n j where u: "up_rep crc dz g w xs s its n j" using assms(1) by (auto simp: up_inv_def)
  from log_scan [OF u] show ?thesis
    by (auto simp: assms(2) verify_dir_def log_records_rep [OF u])
qed

lemma fits_snoc:
  "fits crc (length (encs crc (its @ [it]))) (its @ [it]) = its @ [it]"
  "fits crc (length (encs crc its)) its = its"
  by (simp_all add: fits_all)

lemma log_records_open:
  assumes u: "up_rep crc dz g w xs s its n j" and o: "w_state g = Open"
  shows "log_records crc dz g w = map (item_rec dz) (concat (map snd xs) @ its)"
proof -
  have "n = length (encs crc its)" using up_repD(3) [OF u o] by (simp add: open_rep_def)
  then show ?thesis using log_records_rep [OF u] by (simp add: fits_all)
qed

text \<open>A stand-in for LZ4 that only adds the size prefix.\<close>

definition store_only :: "bytes \<Rightarrow> bytes" where
  "store_only x = to_le_bytes (of_nat (length x) :: u32) @ x"

definition read_only :: "bytes \<Rightarrow> string + bytes" where
  "read_only x = Inr (drop 4 x)"

lemma store_only_ok: "lz4_ok store_only read_only"
  by (simp add: lz4_ok_def store_only_def read_only_def)

definition fresh_disk :: "bytes \<Rightarrow> nat \<Rightarrow> disk" where
  "fresh_disk d n = \<lparr>segs = [(1, \<lparr>sf_data = d, sf_synced = n, sf_linked = False\<rparr>)], manifest = None,
     manifest_dur = None, quarantine = [], faults = []\<rparr>"

definition fresh_wal :: "config \<Rightarrow> wal" where
  "fresh_wal c = open_wal c \<lparr>rec_report = empty_report 0, rec_segment = 1, rec_offset = 0\<rparr> 0"

lemma open_empty:
  "check_config c = None \<Longrightarrow> open_log crc dz c (empty_disk\<lparr>faults := []\<rparr>) = (Inr (fresh_wal c), fresh_disk [] 0)"
  by (simp add: open_log_def empty_disk_def try_sys_def sys_def bind_io_def fsync_dir_def recover_def recover_dir_def
      scan_dir_def empty_report_def read_manifest_def open_recovered_def open_segment_def seg_insert_def
      run_retention_def fresh_wal_def fresh_disk_def Let_def)

lemma config_new_ok [simp]: "check_config config_new = None"
  by (simp add: check_config_def config_new_def header_size_def)

lemma reach_fresh: "check_config c = None \<Longrightarrow> wal_reach crc compress dz (Up (fresh_wal c) (fresh_disk [] 0))"
  by (rule reach_open [OF reach_init open_empty])

abbreviation first_record :: "(bytes \<Rightarrow> u32) \<Rightarrow> bytes" where
  "first_record crc \<equiv> enc_item crc (1, [5], 0)"

text \<open>The first append to a log that found no records stays in the buffer.\<close>

lemma append_explicit:
  assumes "rr_last (rec_report rc) = None" "rec_offset rc = 0"
  shows "wal_append crc compress now [5] (open_wal config_new rc 0) w =
     (Ok 1, (open_wal config_new rc 0)\<lparr>w_buf := first_record crc, lsn_counter := 2, w_bytes := 24, written_lsn := 1\<rparr>, w)"
  using assms by (simp add: wal_append_def encode_payload_def Let_def open_wal_def start_lsn_def
      append_writes_def write_all_def config_new_def header_size_def append_commit_def barrier_def enc_item_def
      or_zero_def List.map_filter_simps)

text \<open>A log whose first record was written but not synced, and was cut to ten bytes by a crash.\<close>

abbreviation torn_disk :: disk where
  "torn_disk \<equiv> fresh_disk [] 0\<lparr>segs := [(1, \<lparr>sf_data = take 10 (first_record (\<lambda>_. 7)), sf_synced = 10, sf_linked = True\<rparr>)]\<rparr>"

lemma reach_torn: "wal_reach (\<lambda>_. 7) compress dz (Down torn_disk)"
proof -
  let ?rc = "\<lparr>rec_report = empty_report 0, rec_segment = 1, rec_offset = 0\<rparr>"
  let ?g = "(fresh_wal config_new)\<lparr>w_buf := first_record (\<lambda>_. 7), lsn_counter := 2, w_bytes := 24, written_lsn := 1\<rparr>"
  have len: "length (first_record (\<lambda>_. 7)) = 24" by (simp add: length_enc_item header_size_def)
  have "wal_append (\<lambda>_. 7) compress 0 [5] (fresh_wal config_new) (fresh_disk [] 0\<lparr>faults := []\<rparr>) = (Ok 1, ?g, fresh_disk [] 0)"
    using append_explicit [of ?rc "\<lambda>_. 7" compress 0 "fresh_disk [] 0"] by (simp add: fresh_wal_def empty_report_def fresh_disk_def)
  then have up: "wal_reach (\<lambda>_. 7) compress dz (Up ?g (fresh_disk [] 0))"
    by (intro reach_op [OF reach_fresh [OF config_new_ok], where op = "OpAppend 0 [5]" and fs = "[]"]) (simp_all add: encode_payload_def)
  have "flush ?g (fresh_disk [] 0\<lparr>faults := []\<rparr>) = (Ok (), ?g\<lparr>w_buf := []\<rparr>, fresh_disk (first_record (\<lambda>_. 7)) 0)"
    using len by (auto simp: flush_def flush_buf_def sys_def append_bytes_def seg_upd_def fresh_disk_def fresh_wal_def open_wal_def)
  then have "wal_reach (\<lambda>_. 7) compress dz (Up (?g\<lparr>w_buf := []\<rparr>) (fresh_disk (first_record (\<lambda>_. 7)) 0))"
    by (intro reach_op [OF up, where op = OpFlush and fs = "[]"]) simp_all
  moreover have "crash (fresh_disk (first_record (\<lambda>_. 7)) 0) (fresh_disk (first_record (\<lambda>_. 7)) 0\<lparr>
      segs := [(1, \<lparr>sf_data = take 10 (first_record (\<lambda>_. 7)), sf_synced = 10, sf_linked = True\<rparr>)],
      manifest_dur := manifest (fresh_disk (first_record (\<lambda>_. 7)) 0)\<rparr>)"
    by (rule keep) (auto simp: fresh_disk_def cut_ok_def len)
  ultimately show ?thesis by (intro reach_crash_up [of _ _ _ _ "fresh_disk (first_record (\<lambda>_. 7)) 0"]) (simp_all add: fresh_disk_def)
qed

section \<open>Safety and durability\<close>

text \<open>C1: The log always reopens. Take any history of opens, operations, failing system calls and machine crashes in
  which every appended payload stays within the record limit in its stored form, and every run of the process ends with
  a machine crash (\<open>wal_reach\<close>; theory \<open>Ramwal_Limits\<close> shows how a record beyond the limit, and a mere restart of the
  process, can leave a directory that does not open). Opening the directory it leaves with a
  valid configuration and no failing system call succeeds: recovery never reports
  corruption, and the checkpoint in the manifest is always covered by the recovered records.\<close>

theorem wal_always_reopens:
  assumes "wal_reach crc compress dz (Down w)" "lz4_ok compress dz" "check_config c = None"
  shows "\<exists>g w'. open_log crc dz c (w\<lparr>faults := []\<rparr>) = (Inr g, w') \<and> w_state g = Open \<and> \<not> locked g"
proof -
  have "down_inv crc dz w" using wal_reach_inv [OF assms(1,2)] by simp
  then obtain itss n where d: "down_rep crc dz (w\<lparr>faults := []\<rparr>) itss n" using faults_down down_inv_rep by blast
  obtain res w' where r: "open_log crc dz c (w\<lparr>faults := []\<rparr>) = (res, w')" by fastforce
  have "\<not> io_fail (w\<lparr>faults := []\<rparr>) e" for e by (rule no_faults) simp
  with open_log_rep [OF d assms(3) r] r show ?thesis unfolding open_ok_def by blast
qed

theorem wal_always_reopens_witness:
  "wal_reach (\<lambda>_. 7) store_only read_only (Down torn_disk) \<and>
   (\<exists>g w'. open_log (\<lambda>_. 7) read_only config_new (torn_disk\<lparr>faults := []\<rparr>) = (Inr g, w') \<and> w_state g = Open \<and> \<not> locked g)"
  using wal_always_reopens [OF reach_torn store_only_ok config_new_ok] reach_torn by blast

text \<open>A crash that loses no directory entry leaves each segment cut at most at its synced length.\<close>

lemma crash_cuts:
  assumes "crash w w'" "map fst (segs w') = map fst (segs w)"
  shows "list_all2 cut_ok (segs w) (segs w')"
  using assms(1)
proof cases
  case (revert ss)
  have "map fst (segs w') = map fst (filter (\<lambda>x. sf_linked (snd x)) (segs w))"
    using cut_all2(1) [OF revert(2)] revert(1) by simp
  then have "length (filter (\<lambda>x. sf_linked (snd x)) (segs w)) = length (segs w)" using assms(2) by (metis length_map)
  then have "filter (\<lambda>x. sf_linked (snd x)) (segs w) = segs w" by (metis filter_True length_filter_less less_irrefl)
  then show ?thesis using revert by simp
qed simp

text \<open>Records above the durable watermark come after those at or below it.\<close>

lemma durable_prefix:
  assumes asc: "asc None (map fst (p @ r @ r'))" and x: "x \<in> set (map (item_rec dz) (p @ r @ r'))"
    and d: "0 < fst x" "fst x \<le> high (map fst p)"
  shows "x \<in> set (map (item_rec dz) (p @ r))"
proof (rule ccontr)
  assume "x \<notin> set (map (item_rec dz) (p @ r))"
  then obtain it where it: "it \<in> set r'" "x = item_rec dz it" using x by auto
  have "high (map fst p) < fst it"
  proof (cases "map fst p = []")
    case True
    then have "high (map fst p) = 0" by (simp only: high_simps)
    then show ?thesis using d(1) it(2) by simp
  next
    case False
    show ?thesis by (rule asc_above_high [of "map fst p" "map fst (r @ r')"]) (use asc False it(1) in auto)
  qed
  then show False using d(2) it(2) by simp
qed

text \<open>What a crash leaves of a log in use: a prefix of it that holds every synced record.\<close>

lemma cut_log_prefix:
  assumes u: "up_rep crc dz g w xs s its n j" and cr: "crash w w'" and dir: "map fst (segs w') = map fst (segs w)"
  shows "\<exists>m r r'. log_of crc dz w' (map snd xs @ [its]) m \<and>
    recov crc (map snd xs @ [its]) m = map snd xs @ [take j its @ r] \<and>
    log_records crc dz g w = map (item_rec dz) ((concat (map snd xs) @ take j its) @ r @ r') \<and>
    asc None (map fst ((concat (map snd xs) @ take j its) @ r @ r'))"
proof -
  note d = disk_repD [OF up_repD(1) [OF u]]
  have c: "list_all2 cut_ok (map fst xs @ [(w_seg g, s)]) (segs w')"
    using crash_cuts [OF cr dir] unfolding d(1) .
  from cut_log_active [OF d(3) c d(6,7,4,5,10,8)] obtain m r r' where
    l: "log_of crc dz w' (map snd xs @ [its]) m" and rc: "recov crc (map snd xs @ [its]) m = map snd xs @ [take j its @ r]"
    and f: "fits crc n its = (take j its @ r) @ r'" by blast
  have "asc None (map fst (concat (map snd xs)) @ map fst its)" using d(7) by simp
  from asc_fits [OF this, of crc n] have "asc None (map fst ((concat (map snd xs) @ take j its) @ r @ r'))" unfolding f by simp
  moreover have "log_records crc dz g w = map (item_rec dz) ((concat (map snd xs) @ take j its) @ r @ r')"
    using log_records_rep [OF u] f by simp
  ultimately show ?thesis using l rc by blast
qed

lemma durable_records_kept:
  assumes reach: "wal_reach crc compress dz (Up g w)" and z: "lz4_ok compress dz" and cfg: "check_config c = None"
    and cr: "crash w w'" and dir: "map fst (segs w') = map fst (segs w)"
  shows "\<exists>g' w'' k. open_log crc dz c (w'\<lparr>faults := []\<rparr>) = (Inr g', w'') \<and>
    rr_records (rec_report (w_recovery g')) = take k (log_records crc dz g w) \<and>
    (\<forall>r \<in> set (log_records crc dz g w). 0 < fst r \<and> fst r \<le> w_durable g \<longrightarrow>
       r \<in> set (rr_records (rec_report (w_recovery g'))))"
proof -
  have "up_inv crc dz g w" using wal_reach_inv [OF reach z] by simp
  then obtain xs s its n j where u: "up_rep crc dz g w xs s its n j" by (auto simp: up_inv_def)
  from cut_log_prefix [OF u cr dir] obtain m r r' where
    l: "log_of crc dz w' (map snd xs @ [its]) m" and rc: "recov crc (map snd xs @ [its]) m = map snd xs @ [take j its @ r]"
    and lr: "log_records crc dz g w = map (item_rec dz) ((concat (map snd xs) @ take j its) @ r @ r')"
    and asc: "asc None (map fst ((concat (map snd xs) @ take j its) @ r @ r'))" by blast
  have "wal_reach crc compress dz (Down w')" by (rule reach_crash_up [OF reach cr])
  then have "down_inv crc dz w'" using wal_reach_inv [OF _ z] by fastforce
  then obtain itss2 n2 where dr: "down_rep crc dz w' itss2 n2" unfolding down_inv_rep by blast
  let ?p = "concat (map snd xs) @ take j its"
  have same: "map (item_rec dz) (concat (recov crc itss2 n2)) = map (item_rec dz) (?p @ r)"
  proof -
    have "log_of crc dz w' itss2 n2" "distinct (map fst (segs w'))" using dr by (simp_all add: down_rep_def strict_sorted_iff)
    from log_of_unique [OF this(1) l this(2)] show ?thesis using rc by simp
  qed
  obtain res w'' where o: "open_log crc dz c (w'\<lparr>faults := []\<rparr>) = (res, w'')" by fastforce
  have "\<not> io_fail (w'\<lparr>faults := []\<rparr>) e" for e by (rule no_faults) simp
  with open_log_rep [OF faults_down [OF dr] cfg o] obtain g' where
    g': "res = Inr g'" "rr_records (rec_report (w_recovery g')) = map (item_rec dz) (?p @ r)"
    unfolding open_ok_def same by blast
  have "rr_records (rec_report (w_recovery g')) = take (length (?p @ r)) (log_records crc dz g w)"
    unfolding lr g'(2) by simp
  moreover have "x \<in> set (rr_records (rec_report (w_recovery g')))"
    if "x \<in> set (log_records crc dz g w)" "0 < fst x" "fst x \<le> w_durable g" for x
    unfolding g'(2) by (rule durable_prefix [OF asc that(1) [unfolded lr] that(2)])
      (use that(3) mem_repD(1) [OF up_repD(2) [OF u]] in \<open>simp only:\<close>)
  ultimately show ?thesis using o g'(1) by blast
qed

text \<open>C2: Durable records survive a crash. After a history of \<open>wal_reach\<close> (appends within the record limit, every run of
  the process ended by a machine crash) and a machine crash that loses no directory entry (theory
  \<open>Ramwal_Limits\<close> has one that does), reopening the log recovers a prefix of the records it held, and that
  prefix contains every record up to the durable sequence number the instance reported.\<close>

theorem wal_durable_records_survive:
  assumes reach: "wal_reach crc compress dz (Up g w)" and z: "lz4_ok compress dz" and cfg: "check_config c = None"
    and cr: "crash w w'" and dir: "map fst (segs w') = map fst (segs w)"
  shows "\<exists>g' w'' k. open_log crc dz c (w'\<lparr>faults := []\<rparr>) = (Inr g', w'') \<and>
    rr_records (rec_report (w_recovery g')) = take k (log_records crc dz g w) \<and>
    (\<forall>r \<in> set (log_records crc dz g w). 0 < fst r \<and> fst r \<le> w_durable g \<longrightarrow>
       r \<in> set (rr_records (rec_report (w_recovery g'))))"
  by (rule durable_records_kept [OF assms])

definition sync_config :: config where
  "sync_config = config_new\<lparr>c_durability := SyncEach\<rparr>"

lemma sync_config_ok [simp]: "check_config sync_config = None"
  by (simp add: check_config_def sync_config_def config_new_def header_size_def)

lemma append_fresh:
  "wal_append crc compress 0 [5] (fresh_wal sync_config) (fresh_disk [] 0) =
     (Ok 1, (fresh_wal sync_config)\<lparr>lsn_counter := 2, w_bytes := 24, written_lsn := 1, w_durable := 1\<rparr>,
      fresh_disk (first_record crc) 24)"
  by (simp add: wal_append_def encode_payload_def Let_def fresh_wal_def open_wal_def empty_report_def start_lsn_def
      append_writes_def write_all_def sync_config_def config_new_def header_size_def append_commit_def barrier_def
      sync_inner_def flush_buf_def sys_def fresh_disk_def sync_data_def append_bytes_def seg_upd_def enc_item_def
      or_zero_def List.map_filter_simps)

lemma reach_first:
  "wal_reach crc compress dz (Up ((fresh_wal sync_config)\<lparr>lsn_counter := 2, w_bytes := 24, written_lsn := 1, w_durable := 1\<rparr>)
     (fresh_disk (first_record crc) 24))"
proof (rule reach_op [OF reach_fresh [OF sync_config_ok]])
  show "op_fits compress (OpAppend 0 [5]) (fresh_wal sync_config)" by (simp add: encode_payload_def)
  show "run_op crc compress (OpAppend 0 [5]) (fresh_wal sync_config) (fresh_disk [] 0\<lparr>faults := []\<rparr>) =
    ((fresh_wal sync_config)\<lparr>lsn_counter := 2, w_bytes := 24, written_lsn := 1, w_durable := 1\<rparr>, fresh_disk (first_record crc) 24)"
    using append_fresh [of crc compress] by (simp add: fresh_disk_def)
qed

lemma scan_first:
  "scan_segment crc dz None i 0 None [] (first_record crc) =
     Inr \<lparr>sr_valid = 24, sr_truncate = False, sr_tail = TailClean, sr_prev = Some 1, sr_out = [(1, [5])]\<rparr>"
proof -
  have ok: "list_all (item_ok dz) [(1, [5], 0)]" "asc None (map fst [(1, [5], 0) :: wal_item])"
    by (simp_all add: item_ok_def decode_payload_def above_def)
  have "scan_segment crc dz None i 0 None [] (encs crc [(1, [5], 0)] @ []) =
    scan_segment crc dz None i 24 (Some 1) [(1, [5])] []"
    unfolding scan_encs [OF ok]
    by (simp add: length_enc_item header_size_def item_rec_def decode_payload_def)
  then show ?thesis by (simp add: scan_segment.simps at_eof_def Let_def)
qed

lemma first_log:
  "log_records crc dz ((fresh_wal sync_config)\<lparr>lsn_counter := 2, w_bytes := 24, written_lsn := 1, w_durable := 1\<rparr>)
     (fresh_disk (first_record crc) 24) = [(1, [5])]"
  by (simp add: log_records_def scan_dir_def try_sys_def sys_def fresh_disk_def append_bytes_def seg_upd_def
      bind_io_def scan_one_def Let_def seg_data_def fresh_wal_def open_wal_def scan_first repair_action_def
      segment_done_def empty_report_def)

theorem wal_durable_records_survive_witness:
  "\<exists>g' w''. open_log (\<lambda>_. 7) read_only sync_config
      (fresh_disk (first_record (\<lambda>_. 7)) 24\<lparr>segs := [(1, \<lparr>sf_data = first_record (\<lambda>_. 7), sf_synced = 24, sf_linked = True\<rparr>)], faults := []\<rparr>) = (Inr g', w'') \<and>
    (1, [5]) \<in> set (rr_records (rec_report (w_recovery g')))"
proof -
  let ?g = "(fresh_wal sync_config)\<lparr>lsn_counter := 2, w_bytes := 24, written_lsn := 1, w_durable := 1\<rparr>"
  let ?w = "fresh_disk (first_record (\<lambda>_. 7)) 24"
  let ?ss = "[(1 :: u64, \<lparr>sf_data = first_record (\<lambda>_. 7), sf_synced = 24, sf_linked = True\<rparr>)]"
  have c: "crash ?w (?w\<lparr>segs := ?ss, manifest_dur := manifest ?w\<rparr>)"
    by (rule keep) (auto simp: fresh_disk_def cut_ok_def length_enc_item header_size_def)
  have lr: "log_records (\<lambda>_. 7) read_only ?g ?w = [(1, [5])]" by (rule first_log)
  have d: "map fst (segs (?w\<lparr>segs := ?ss, manifest_dur := manifest ?w\<rparr>)) = map fst (segs ?w)" by (simp add: fresh_disk_def)
  have e: "?w\<lparr>segs := ?ss, manifest_dur := manifest ?w, faults := []\<rparr> = ?w\<lparr>segs := ?ss, faults := []\<rparr>"
    by (simp add: fresh_disk_def)
  from wal_durable_records_survive [OF reach_first store_only_ok sync_config_ok c d]
  show ?thesis unfolding lr e by auto
qed

section \<open>Operations\<close>

lemma reach_up:
  assumes "wal_reach crc compress dz (Up g w)" "lz4_ok compress dz"
  shows "up_inv crc dz g (w\<lparr>faults := fs\<rparr>)"
  using wal_reach_inv [OF assms] faults_up up_invI unfolding log_inv.simps up_inv_def by blast

lemma log_records_faults [simp]: "log_records crc dz g (w\<lparr>faults := fs\<rparr>) = log_records crc dz g w"
  by (simp add: log_records_def)

lemma append_log:
  assumes inv: "up_inv crc dz g w" and z: "lz4_ok compress dz"
    and fit: "op_fits compress (OpAppend now payload) g"
    and run: "wal_append crc compress now payload g w = (Ok l, g', w')"
  shows "log_records crc dz g' w' = log_records crc dz g w @ [(l, payload)] \<and>
    (\<forall>r \<in> set (log_records crc dz g w). fst r < l) \<and> (w_durability g = SyncEach \<longrightarrow> w_durable g' = l)"
proof -
  obtain xs s its n j where u: "up_rep crc dz g w xs s its n j" using inv by (auto simp: up_inv_def)
  obtain stored flags where e: "encode_payload compress payload (w_compression g = Lz4) 64 = (stored, flags)" by fastforce
  have len: "length stored \<le> max_record" using fit e by simp
  from append_rep [OF u z e len run]
  have o: "w_state g = Open" and pl: "length payload \<le> max_record" and ll: "l = lsn_counter g"
    and a: "appended crc dz g g' w' xs its (l, stored, flags)" by blast+
  from a obtain s' j' where u': "up_rep crc dz g' w' xs s' (its @ [(l, stored, flags)])
      (length (encs crc (its @ [(l, stored, flags)]))) j'" unfolding appended_def by blast
  have "log_records crc dz g' w' = map (item_rec dz) (concat (map snd xs) @ its @ [(l, stored, flags)])"
    unfolding log_records_rep [OF u'] fits_snoc ..
  moreover have "item_rec dz (l, stored, flags) = (l, payload)"
    using stored_item_ok [OF z pl e len] by simp
  moreover note lr = log_records_open [OF u o]
  moreover have "fst r < l" if r: "r \<in> set (log_records crc dz g w)" for r
  proof -
    obtain it where it: "it \<in> set (concat (map snd xs) @ its)" "r = item_rec dz it" using r unfolding lr set_map by blast
    have "asc None (map fst (concat (map snd xs) @ its @ [(l, stored, flags)]))"
      using disk_repD(7) [OF up_repD(1) [OF u']] by simp
    then have asc: "asc None (map fst (concat (map snd xs) @ its) @ [l])" by simp
    have ne: "map fst (concat (map snd xs) @ its) \<noteq> []"
      unfolding map_is_Nil_conv using it(1) by (metis empty_iff list.set(1))
    have hl: "high (map fst (concat (map snd xs) @ its)) < l" by (rule asc_above_high [OF asc _ ne]) simp
    have "fst it \<in> set (map fst (concat (map snd xs) @ its))" unfolding set_map using it(1) by (rule imageI)
    from asc_high [OF disk_repD(7) [OF up_repD(1) [OF u]] this] hl have "fst it < l" by (rule le_less_trans)
    then show ?thesis unfolding it(2) item_rec_fst .
  qed
  ultimately show ?thesis using a unfolding appended_def by simp
qed



lemma sync_log:
  assumes inv: "up_inv crc dz g w" and run: "sync g w = (Ok (), g', w')"
  shows "log_records crc dz g' w' = log_records crc dz g w \<and>
    (\<forall>r \<in> set (log_records crc dz g' w'). fst r \<le> w_durable g')"
proof -
  obtain xs s its n j where u: "up_rep crc dz g w xs s its n j" using inv by (auto simp: up_inv_def)
  from sync_rep [OF u run] obtain s' where u': "up_rep crc dz g' w' xs s' its n (length its)" by blast
  have lr: "log_records crc dz g' w' = log_records crc dz g w"
    unfolding log_records_rep [OF u] log_records_rep [OF u'] ..
  have du: "w_durable g' = high (map fst (concat (map snd xs) @ its))"
    using mem_repD(1) [OF up_repD(2) [OF u']] by simp
  have "fst r \<le> w_durable g'" if r: "r \<in> set (log_records crc dz g' w')" for r
  proof -
    obtain it where it: "it \<in> set (concat (map snd xs) @ fits crc n its)" "r = item_rec dz it"
      using r unfolding log_records_rep [OF u'] set_map by blast
    then have "it \<in> set (concat (map snd xs) @ its)" using fits_sub [of crc n its] by auto
    then have "fst it \<in> set (map fst (concat (map snd xs) @ its))" unfolding set_map by (rule imageI)
    from asc_high [OF disk_repD(7) [OF up_repD(1) [OF u']] this] show ?thesis unfolding du it(2) item_rec_fst .
  qed
  with lr show ?thesis by blast
qed

text \<open>A successful sync makes everything durable. After \<open>sync\<close> returns \<open>Ok\<close> on a reachable log its records are
  unchanged and all of them are at or below the durable sequence number.\<close>

theorem sync_makes_durable:
  assumes reach: "wal_reach crc compress dz (Up g w)" and z: "lz4_ok compress dz"
    and run: "sync g (w\<lparr>faults := fs\<rparr>) = (Ok (), g', w')"
  shows "log_records crc dz g' w' = log_records crc dz g w \<and>
    (\<forall>r \<in> set (log_records crc dz g' w'). fst r \<le> w_durable g')"
  using sync_log [OF reach_up [OF reach z] run] by simp

theorem sync_makes_durable_witness:
  "fst (hd (log_records (\<lambda>_. 7) read_only
      ((fresh_wal sync_config)\<lparr>lsn_counter := 2, w_bytes := 24, written_lsn := 1, w_durable := 1\<rparr>)
      (fresh_disk (first_record (\<lambda>_. 7)) 24))) \<le> (1 :: u64)"
proof -
  let ?g = "(fresh_wal sync_config)\<lparr>lsn_counter := 2, w_bytes := 24, written_lsn := 1, w_durable := 1\<rparr>"
  let ?w = "fresh_disk (first_record (\<lambda>_. 7)) 24"
  have s: "sync ?g (?w\<lparr>faults := []\<rparr>) = (Ok (), ?g, ?w)"
    by (simp add: sync_def fresh_wal_def open_wal_def sync_inner_def flush_buf_def sync_data_def sys_def fresh_disk_def
        seg_upd_def length_enc_item header_size_def)
  from sync_makes_durable [OF reach_first store_only_ok s] show ?thesis by (simp add: first_log)
qed

lemma truncate_log:
  assumes inv: "up_inv crc dz g w" and run: "truncate_before l g w = (res, g', w')"
  shows "g' = g \<and> set (log_records crc dz g' w') \<subseteq> set (log_records crc dz g w) \<and>
    (\<forall>r \<in> set (log_records crc dz g w). l \<le> fst r \<longrightarrow> r \<in> set (log_records crc dz g' w'))"
proof -
  obtain xs s its n j where u: "up_rep crc dz g w xs s its n j" using inv by (auto simp: up_inv_def)
  from truncate_rep [OF u run] obtain xs' where g: "g' = g"
    and u': "up_rep crc dz g w' xs' s its n j" and re: "retained l xs xs'" by blast
  obtain P where P: "xs' = filter P xs" "\<forall>x \<in> set xs. \<not> P x \<longrightarrow> (\<forall>it \<in> set (snd x). fst it < l)"
    using re unfolding retained_def by blast
  have sub: "set (concat (map snd xs') @ fits crc n its) \<subseteq> set (concat (map snd xs) @ fits crc n its)"
    unfolding P(1) by auto
  have keep: "it \<in> set (concat (map snd xs') @ fits crc n its)"
    if k: "it \<in> set (concat (map snd xs) @ fits crc n its)" "l \<le> fst it" for it
  proof (cases "it \<in> set (fits crc n its)")
    case False
    then obtain x where x: "x \<in> set xs" "it \<in> set (snd x)" using k(1) by auto
    then have "P x" using P(2) k(2) leD by blast
    then have "x \<in> set xs'" using x(1) unfolding P(1) by simp
    then show ?thesis unfolding set_append set_concat set_map using x(2) by blast
  qed simp
  have a: "log_records crc dz g' w' = map (item_rec dz) (concat (map snd xs') @ fits crc n its)"
    unfolding g by (rule log_records_rep [OF u'])
  note b = log_records_rep [OF u]
  have "set (log_records crc dz g' w') \<subseteq> set (log_records crc dz g w)"
    unfolding a b set_map by (rule image_mono [OF sub])
  moreover have "r \<in> set (log_records crc dz g' w')" if r: "r \<in> set (log_records crc dz g w)" "l \<le> fst r" for r
  proof -
    obtain it where it: "it \<in> set (concat (map snd xs) @ fits crc n its)" "r = item_rec dz it"
      using r(1) unfolding b set_map by blast
    have "l \<le> fst it" using r(2) it(2) by simp
    from keep [OF it(1) this] show ?thesis unfolding a set_map it(2) by (rule imageI)
  qed
  ultimately show ?thesis using g by blast
qed

text \<open>C15: Retention keeps every record from the requested sequence number on. \<open>truncate_before l\<close>, whatever it
  returns and whatever fails on the way, leaves the instance unchanged, removes no record with a
  sequence number of at least \<open>l\<close> and adds none.\<close>

theorem truncate_keeps_records:
  assumes reach: "wal_reach crc compress dz (Up g w)" and z: "lz4_ok compress dz"
    and run: "truncate_before l g (w\<lparr>faults := fs\<rparr>) = (res, g', w')"
  shows "g' = g \<and> set (log_records crc dz g' w') \<subseteq> set (log_records crc dz g w) \<and>
    (\<forall>r \<in> set (log_records crc dz g w). l \<le> fst r \<longrightarrow> r \<in> set (log_records crc dz g' w'))"
  using truncate_log [OF reach_up [OF reach z] run] unfolding log_records_faults .

theorem truncate_keeps_records_witness:
  "\<exists>w w'. let g = (fresh_wal sync_config)\<lparr>lsn_counter := 2, w_bytes := 24, written_lsn := 1, w_durable := 1, w_ckpt := 1\<rparr> in
     wal_reach (\<lambda>_. 7) store_only read_only (Up g w) \<and> truncate_before 1 g (w\<lparr>faults := []\<rparr>) = (Ok (), g, w') \<and>
     (1, [5]) \<in> set (log_records (\<lambda>_. 7) read_only g w')"
proof -
  let ?f = "(fresh_wal sync_config)\<lparr>lsn_counter := 2, w_bytes := 24, written_lsn := 1, w_durable := 1\<rparr>"
  let ?g = "?f\<lparr>w_ckpt := 1\<rparr>"
  let ?w = "\<lparr>segs = [(1, \<lparr>sf_data = first_record (\<lambda>_. 7), sf_synced = 24, sf_linked = True\<rparr>)], manifest = Some (manifest_text 1),
    manifest_dur = Some (manifest_text 1), quarantine = [], faults = []\<rparr>"
  have "checkpoint 1 ?f (fresh_disk (first_record (\<lambda>_. 7)) 24\<lparr>faults := []\<rparr>) = (Ok (), ?g, ?w)"
    by (simp add: checkpoint_def fresh_wal_def open_wal_def write_manifest_def try_sys_def sys_def fsync_dir_def fresh_disk_def)
  then have reach: "wal_reach (\<lambda>_. 7) store_only read_only (Up ?g ?w)"
    by (intro reach_op [OF reach_first, where op = "OpCheckpoint 1" and fs = "[]"]) simp_all
  have t: "truncate_before 1 ?g (?w\<lparr>faults := []\<rparr>) = (Ok (), ?g, ?w)"
    by (simp add: truncate_before_def run_retention_raw_def fresh_wal_def open_wal_def try_sys_def sys_def
        list_segs_with_size_def Let_def)
  have lr: "log_records (\<lambda>_. 7) read_only ?g ?w = [(1, [5])]"
    by (simp add: log_records_def scan_dir_def try_sys_def sys_def append_bytes_def seg_upd_def
        bind_io_def scan_one_def Let_def seg_data_def fresh_wal_def open_wal_def scan_first repair_action_def
        segment_done_def empty_report_def)
  from truncate_keeps_records [OF reach store_only_ok t] have "(1, [5]) \<in> set (log_records (\<lambda>_. 7) read_only ?g ?w)" by (simp add: lr)
  then show ?thesis unfolding Let_def using reach t by blast
qed

text \<open>A poisoned log rejects everything. After a write-side failure every mutating operation returns
  \<open>Poisoned\<close> and changes neither the instance nor the directory.\<close>

theorem poisoned_rejects_all:
  assumes "w_state g = PoisonedState" "\<not> locked g" "length payload \<le> max_record"
  shows "wal_append crc compress now payload g w = (Err Poisoned, g, w) \<and> flush g w = (Err Poisoned, g, w) \<and>
    sync g w = (Err Poisoned, g, w) \<and> checkpoint l g w = (Err Poisoned, g, w) \<and>
    truncate_before l g w = (Err Poisoned, g, w) \<and>
    (l \<noteq> 0 \<longrightarrow> run_retention l g w = (Err Poisoned, g, w)) \<and> is_poisoned g = Ok True"
proof -
  have "\<not> max_record < length payload" using assms(3) by simp
  moreover have "encode_payload compress payload (w_compression g = Lz4) 64 =
      (fst (encode_payload compress payload (w_compression g = Lz4) 64), snd (encode_payload compress payload (w_compression g = Lz4) 64))"
    by simp
  ultimately have "wal_append crc compress now payload g w = (Err Poisoned, g, w)"
    using assms(1,2) unfolding wal_append_def Let_def by (simp add: split_def)
  then show ?thesis
    using assms(1,2) by (simp add: flush_def sync_def checkpoint_def truncate_before_def run_retention_def
        run_retention_raw_def is_poisoned_def)
qed

theorem poisoned_rejects_all_witness:
  "sync (poison (fresh_wal config_new)) (fresh_disk [] 0) = (Err Poisoned, poison (fresh_wal config_new), fresh_disk [] 0)"
  using poisoned_rejects_all [of "poison (fresh_wal config_new)" "[]"]
  by (simp add: fresh_wal_def open_wal_def)

end
