(* ===== verification/Ramwal_Limits.thy ===== *)
theory Ramwal_Limits
  imports Ramwal_Props
begin

text \<open>
  Where the write-ahead log of \<^verbatim>\<open>crates/ramwal\<close> falls short of its own contract: rotation blocks the writer
  for good, a payload that LZ4 expands beyond the record limit is acknowledged and cannot be read
  back, opening does not make the segment it creates or the records it recovers durable.
\<close>

section \<open>Calls that do not fail\<close>

lemma faults_upd [simp]:
  "faults (append_bytes i bs w) = faults w" "faults (seg_upd i f w) = faults w" "faults (seg_insert i s w) = faults w"
  by (simp_all add: append_bytes_def seg_upd_def seg_insert_def)

lemma sys_calm [simp]: "faults w = [] \<Longrightarrow> sys w = (None, w)"
  by (simp add: sys_def)

lemma flush_buf_calm:
  "faults w = [] \<Longrightarrow> \<exists>w'. flush_buf g w = (None, g\<lparr>w_buf := []\<rparr>, w') \<and> faults w' = []"
  by (auto simp: flush_buf_def)

lemma sync_inner_calm:
  assumes "faults w = []"
  shows "\<exists>w'. sync_inner g w = (None, g\<lparr>w_buf := []\<rparr>, w') \<and> faults w' = []"
  using flush_buf_calm [OF assms, of g] by (auto simp: sync_inner_def sync_data_def)

lemma write_all_calm:
  assumes "faults w = []"
  shows "\<exists>b w'. write_all bs g w = (None, g\<lparr>w_buf := b\<rparr>, w') \<and> faults w' = []"
proof -
  obtain w1 where f: "flush_buf g w = (None, g\<lparr>w_buf := []\<rparr>, w1)" "faults w1 = []" using flush_buf_calm [OF assms] by blast
  show ?thesis
  proof (cases "length bs > buffer_capacity g - length (w_buf g)")
    case True
    then show ?thesis using f by (auto simp: write_all_def Let_def)
  next
    case False
    then show ?thesis using assms by (auto simp: write_all_def Let_def intro: exI [of _ "w_buf g"])
  qed
qed

lemma append_writes_calm:
  assumes "faults w = []"
  shows "\<exists>b w'. append_writes hdr stored g w = (None, g\<lparr>w_buf := b\<rparr>, w') \<and> faults w' = []"
proof -
  obtain b w1 where h: "write_all hdr g w = (None, g\<lparr>w_buf := b\<rparr>, w1)" "faults w1 = []" using write_all_calm [OF assms] by blast
  from write_all_calm [OF h(2), of stored "g\<lparr>w_buf := b\<rparr>"] show ?thesis by (auto simp: append_writes_def h(1))
qed

text \<open>The group commit deadline does not overflow.\<close>

definition clock_ok :: "u64 \<Rightarrow> wal \<Rightarrow> bool" where
  "clock_ok now g \<longleftrightarrow> (w_durability g = GroupCommit \<longrightarrow> checked_add now group_commit_window_ns \<noteq> None)"

lemma barrier_calm:
  assumes "faults w = []" "clock_ok now g"
  shows "\<exists>r b t w'. barrier now g w = (Ok r, g\<lparr>w_buf := b, next_sync_due_ns := t\<rparr>, w') \<and> faults w' = []"
proof -
  have e: "\<exists>b t. g = g\<lparr>w_buf := b, next_sync_due_ns := t\<rparr>"
    by (intro exI [of _ "w_buf g"] exI [of _ "next_sync_due_ns g"]) simp
  have e2: "\<exists>b t. g\<lparr>w_buf := []\<rparr> = g\<lparr>w_buf := b, next_sync_due_ns := t\<rparr>"
    by (intro exI [of _ "[]"] exI [of _ "next_sync_due_ns g"]) simp
  obtain w1 where s: "sync_inner g w = (None, g\<lparr>w_buf := []\<rparr>, w1)" "faults w1 = []" using sync_inner_calm [OF assms(1)] by blast
  show ?thesis
  proof (cases "w_durability g")
    case SyncEach
    then show ?thesis using s e2 by (auto simp: barrier_def)
  next
    case GroupCommit
    then obtain t where "checked_add now group_commit_window_ns = Some t" using assms(2) by (auto simp: clock_ok_def)
    then show ?thesis
      using GroupCommit s e assms(1) by (cases "now \<ge> next_sync_due_ns g") (auto simp: barrier_def maybe_group_commit_def)
  qed (use e assms(1) in \<open>auto simp: barrier_def\<close>)
qed

lemma checked_add_one: "w \<noteq> - 1 \<Longrightarrow> checked_add w (1 :: u64) = Some (w + 1)"
proof -
  assume w: "w \<noteq> - 1"
  have "unat w \<noteq> unat (- 1 :: u64)" using w by (simp only: word_unat_eq_iff [symmetric] not_False_eq_True)
  then have "unat w \<noteq> 2 ^ 64 - 1" by (simp only: unat_max_word) simp
  moreover have "unat w < 2 ^ 64" using unat_lt2p [of w] by simp
  ultimately show ?thesis by (simp add: checked_add_def)
qed

lemma rotate_calm:
  assumes "faults w = []" "w_seg g \<noteq> - 1"
  shows "\<exists>g' w'. rotate l g w = (Deadlock, g', w') \<and> locked g'"
proof -
  obtain w1 where s: "sync_inner g w = (None, g\<lparr>w_buf := []\<rparr>, w1)" "faults w1 = []" using sync_inner_calm [OF assms(1)] by blast
  then show ?thesis using checked_add_one [OF assms(2)] by (simp add: rotate_def Let_def)
qed

section \<open>Rotation\<close>

text \<open>C20: Rotation never returns. When an append fills the active segment and no system call fails, it blocks
  forever on the writer mutex it already holds, and from then on every other call that takes the
  mutex blocks too.\<close>

theorem append_rotation_deadlocks:
  assumes calm: "faults w = []" and o: "w_state g = Open" "\<not> locked g" "\<not> w_fail_next_write g" "\<not> w_fail_next_diskfull g"
    and room: "lsn_counter g \<noteq> - 1" "w_seg g \<noteq> - 1" "clock_ok now g" "length payload \<le> max_record"
    and full: "seg_max g \<le> w_bytes g + header_size + length (fst (encode_payload compress payload (w_compression g = Lz4) 64))"
  shows "\<exists>g' w'. wal_append crc compress now payload g w = (Deadlock, g', w') \<and>
    durable_lsn g' = Deadlock \<and> current_lsn g' = Deadlock \<and> is_poisoned g' = Deadlock \<and>
    (\<forall>v l t q. sync g' v = (Deadlock, g', v) \<and> flush g' v = (Deadlock, g', v) \<and> checkpoint l g' v = (Deadlock, g', v) \<and>
       truncate_before l g' v = (Deadlock, g', v) \<and>
       (length q \<le> max_record \<longrightarrow> wal_append crc compress t q g' v = (Deadlock, g', v)))"
proof -
  obtain stored flags where e: "encode_payload compress payload (w_compression g = Lz4) 64 = (stored, flags)" by fastforce
  let ?g = "g\<lparr>lsn_counter := lsn_counter g + 1\<rparr>" and ?hdr = "header_encode (header_new crc (lsn_counter g) stored flags)"
  let ?h = "\<lambda>b. ?g\<lparr>w_buf := b, w_bytes := w_bytes g + header_size + length stored, written_lsn := lsn_counter g\<rparr>"
  obtain b w1 where aw: "append_writes ?hdr stored ?g w = (None, ?g\<lparr>w_buf := b\<rparr>, w1)" and f1: "faults w1 = []"
    using append_writes_calm [OF calm] by blast
  have "clock_ok now (?h b)" using room(3) by (simp add: clock_ok_def)
  from barrier_calm [OF f1 this] obtain r b' d w2 where
    ba: "barrier now (?h b) w1 = (Ok r, (?h b)\<lparr>w_buf := b', next_sync_due_ns := d\<rparr>, w2)" and f2: "faults w2 = []" by blast
  let ?k = "(if r then (?h b)\<lparr>w_buf := b', next_sync_due_ns := d, w_durable := lsn_counter g\<rparr>
    else (?h b)\<lparr>w_buf := b', next_sync_due_ns := d\<rparr>)"
  have "w_seg ?k \<noteq> - 1" using room(2) by simp
  from rotate_calm [OF f2 this] obtain g' w' where ro: "rotate (lsn_counter g) ?k w2 = (Deadlock, g', w')" and lk: "locked g'"
    by blast
  have "append_commit now (lsn_counter g) (?h b) w1 = (Deadlock, g', w')"
    using full ro unfolding append_commit_def ba by (cases r) (simp_all add: e Let_def)
  then have "wal_append crc compress now payload g w = (Deadlock, g', w')"
    using o room aw by (simp add: wal_append_def e Let_def)
  moreover have "wal_append crc compress t q g' v = (Deadlock, g', v)" if "length q \<le> max_record" for q t v
    using lk that unfolding wal_append_def by (simp add: not_less split_def)
  moreover have "sync g' v = (Deadlock, g', v)" "flush g' v = (Deadlock, g', v)" "checkpoint l g' v = (Deadlock, g', v)"
    "truncate_before l g' v = (Deadlock, g', v)" "durable_lsn g' = Deadlock" "current_lsn g' = Deadlock"
    "is_poisoned g' = Deadlock" for l v
    using lk by (simp_all add: sync_def flush_def checkpoint_def truncate_before_def durable_lsn_def current_lsn_def is_poisoned_def)
  ultimately show ?thesis by (intro exI [of _ g'] exI [of _ w'] conjI allI impI)
qed

definition tiny_config :: config where
  "tiny_config = config_new\<lparr>seg_max_bytes := 24\<rparr>"

theorem append_rotation_deadlocks_witness:
  "\<exists>g w. wal_append (\<lambda>_. 7) store_only 0 [5] (fresh_wal tiny_config) (fresh_disk [] 0) = (Deadlock, g, w) \<and>
     sync g w = (Deadlock, g, w)"
proof -
  let ?g = "fresh_wal tiny_config"
  have f: "faults (fresh_disk [] 0) = []" by (simp add: fresh_disk_def)
  have o: "w_state ?g = Open" "\<not> locked ?g" "\<not> w_fail_next_write ?g" "\<not> w_fail_next_diskfull ?g"
    "lsn_counter ?g \<noteq> - 1" "w_seg ?g \<noteq> - 1" "clock_ok 0 ?g"
    by (simp_all add: fresh_wal_def open_wal_def tiny_config_def config_new_def empty_report_def start_lsn_def clock_ok_def)
  have l: "length [5 :: u8] \<le> max_record" by (simp add: max_record_def max_record_size_def)
  have "seg_max ?g \<le> w_bytes ?g + header_size + length (fst (encode_payload store_only [5] (w_compression ?g = Lz4) 64))"
    by (simp add: fresh_wal_def open_wal_def tiny_config_def config_new_def encode_payload_def header_size_def)
  from append_rotation_deadlocks [OF f o l this, of "\<lambda>_. 7"] show ?thesis by blast
qed

section \<open>Expanding compression\<close>

lemma header_decode_long:
  assumes "max_record < length stored" "length stored < 2 ^ 32"
  shows "header_decode (take header_size (header_encode (header_new crc l stored flags) @ rest)) =
    Some (Inl (InvalidLength 14 (of_nat (length stored))))"
proof -
  have "unat (of_nat (length stored) :: u32) = length stored" using assms(2) by (simp add: unat_of_nat_small)
  then have "(of_nat (length stored) :: u32) > max_record_size" using assms(1) by (simp add: word_less_nat_alt max_record_size_def)
  then have "header_decode (header_encode (header_new crc l stored flags) @ []) = Some (Inl (InvalidLength 14 (of_nat (length stored))))"
    unfolding header_decode_def header_slices by (simp add: Let_def header_new_def)
  then show ?thesis by simp
qed

lemma header_encode_ne [simp]: "header_encode h \<noteq> []"
  by (simp add: header_encode_def record_magic_def)

definition lz4_config :: config where
  "lz4_config = sync_config\<lparr>c_compression := Lz4\<rparr>"

text \<open>C31: A record that LZ4 expands beyond the limit is lost. The size check of append looks at the payload
  before compression: if the compressed form exceeds the limit, append acknowledges the record as
  durable, and every later open of the directory fails with an invalid length.\<close>

theorem expanded_record_unreadable:
  assumes "64 < length payload" "length payload \<le> max_record"
    and "max_record < length (compress payload)" "length (compress payload) + header_size < seg_max_bytes lz4_config"
  shows "\<exists>g w. wal_append crc compress now payload (fresh_wal lz4_config) (fresh_disk [] 0) = (Ok 1, g, w) \<and> w_durable g = 1 \<and>
    fst (open_log crc dz lz4_config w) =
      Inl (Corruption 1 0 (InvalidLength 14 (of_nat (length (compress payload)))))"
proof -
  let ?z = "compress payload"
  let ?e = "enc_item crc (1, ?z, flag_compressed)"
  let ?w = "fresh_disk ?e (length ?e)"
  have long: "65536 < length ?z" using assms(3) by (simp add: max_record_def max_record_size_def)
  have seg: "length ?z + 23 < 67108864"
    using assms(4) by (simp add: lz4_config_def sync_config_def config_new_def header_size_def)
  have "wal_append crc compress now payload (fresh_wal lz4_config) (fresh_disk [] 0) =
    (Ok 1, (fresh_wal lz4_config)\<lparr>lsn_counter := 2, w_bytes := 23 + length ?z, written_lsn := 1, w_durable := 1\<rparr>, ?w)"
    using assms(1,2) long seg
    by (simp add: wal_append_def encode_payload_def Let_def fresh_wal_def open_wal_def empty_report_def start_lsn_def
        append_writes_def write_all_def lz4_config_def sync_config_def config_new_def header_size_def append_commit_def barrier_def
        sync_inner_def flush_buf_def sys_def fresh_disk_def sync_data_def append_bytes_def seg_upd_def enc_item_def
        or_zero_def List.map_filter_simps length_enc_item)
  moreover have "fst (open_log crc dz lz4_config ?w) = Inl (Corruption 1 0 (InvalidLength 14 (of_nat (length ?z))))"
  proof -
    have "length ?z < 2 ^ 32" using seg by simp
    from header_decode_long [OF assms(3) this]
    have hd: "header_decode (take header_size ?e) = Some (Inl (InvalidLength 14 (of_nat (length ?z))))"
      by (simp add: enc_item_def)
    have "\<not> length ?e < header_size" "?e \<noteq> []" by (auto simp: length_enc_item header_size_def enc_item_def header_encode_def record_magic_def)
    then have "scan_segment crc dz None 1 0 None [] ?e = Inl (Corruption 1 0 (InvalidLength 14 (of_nat (length ?z))))"
      by (subst scan_segment.simps) (simp add: hd)
    then show ?thesis
      by (simp add: open_log_def lz4_config_def sync_config_def config_new_def check_config_def header_size_def
          try_sys_def sys_def fresh_disk_def bind_io_def fsync_dir_def recover_def recover_dir_def scan_dir_def Let_def
          scan_one_def seg_data_def empty_report_def)
  qed
  moreover have "w_durable ((fresh_wal lz4_config)\<lparr>lsn_counter := 2, w_bytes := 23 + length ?z, written_lsn := 1, w_durable := 1\<rparr>) = 1"
    by simp
  ultimately show ?thesis by blast
qed

definition inflate :: "bytes \<Rightarrow> bytes" where
  "inflate x = to_le_bytes (of_nat (length x) :: u32) @ [0] @ x"

theorem expanded_record_unreadable_witness:
  "\<exists>g w. wal_append (\<lambda>_. 7) inflate 0 (replicate 65536 9) (fresh_wal lz4_config) (fresh_disk [] 0) = (Ok 1, g, w) \<and> w_durable g = 1 \<and>
    fst (open_log (\<lambda>_. 7) read_only lz4_config w) = Inl (Corruption 1 0 (InvalidLength 14 65541))"
proof -
  let ?p = "replicate 65536 (9 :: u8)"
  have p: "64 < length ?p" "length ?p \<le> max_record" "max_record < length (inflate ?p)"
    "length (inflate ?p) + header_size < seg_max_bytes lz4_config"
    by (simp_all only: length_replicate inflate_def length_append)
      (simp_all add: max_record_def max_record_size_def header_size_def lz4_config_def sync_config_def config_new_def)
  have l: "length (inflate ?p) = 65541" by (simp only: length_replicate inflate_def length_append) simp
  from expanded_record_unreadable [where compress = inflate, OF p, of "\<lambda>_. 7" 0 read_only] show ?thesis unfolding l by simp
qed

section \<open>What opening leaves volatile\<close>

text \<open>The state of the log after its first record was appended under \<open>SyncEach\<close>.\<close>

definition first_wal :: wal where
  "first_wal = (fresh_wal sync_config)\<lparr>lsn_counter := 2, w_bytes := 24, written_lsn := 1, w_durable := 1\<rparr>"

text \<open>C30: A synced record can vanish with its directory entry. Opening creates the active segment without syncing
  the directory: a record appended to a new log under \<open>SyncEach\<close> is acknowledged as durable, yet a
  machine crash may leave a directory without the segment, and reopening recovers nothing.\<close>

theorem first_segment_entry_lost:
  "wal_append crc compress 0 [5] (fresh_wal sync_config) (fresh_disk [] 0) = (Ok 1, first_wal, fresh_disk (first_record crc) 24) \<and>
   durable_lsn first_wal = Ok 1 \<and> crash (fresh_disk (first_record crc) 24) empty_disk \<and>
   open_log crc dz sync_config empty_disk = (Inr (fresh_wal sync_config), fresh_disk [] 0)"
proof -
  have "crash (fresh_disk (first_record crc) 24)
    (fresh_disk (first_record crc) 24\<lparr>segs := [], manifest := manifest_dur (fresh_disk (first_record crc) 24)\<rparr>)"
    by (rule revert) (simp add: fresh_disk_def)
  then have "crash (fresh_disk (first_record crc) 24) empty_disk" by (simp add: fresh_disk_def empty_disk_def)
  moreover have "durable_lsn first_wal = Ok 1" by (simp add: durable_lsn_def first_wal_def fresh_wal_def open_wal_def)
  moreover have "open_log crc dz sync_config empty_disk = (Inr (fresh_wal sync_config), fresh_disk [] 0)"
    using open_empty [OF sync_config_ok, of crc dz] by (simp add: empty_disk_def)
  ultimately show ?thesis using append_fresh [of crc compress] by (simp add: first_wal_def)
qed

text \<open>C29: Recovered records are called durable without being synced. A record that reached the file but was
  never synced, found by reopening after the process restarted, counts as durable at once: a checkpoint at it succeeds, and a power
  failure that loses the unsynced bytes leaves a directory whose checkpoint exceeds its records,
  which no open accepts.\<close>

theorem recovered_not_durable:
  "\<exists>g w w1 w2. open_log crc dz config_new (fresh_disk (first_record crc) 0) = (Inr g, w) \<and> durable_lsn g = Ok 1 \<and>
     map_of (segs w) 1 = Some \<lparr>sf_data = first_record crc, sf_synced = 0, sf_linked = True\<rparr> \<and>
     checkpoint 1 g w = (Ok (), g\<lparr>w_ckpt := 1\<rparr>, w1) \<and> crash w1 w2 \<and>
     fst (open_log crc dz config_new w2) = Inl (Manifest (manifest_msg 1 0))"
proof -
  let ?d = "\<lambda>d n m. \<lparr>segs = [(1 :: u64, \<lparr>sf_data = d, sf_synced = n, sf_linked = True\<rparr>)], manifest = m,
     manifest_dur = m, quarantine = [], faults = []\<rparr>"
  let ?m = "Some (manifest_text 1)"
  let ?r = "\<lparr>rec_report = \<lparr>rr_first = Some 1, rr_last = Some 1, rr_records = [(1, [5])], rr_segments = 1, rr_append = 24,
     rr_tail = TailClean, rr_repaired = False, rr_truncated = 0, rr_reports = [(1, Some 1)]\<rparr>, rec_segment = 1, rec_offset = 24\<rparr>"
  let ?g = "open_wal config_new ?r 0"
  have o: "open_log crc dz config_new (fresh_disk (first_record crc) 0) = (Inr ?g, ?d (first_record crc) 0 None)"
    by (simp add: open_log_def try_sys_def sys_def fresh_disk_def bind_io_def fsync_dir_def recover_def recover_dir_def
        scan_dir_def Let_def scan_one_def seg_data_def empty_report_def scan_first repair_action_def segment_done_def
        read_manifest_def open_recovered_def or_zero_def open_segment_def run_retention_def)
  have c: "checkpoint 1 ?g (?d (first_record crc) 0 None) = (Ok (), ?g\<lparr>w_ckpt := 1\<rparr>, ?d (first_record crc) 0 ?m)"
    by (simp add: checkpoint_def open_wal_def or_zero_def write_manifest_def try_sys_def sys_def fsync_dir_def)
  have "crash (?d (first_record crc) 0 ?m) (?d (first_record crc) 0 ?m\<lparr>segs := [(1, \<lparr>sf_data = [], sf_synced = 0, sf_linked = True\<rparr>)],
      manifest_dur := manifest (?d (first_record crc) 0 ?m)\<rparr>)"
    by (rule keep) (simp add: cut_ok_def)
  then have cr: "crash (?d (first_record crc) 0 ?m) (?d [] 0 ?m)" by simp
  have "scan_segment crc dz None 1 0 None [] [] =
      Inr \<lparr>sr_valid = 0, sr_truncate = False, sr_tail = TailClean, sr_prev = None, sr_out = []\<rparr>"
    by (subst scan_segment.simps) (simp add: at_eof_def)
  then have "fst (open_log crc dz config_new (?d [] 0 ?m)) = Inl (Manifest (manifest_msg 1 0))"
    by (simp add: open_log_def try_sys_def sys_def bind_io_def fsync_dir_def recover_def recover_dir_def
        scan_dir_def Let_def scan_one_def seg_data_def empty_report_def repair_action_def segment_done_def
        read_manifest_def open_recovered_def or_zero_def)
  moreover have "durable_lsn ?g = Ok 1" by (simp add: durable_lsn_def open_wal_def or_zero_def)
  ultimately show ?thesis using o c cr
    by (intro exI [of _ ?g] exI [of _ "?d (first_record crc) 0 None"] exI [of _ "?d (first_record crc) 0 ?m"]
        exI [of _ "?d [] 0 ?m"]) simp
qed

end
