(* ===== verification/Ip_Network.thy ===== *)
theory Ip_Network
  imports Rust_Prelude
begin

text \<open>
  IP addresses and CIDR prefixes: \<^verbatim>\<open>crates/ramshield-types/src/ip_network.rs\<close>.

  \<^verbatim>\<open>IpAddr\<close> is a tagged word of 32 or 128 bits (\<^verbatim>\<open>u32::from\<close>/\<^verbatim>\<open>u128::from\<close> read an address as
  its big-endian integer) with the derived order of \<^verbatim>\<open>std::net::IpAddr\<close>. The smart constructor
  \<open>net_new\<close> validates and normalises; \<open>wf_net\<close> is the invariant it establishes, and the lemmas
  show that membership is agreement on the prefix bits, that two networks of one family are
  nested or disjoint, that the per-family canonical subnets are instances of \<open>net_new\<close>, and
  that \<open>pack\<close>/\<open>unpack\<close> round-trip.
\<close>

unbundle bit_operations_syntax

section \<open>Addresses\<close>

datatype ipaddr = V4 u32 | V6 u128

instantiation ipaddr :: linorder
begin

fun less_eq_ipaddr :: "ipaddr \<Rightarrow> ipaddr \<Rightarrow> bool" where
  "less_eq_ipaddr (V4 a) (V4 b) \<longleftrightarrow> a \<le> b"
| "less_eq_ipaddr (V4 a) (V6 b) \<longleftrightarrow> True"
| "less_eq_ipaddr (V6 a) (V4 b) \<longleftrightarrow> False"
| "less_eq_ipaddr (V6 a) (V6 b) \<longleftrightarrow> a \<le> b"

definition less_ipaddr :: "ipaddr \<Rightarrow> ipaddr \<Rightarrow> bool" where
  "less_ipaddr a b \<longleftrightarrow> a \<le> b \<and> \<not> b \<le> a"

instance
proof
  fix x y z :: ipaddr
  show "x < y \<longleftrightarrow> x \<le> y \<and> \<not> y \<le> x" by (rule less_ipaddr_def)
  show "x \<le> x" by (cases x) auto
  show "x \<le> y \<Longrightarrow> y \<le> z \<Longrightarrow> x \<le> z" by (cases x; cases y; cases z) auto
  show "x \<le> y \<Longrightarrow> y \<le> x \<Longrightarrow> x = y" by (cases x; cases y) auto
  show "x \<le> y \<or> y \<le> x" by (cases x; cases y) auto
qed

end

fun ip_family :: "ipaddr \<Rightarrow> u8" where
  "ip_family (V4 _) = 4"
| "ip_family (V6 _) = 6"

text \<open>\<^verbatim>\<open>IpAddr::is_unspecified\<close>: 0.0.0.0 or ::.\<close>

fun is_unspecified :: "ipaddr \<Rightarrow> bool" where
  "is_unspecified (V4 w) \<longleftrightarrow> w = 0"
| "is_unspecified (V6 w) \<longleftrightarrow> w = 0"

fun octets :: "ipaddr \<Rightarrow> bytes" where
  "octets (V4 w) = to_be_bytes w"
| "octets (V6 w) = to_be_bytes w"

section \<open>Networks\<close>

record ip_network =
  net_addr :: ipaddr
  prefix_len :: u8

datatype net_error = PrefixTooLong | InvalidFamily

fun max_prefix :: "ipaddr \<Rightarrow> u8" where
  "max_prefix (V4 _) = 32"
| "max_prefix (V6 _) = 128"

text \<open>The mask \<^verbatim>\<open>!0 << (W - prefix_len)\<close>, with the guard that avoids a full-width shift.\<close>

definition prefix_mask :: "u8 \<Rightarrow> 'a::len word" where
  "prefix_mask p = (if p = 0 then 0 else push_bit (LENGTH('a) - unat p) (- 1))"

fun net_new :: "ipaddr \<Rightarrow> u8 \<Rightarrow> (ip_network, net_error) outcome" where
  "net_new (V4 w) p =
     (if max_prefix (V4 w) < p then Err PrefixTooLong
      else Ok \<lparr>net_addr = V4 (w AND prefix_mask p), prefix_len = p\<rparr>)"
| "net_new (V6 w) p =
     (if max_prefix (V6 w) < p then Err PrefixTooLong
      else Ok \<lparr>net_addr = V6 (w AND prefix_mask p), prefix_len = p\<rparr>)"

text \<open>Deserialisation goes through \<^verbatim>\<open>new\<close>, so a stored frame cannot carry an invalid prefix.\<close>

definition net_deserialize :: "ipaddr \<times> u8 \<Rightarrow> (ip_network, net_error) outcome" where
  "net_deserialize raw = net_new (fst raw) (snd raw)"

definition ipv4_subnet :: "u32 \<Rightarrow> ip_network" where
  "ipv4_subnet w =
     (let o4 = to_be_bytes w
      in \<lparr>net_addr = V4 (from_be_bytes [o4 ! 0, o4 ! 1, o4 ! 2, 0]), prefix_len = 24\<rparr>)"

definition ipv6_subnet :: "u128 \<Rightarrow> ip_network" where
  "ipv6_subnet w =
     (let o16 = to_be_bytes w
      in \<lparr>net_addr = V6 (from_be_bytes (take 8 o16 @ replicate 8 0)), prefix_len = 64\<rparr>)"

definition net_family :: "ip_network \<Rightarrow> u8" where
  "net_family n = ip_family (net_addr n)"

fun of_ip :: "ipaddr \<Rightarrow> ip_network" where
  "of_ip (V4 w) = ipv4_subnet w"
| "of_ip (V6 w) = ipv6_subnet w"

definition net_contains :: "ip_network \<Rightarrow> ipaddr \<Rightarrow> bool" where
  "net_contains n ip =
     (if net_family n \<noteq> ip_family ip then False
      else (case (net_addr n, ip) of
              (V4 net, V4 host) \<Rightarrow>
                net AND prefix_mask (prefix_len n) = host AND prefix_mask (prefix_len n)
            | (V6 net, V6 host) \<Rightarrow>
                net AND prefix_mask (prefix_len n) = host AND prefix_mask (prefix_len n)
            | _ \<Rightarrow> False))"

definition net_pack :: "ip_network \<Rightarrow> u128" where
  "net_pack n = (case net_addr n of V4 w \<Rightarrow> ucast w | V6 w \<Rightarrow> from_be_bytes (to_be_bytes w))"

definition net_unpack :: "u128 \<Rightarrow> u8 \<Rightarrow> u8 \<Rightarrow> (ip_network, net_error) outcome" where
  "net_unpack packed family p =
     (if family = 4 then net_new (V4 (from_be_bytes (to_be_bytes (ucast packed :: u32)))) p
      else if family = 6 then net_new (V6 (from_be_bytes (to_be_bytes packed))) p
      else Err InvalidFamily)"

definition prefix_bytes :: "ip_network \<Rightarrow> bytes" where
  "prefix_bytes n =
     (case net_addr n of
        V4 w \<Rightarrow>
          (let o4 = to_be_bytes w
           in if prefix_len n \<le> 8 then [o4 ! 0]
              else if prefix_len n \<le> 16 then [o4 ! 0, o4 ! 1]
              else if prefix_len n \<le> 24 then [o4 ! 0, o4 ! 1, o4 ! 2]
              else o4)
      | V6 w \<Rightarrow>
          (let byte_len = (unat (prefix_len n) + 7) div 8
           in take (min byte_len 16) (to_be_bytes w)))"

section \<open>Well-formed networks\<close>

definition wf_net :: "ip_network \<Rightarrow> bool" where
  "wf_net n \<longleftrightarrow>
     prefix_len n \<le> max_prefix (net_addr n) \<and>
     (case net_addr n of
        V4 w \<Rightarrow> w AND prefix_mask (prefix_len n) = w
      | V6 w \<Rightarrow> w AND prefix_mask (prefix_len n) = w)"

subsection \<open>The mask, bit by bit\<close>

lemma bit_prefix_mask:
  assumes "unat p \<le> LENGTH('a::len)"
  shows "bit (prefix_mask p :: 'a word) i \<longleftrightarrow> LENGTH('a) - unat p \<le> i \<and> i < LENGTH('a)"
proof (cases "p = 0")
  case True
  then show ?thesis by (simp add: prefix_mask_def)
next
  case False
  then show ?thesis
    by (auto simp: prefix_mask_def bit_simps possible_bit_word)
qed

lemma and_prefix_mask_eq_iff:
  fixes a b :: "'a::len word"
  assumes "unat p \<le> LENGTH('a)"
  shows "a AND prefix_mask p = b AND prefix_mask p \<longleftrightarrow>
         (\<forall>i. LENGTH('a) - unat p \<le> i \<and> i < LENGTH('a) \<longrightarrow> bit a i = bit b i)"
  using bit_prefix_mask [OF assms]
  by (auto simp: bit_eq_iff bit_and_iff)

lemma and_prefix_mask_drop_bit:
  fixes a b :: "'a::len word"
  assumes "unat p \<le> LENGTH('a)"
  shows "a AND prefix_mask p = b AND prefix_mask p \<longleftrightarrow>
         drop_bit (LENGTH('a) - unat p) a = drop_bit (LENGTH('a) - unat p) b"
    (is "_ \<longleftrightarrow> drop_bit ?k a = drop_bit ?k b")
proof -
  have beyond: "bit a (?k + i) = bit b (?k + i)" if "\<not> i < LENGTH('a)" for i
    using that by (auto dest: bit_imp_le_length)
  then have "drop_bit ?k a = drop_bit ?k b \<longleftrightarrow> (\<forall>i. bit a (?k + i) = bit b (?k + i))"
    by (auto simp: bit_eq_iff bit_drop_bit_eq)
  also have "\<dots> \<longleftrightarrow> (\<forall>i. ?k \<le> i \<and> i < LENGTH('a) \<longrightarrow> bit a i = bit b i)"
  proof
    assume all: "\<forall>i. bit a (?k + i) = bit b (?k + i)"
    show "\<forall>i. ?k \<le> i \<and> i < LENGTH('a) \<longrightarrow> bit a i = bit b i"
    proof (intro allI impI)
      fix i
      assume "?k \<le> i \<and> i < LENGTH('a)"
      moreover have "bit a (?k + (i - ?k)) = bit b (?k + (i - ?k))" using all by blast
      ultimately show "bit a i = bit b i" by simp
    qed
  next
    assume *: "\<forall>i. ?k \<le> i \<and> i < LENGTH('a) \<longrightarrow> bit a i = bit b i"
    show "\<forall>i. bit a (?k + i) = bit b (?k + i)"
    proof
      fix i
      show "bit a (?k + i) = bit b (?k + i)"
        using * by (cases "?k + i < LENGTH('a)") (auto dest: bit_imp_le_length)
    qed
  qed
  finally show ?thesis
    using and_prefix_mask_eq_iff [OF assms] by blast
qed

lemma prefix_mask_idem: "(w AND prefix_mask p) AND prefix_mask p = w AND prefix_mask (p :: u8)"
  by (simp add: and.assoc)

lemma and_prefix_mask_mono:
  fixes a b :: "'a::len word"
  assumes "unat p \<le> unat q" "unat q \<le> LENGTH('a)"
    and "a AND prefix_mask q = b AND prefix_mask q"
  shows "a AND prefix_mask p = b AND prefix_mask p"
  using assms by (auto simp: and_prefix_mask_eq_iff)

lemma and_prefix_mask_chain:
  fixes w v a x :: "'a::len word"
  assumes "unat p \<le> unat q" "unat q \<le> LENGTH('a)"
    and "w AND prefix_mask p = a AND prefix_mask p"
    and "v AND prefix_mask q = a AND prefix_mask q"
    and "v AND prefix_mask q = x AND prefix_mask q"
  shows "w AND prefix_mask p = x AND prefix_mask p"
  using assms and_prefix_mask_mono [OF assms(1,2), of a x] by simp

lemma prefix_le_unat: "(p :: u8) \<le> 32 \<longleftrightarrow> unat p \<le> 32" "(p :: u8) \<le> 128 \<longleftrightarrow> unat p \<le> 128"
  by (simp_all add: word_le_nat_alt)

lemma and_prefix_mask_push_drop:
  fixes w :: "'a::len word"
  assumes "unat p \<le> LENGTH('a)"
  shows "w AND prefix_mask p = push_bit (LENGTH('a) - unat p) (drop_bit (LENGTH('a) - unat p) w)"
  by (rule bit_word_eqI)
    (auto simp: bit_and_iff bit_prefix_mask [OF assms] bit_push_bit_iff bit_drop_bit_eq possible_bit_word)

lemma unat_push_drop:
  fixes w :: "'a::len word"
  shows "unat (push_bit k (drop_bit k w)) = 2 ^ k * (unat w div 2 ^ k)"
proof -
  have "2 ^ k * (unat w div 2 ^ k) < 2 ^ LENGTH('a)"
    by (rule le_less_trans [OF _ unat_lt2p [of w]]) simp
  moreover have "unat (push_bit k (drop_bit k w)) =
      take_bit LENGTH('a) (push_bit k (drop_bit k (unat w)))"
    by (simp only: unsigned_push_bit_eq unat_drop_bit_eq)
  moreover have "push_bit k (drop_bit k (unat w)) = 2 ^ k * (unat w div 2 ^ k)"
    by (simp only: push_bit_eq_mult drop_bit_eq_div mult.commute)
  ultimately show ?thesis
    by (simp only: take_bit_eq_mod mod_less)
qed

lemma unat_and_prefix_mask:
  fixes w :: "'a::len word"
  assumes "unat p \<le> LENGTH('a)"
  shows "unat (w AND prefix_mask p) =
         2 ^ (LENGTH('a) - unat p) * (unat w div 2 ^ (LENGTH('a) - unat p))"
  by (simp add: and_prefix_mask_push_drop [OF assms] unat_push_drop)

lemma drop_nat_le_bytes: "drop k (nat_le_bytes n x) = nat_le_bytes (n - k) (x div 256 ^ k)"
proof (induction n arbitrary: k x)
  case (Suc n)
  show ?case by (cases k) (simp_all add: Suc.IH div_mult2_eq)
qed simp

lemma le_bytes_nat_zeros: "le_bytes_nat (replicate n 0 @ bs) = 256 ^ n * le_bytes_nat bs"
  by (induction n) simp_all

text \<open>Zeroing the low \<open>k\<close> bytes of the big-endian octets clears the low \<open>8 * k\<close> bits.\<close>

lemma from_be_bytes_take:
  fixes w :: "'a::len word"
  assumes "LENGTH('a) = 8 * n" "k \<le> n"
  shows "unat (from_be_bytes (take (n - k) (to_be_bytes w) @ replicate k 0) :: 'a word) =
         256 ^ k * (unat w div 256 ^ k)"
proof -
  have lt: "unat w < 256 ^ n"
    using unat_lt2p [of w] assms(1) by (simp add: power_mult)
  then have "unat w div 256 ^ k < 256 ^ (n - k)"
    using assms(2) by (simp add: div_less_iff_less_mult flip: power_add)
  then have *: "le_bytes_nat (rev (take (n - k) (to_be_bytes w) @ replicate k 0)) =
      256 ^ k * (unat w div 256 ^ k)"
    using assms
    by (simp add: to_be_bytes_def to_le_bytes_def take_rev drop_nat_le_bytes le_bytes_nat_zeros
        le_bytes_nat_nat_le_bytes)
  have "256 ^ k * (unat w div 256 ^ k) < 2 ^ LENGTH('a)"
    by (rule le_less_trans [OF _ unat_lt2p [of w]]) simp
  then show ?thesis
    by (simp only: from_be_bytes_def from_le_bytes_def * unat_of_nat_small)
qed

lemma first_three: "length xs = 4 \<Longrightarrow> [xs ! 0, xs ! 1, xs ! 2] = take 3 xs"
  by (auto simp: length_Suc_conv numeral_eq_Suc)

lemma ipv4_subnet_eq: "ipv4_subnet w = \<lparr>net_addr = V4 (w AND prefix_mask 24), prefix_len = 24\<rparr>"
proof -
  have "[to_be_bytes w ! 0, to_be_bytes w ! 1, to_be_bytes w ! 2] = take (4 - 1) (to_be_bytes w)"
    using first_three [of "to_be_bytes w"] by simp
  then have o4: "[to_be_bytes w ! 0, to_be_bytes w ! 1, to_be_bytes w ! 2, 0] =
      take (4 - 1) (to_be_bytes w) @ replicate 1 0"
    by (metis One_nat_def append_Cons append_Nil replicate_0 replicate_Suc)
  have "unat (from_be_bytes (take (4 - 1) (to_be_bytes w) @ replicate 1 0) :: u32)
      = 256 ^ 1 * (unat w div 256 ^ 1)"
    by (rule from_be_bytes_take) simp_all
  also have "\<dots> = unat (w AND prefix_mask 24)"
    using unat_and_prefix_mask [of 24 w] by simp
  finally have "(from_be_bytes (take (4 - 1) (to_be_bytes w) @ replicate 1 0) :: u32)
      = w AND prefix_mask 24"
    by (simp only: word_eq_iff_unat)
  then show ?thesis
    by (simp only: ipv4_subnet_def Let_def o4)
qed

lemma ipv6_subnet_eq: "ipv6_subnet w = \<lparr>net_addr = V6 (w AND prefix_mask 64), prefix_len = 64\<rparr>"
proof -
  have "unat (from_be_bytes (take (16 - 8) (to_be_bytes w) @ replicate 8 0) :: u128)
      = 256 ^ 8 * (unat w div 256 ^ 8)"
    by (rule from_be_bytes_take) simp_all
  also have "\<dots> = unat (w AND prefix_mask 64)"
    using unat_and_prefix_mask [of 64 w] by simp
  finally have "(from_be_bytes (take 8 (to_be_bytes w) @ replicate 8 0) :: u128)
      = w AND prefix_mask 64"
    by (simp add: word_eq_iff_unat)
  then show ?thesis
    by (simp only: ipv6_subnet_def Let_def)
qed

section \<open>Properties\<close>

lemma max_prefix_le: "p \<le> max_prefix ip \<longleftrightarrow> unat p \<le> (case ip of V4 _ \<Rightarrow> 32 | V6 _ \<Rightarrow> 128)"
  by (cases ip) (simp_all add: word_le_nat_alt)

lemma net_new_eq_Ok:
  "net_new ip p = Ok n \<longleftrightarrow>
     p \<le> max_prefix ip \<and> prefix_len n = p \<and>
     (case ip of V4 w \<Rightarrow> net_addr n = V4 (w AND prefix_mask p)
               | V6 w \<Rightarrow> net_addr n = V6 (w AND prefix_mask p))"
  by (cases ip; cases n) auto

declare net_new.simps [simp del]

lemma net_contains_V4:
  "net_contains n (V4 h) \<longleftrightarrow>
     (\<exists>w. net_addr n = V4 w \<and> w AND prefix_mask (prefix_len n) = h AND prefix_mask (prefix_len n))"
  by (cases "net_addr n") (auto simp: net_contains_def net_family_def)

lemma net_contains_V6:
  "net_contains n (V6 h) \<longleftrightarrow>
     (\<exists>w. net_addr n = V6 w \<and> w AND prefix_mask (prefix_len n) = h AND prefix_mask (prefix_len n))"
  by (cases "net_addr n") (auto simp: net_contains_def net_family_def)

lemma net_contains_cases:
  assumes "net_contains n ip"
  obtains (v4) w h where "net_addr n = V4 w" "ip = V4 h"
      "w AND prefix_mask (prefix_len n) = h AND prefix_mask (prefix_len n)"
    | (v6) w h where "net_addr n = V6 w" "ip = V6 h"
      "w AND prefix_mask (prefix_len n) = h AND prefix_mask (prefix_len n)"
  using assms by (cases ip) (auto simp: net_contains_V4 net_contains_V6)

lemma net_new_wf: "net_new ip p = Ok n \<Longrightarrow> wf_net n"
  by (cases ip) (auto simp: net_new_eq_Ok wf_net_def prefix_mask_idem)

lemma net_new_contains: "net_new ip p = Ok n \<Longrightarrow> net_contains n h \<longleftrightarrow> net_new h p = Ok n"
  by (cases ip; cases h; cases n)
    (auto simp: net_new_eq_Ok net_contains_V4 net_contains_V6 prefix_mask_idem)

lemma net_contains_mono:
  assumes "wf_net n" "wf_net m" "prefix_len n \<le> prefix_len m"
    and "net_contains n h" "net_contains m h" "net_contains m x"
  shows "net_contains n x"
proof -
  have pq: "unat (prefix_len n) \<le> unat (prefix_len m)"
    using assms(3) by (simp add: word_le_nat_alt)
  show ?thesis
    using assms(5)
  proof (cases rule: net_contains_cases)
    case (v4 w a)
    then have "unat (prefix_len m) \<le> 32"
      using assms(2) by (simp add: wf_net_def word_le_nat_alt)
    then have q: "unat (prefix_len m) \<le> LENGTH(32)" by simp
    obtain y where y: "x = V4 y" "w AND prefix_mask (prefix_len m) = y AND prefix_mask (prefix_len m)"
      using assms(6) v4 by (cases x) (auto simp: net_contains_V4 net_contains_V6)
    obtain u where u: "net_addr n = V4 u"
        "u AND prefix_mask (prefix_len n) = a AND prefix_mask (prefix_len n)"
      using assms(4) v4 by (auto simp: net_contains_V4)
    have "u AND prefix_mask (prefix_len n) = y AND prefix_mask (prefix_len n)"
      by (rule and_prefix_mask_chain [OF pq q u(2) v4(3) y(2)])
    with y u show ?thesis by (simp add: net_contains_V4)
  next
    case (v6 w a)
    then have "unat (prefix_len m) \<le> 128"
      using assms(2) by (simp add: wf_net_def word_le_nat_alt)
    then have q: "unat (prefix_len m) \<le> LENGTH(128)" by simp
    obtain y where y: "x = V6 y" "w AND prefix_mask (prefix_len m) = y AND prefix_mask (prefix_len m)"
      using assms(6) v6 by (cases x) (auto simp: net_contains_V4 net_contains_V6)
    obtain u where u: "net_addr n = V6 u"
        "u AND prefix_mask (prefix_len n) = a AND prefix_mask (prefix_len n)"
      using assms(4) v6 by (auto simp: net_contains_V6)
    have "u AND prefix_mask (prefix_len n) = y AND prefix_mask (prefix_len n)"
      by (rule and_prefix_mask_chain [OF pq q u(2) v6(3) y(2)])
    with y u show ?thesis by (simp add: net_contains_V6)
  qed
qed

text \<open>A normalised prefix is the interval of \<open>2 ^ (W - p)\<close> addresses starting at its base.\<close>

lemma masked_interval:
  fixes w h :: "'a::len word"
  assumes "unat p \<le> LENGTH('a)" "w AND prefix_mask p = w"
  shows "w AND prefix_mask p = h AND prefix_mask p \<longleftrightarrow>
         unat w \<le> unat h \<and> unat h < unat w + 2 ^ (LENGTH('a) - unat p)"
proof -
  define k where "k = LENGTH('a) - unat p"
  have w: "unat w = 2 ^ k * (unat w div 2 ^ k)"
    using unat_and_prefix_mask [OF assms(1), of w] assms(2) by (simp add: k_def)
  have "w AND prefix_mask p = h AND prefix_mask p \<longleftrightarrow> unat w = 2 ^ k * (unat h div 2 ^ k)"
    using assms unat_and_prefix_mask [OF assms(1), of h]
    by (simp add: word_eq_iff_unat k_def)
  also have "\<dots> \<longleftrightarrow> unat w div 2 ^ k = unat h div 2 ^ k"
    using w by (metis mult_cancel1 power_not_zero zero_neq_numeral)
  also have "\<dots> \<longleftrightarrow> unat w \<le> unat h \<and> unat h < unat w + 2 ^ k"
  proof -
    define q where "q = unat w div 2 ^ k"
    have q: "unat w = q * 2 ^ k" using w by (simp add: q_def mult.commute)
    have "unat h div 2 ^ k = q \<longleftrightarrow> q * 2 ^ k \<le> unat h \<and> unat h < Suc q * 2 ^ k"
      using div_nat_eqI [of "2 ^ k" q "unat h"]
      by (auto simp: mult.commute dividend_less_times_div)
    then show ?thesis by (auto simp: q_def [symmetric] q)
  qed
  finally show ?thesis by (simp add: k_def)
qed

lemma take_bit_and_prefix_mask:
  fixes w :: "'a::len word"
  assumes "unat p \<le> LENGTH('a)"
  shows "take_bit (LENGTH('a) - unat p) (w AND prefix_mask p) = 0"
  by (rule bit_word_eqI) (auto simp: bit_take_bit_iff bit_and_iff bit_prefix_mask [OF assms])

lemma drop_bit_and_prefix_mask:
  fixes w :: "'a::len word"
  assumes "unat p \<le> LENGTH('a)"
  shows "drop_bit (LENGTH('a) - unat p) (w AND prefix_mask p) = drop_bit (LENGTH('a) - unat p) w"
  using and_prefix_mask_drop_bit [OF assms, of "w AND prefix_mask p" w] by (simp add: prefix_mask_idem)

lemma net_contains_V4_bits:
  fixes a :: u32
  assumes "p \<le> 32"
  shows "net_contains \<lparr>net_addr = V4 (a AND prefix_mask p), prefix_len = p\<rparr> h \<longleftrightarrow>
      (\<exists>b. h = V4 b \<and> drop_bit (32 - unat p) b = drop_bit (32 - unat p) a)"
proof -
  have k: "unat p \<le> LENGTH(32)" using assms by (simp add: word_le_nat_alt)
  have "net_contains \<lparr>net_addr = V4 (a AND prefix_mask p), prefix_len = p\<rparr> (V4 b) \<longleftrightarrow>
      b AND prefix_mask p = a AND prefix_mask p" for b
    by (auto simp: net_contains_V4 prefix_mask_idem)
  moreover have "b AND prefix_mask p = a AND prefix_mask p \<longleftrightarrow>
      drop_bit (32 - unat p) b = drop_bit (32 - unat p) a" for b
    using and_prefix_mask_drop_bit [OF k, of b a] by simp
  ultimately show ?thesis
    by (cases h) (simp_all add: net_contains_V6)
qed

lemma net_new_V4_bits:
  assumes "p \<le> 32"
  shows "drop_bit (32 - unat p) (a AND prefix_mask p :: u32) = drop_bit (32 - unat p) a"
    and "take_bit (32 - unat p) (a AND prefix_mask p :: u32) = 0"
proof -
  have k: "unat p \<le> LENGTH(32)" using assms by (simp add: word_le_nat_alt)
  show "drop_bit (32 - unat p) (a AND prefix_mask p :: u32) = drop_bit (32 - unat p) a"
    using drop_bit_and_prefix_mask [OF k, of a] by simp
  show "take_bit (32 - unat p) (a AND prefix_mask p :: u32) = 0"
    using take_bit_and_prefix_mask [OF k, of a] by simp
qed

lemma net_contains_V6_bits:
  fixes a :: u128
  assumes "p \<le> 128"
  shows "net_contains \<lparr>net_addr = V6 (a AND prefix_mask p), prefix_len = p\<rparr> h \<longleftrightarrow>
      (\<exists>b. h = V6 b \<and> drop_bit (128 - unat p) b = drop_bit (128 - unat p) a)"
proof -
  have k: "unat p \<le> LENGTH(128)" using assms by (simp add: word_le_nat_alt)
  have "net_contains \<lparr>net_addr = V6 (a AND prefix_mask p), prefix_len = p\<rparr> (V6 b) \<longleftrightarrow>
      b AND prefix_mask p = a AND prefix_mask p" for b
    by (auto simp: net_contains_V6 prefix_mask_idem)
  moreover have "b AND prefix_mask p = a AND prefix_mask p \<longleftrightarrow>
      drop_bit (128 - unat p) b = drop_bit (128 - unat p) a" for b
    using and_prefix_mask_drop_bit [OF k, of b a] by simp
  ultimately show ?thesis
    by (cases h) (simp_all add: net_contains_V4)
qed

lemma net_new_V6_bits:
  assumes "p \<le> 128"
  shows "drop_bit (128 - unat p) (a AND prefix_mask p :: u128) = drop_bit (128 - unat p) a"
    and "take_bit (128 - unat p) (a AND prefix_mask p :: u128) = 0"
proof -
  have k: "unat p \<le> LENGTH(128)" using assms by (simp add: word_le_nat_alt)
  show "drop_bit (128 - unat p) (a AND prefix_mask p :: u128) = drop_bit (128 - unat p) a"
    using drop_bit_and_prefix_mask [OF k, of a] by simp
  show "take_bit (128 - unat p) (a AND prefix_mask p :: u128) = 0"
    using take_bit_and_prefix_mask [OF k, of a] by simp
qed

text \<open>C36: Creating a network fails with \<open>PrefixTooLong\<close> exactly when the prefix is longer than
  the address of its family. Otherwise the network carries the requested prefix length \<open>p\<close>, its
  base address has the first \<open>p\<close> bits of the given address and zeros after them, and its members
  are exactly the addresses of the same family whose first \<open>p\<close> bits agree with the given one.\<close>

theorem net_new_membership:
  "if p \<le> max_prefix ip
   then \<exists>n. net_new ip p = Ok n \<and> prefix_len n = p \<and>
     (case (ip, net_addr n) of
        (V4 a, V4 b) \<Rightarrow> drop_bit (32 - unat p) b = drop_bit (32 - unat p) a \<and>
                        take_bit (32 - unat p) b = 0
      | (V6 a, V6 b) \<Rightarrow> drop_bit (128 - unat p) b = drop_bit (128 - unat p) a \<and>
                        take_bit (128 - unat p) b = 0
      | _ \<Rightarrow> False) \<and>
     {h. net_contains n h} =
       (case ip of
          V4 a \<Rightarrow> {V4 h |h. drop_bit (32 - unat p) h = drop_bit (32 - unat p) a}
        | V6 a \<Rightarrow> {V6 h |h. drop_bit (128 - unat p) h = drop_bit (128 - unat p) a})
   else net_new ip p = Err PrefixTooLong"
proof (cases ip)
  case (V4 a)
  show ?thesis
  proof (cases "p \<le> 32")
    case True
    then have "net_new ip p = Ok \<lparr>net_addr = V4 (a AND prefix_mask p), prefix_len = p\<rparr>"
      using V4 by (simp add: net_new.simps not_less)
    with True V4 show ?thesis
      using net_new_V4_bits [OF True, of a] by (auto simp: net_contains_V4_bits)
  qed (simp add: V4 net_new.simps not_le)
next
  case (V6 a)
  show ?thesis
  proof (cases "p \<le> 128")
    case True
    then have "net_new ip p = Ok \<lparr>net_addr = V6 (a AND prefix_mask p), prefix_len = p\<rparr>"
      using V6 by (simp add: net_new.simps not_less)
    with True V6 show ?thesis
      using net_new_V6_bits [OF True, of a] by (auto simp: net_contains_V6_bits)
  qed (simp add: V6 net_new.simps not_le)
qed

text \<open>A normalised IPv4 (IPv6) network of prefix length \<open>p\<close> contains exactly the
  \<open>2 ^ (32 - p)\<close> (\<open>2 ^ (128 - p)\<close>) consecutive addresses that start at its base address, and no
  address of the other family.\<close>

theorem net_contains_interval:
  assumes "wf_net n"
  shows "net_contains n ip \<longleftrightarrow>
    (case (net_addr n, ip) of
       (V4 w, V4 h) \<Rightarrow> unat w \<le> unat h \<and> unat h < unat w + 2 ^ (32 - unat (prefix_len n))
     | (V6 w, V6 h) \<Rightarrow> unat w \<le> unat h \<and> unat h < unat w + 2 ^ (128 - unat (prefix_len n))
     | _ \<Rightarrow> False)"
proof (cases "net_addr n")
  case (V4 w)
  with assms have "unat (prefix_len n) \<le> LENGTH(32)" "w AND prefix_mask (prefix_len n) = w"
    by (simp_all add: wf_net_def word_le_nat_alt)
  with V4 show ?thesis
    using masked_interval [of "prefix_len n" w]
    by (cases ip) (simp_all add: net_contains_V4 net_contains_V6)
next
  case (V6 w)
  with assms have "unat (prefix_len n) \<le> LENGTH(128)" "w AND prefix_mask (prefix_len n) = w"
    by (simp_all add: wf_net_def word_le_nat_alt)
  with V6 show ?thesis
    using masked_interval [of "prefix_len n" w]
    by (cases ip) (simp_all add: net_contains_V4 net_contains_V6)
qed

theorem net_contains_interval_witness:
  "wf_net \<lparr>net_addr = V4 0xC0000200, prefix_len = 24\<rparr> \<and>
   net_contains \<lparr>net_addr = V4 0xC0000200, prefix_len = 24\<rparr> (V4 0xC00002FF) \<and>
   \<not> net_contains \<lparr>net_addr = V4 0xC0000200, prefix_len = 24\<rparr> (V4 0xC0000300)"
proof -
  have wf: "wf_net \<lparr>net_addr = V4 0xC0000200, prefix_len = 24\<rparr>"
    by (simp add: wf_net_def prefix_mask_def mask_eq_exp_minus_1)
  show ?thesis
    using wf net_contains_interval [OF wf] by simp
qed

text \<open>Two normalised networks that share an address are nested: the one with the shorter
  prefix contains every address of the other. Prefix blocks never overlap partially.\<close>

theorem net_laminar:
  assumes "wf_net n" "wf_net m" "prefix_len n \<le> prefix_len m"
    and "net_contains n h" "net_contains m h"
  shows "{x. net_contains m x} \<subseteq> {x. net_contains n x}"
  using net_contains_mono [OF assms] by blast

theorem net_laminar_witness:
  "{x. net_contains \<lparr>net_addr = V4 0xC0000200, prefix_len = 24\<rparr> x} \<subseteq>
   {x. net_contains \<lparr>net_addr = V4 0xC0000000, prefix_len = 16\<rparr> x}"
  by (rule net_laminar [where h = "V4 0xC0000201"])
    (simp_all add: wf_net_def prefix_mask_def net_contains_V4 mask_eq_exp_minus_1)

text \<open>C37: Packing a normalised network into its \<^verbatim>\<open>u128\<close> key and unpacking it with its family
  and prefix length gives the network back; an unknown family is refused.\<close>

theorem net_pack_roundtrip:
  assumes "wf_net n"
  shows "net_unpack (net_pack n) (net_family n) (prefix_len n) = Ok n \<and>
         (f \<noteq> 4 \<and> f \<noteq> 6 \<longrightarrow> net_unpack (net_pack n) f (prefix_len n) = Err InvalidFamily)"
proof -
  have "net_unpack (net_pack n) (net_family n) (prefix_len n) = Ok n"
  proof (cases "net_addr n")
    case (V4 w)
    have "(ucast (ucast w :: u128) :: u32) = w"
      by (rule bit_word_eqI) (simp add: bit_simps)
    with V4 assms show ?thesis
      by (simp add: net_unpack_def net_pack_def net_family_def from_to_be_bytes net_new_eq_Ok wf_net_def)
  next
    case (V6 w)
    with assms show ?thesis
      by (simp add: net_unpack_def net_pack_def net_family_def from_to_be_bytes net_new_eq_Ok wf_net_def)
  qed
  then show ?thesis by (simp add: net_unpack_def)
qed

theorem net_pack_roundtrip_witness:
  "net_unpack (net_pack \<lparr>net_addr = V4 0x0A141E00, prefix_len = 24\<rparr>) 4 24 =
     Ok \<lparr>net_addr = V4 0x0A141E00, prefix_len = 24\<rparr> \<and>
   net_unpack (net_pack \<lparr>net_addr = V4 0x0A141E00, prefix_len = 24\<rparr>) 5 24 = Err InvalidFamily"
  using net_pack_roundtrip [of "\<lparr>net_addr = V4 0x0A141E00, prefix_len = 24\<rparr>" 5]
  by (simp add: wf_net_def prefix_mask_def net_family_def mask_eq_exp_minus_1)

text \<open>The canonical subnets built from octets (IPv4 /24, IPv6 /64) are exactly the
  networks the validating constructor builds for those prefix lengths.\<close>

theorem of_ip_canonical:
  "net_new ip (case ip of V4 _ \<Rightarrow> 24 | V6 _ \<Rightarrow> 64) = Ok (of_ip ip)"
  by (cases ip) (simp_all add: net_new.simps ipv4_subnet_eq ipv6_subnet_eq)

end
