(* ===== verification/Types.thy ===== *)
theory Types
  imports Ip_Network
begin

text \<open>
  The vocabulary shared by the components: \<^verbatim>\<open>crates/ramshield-types/src/{error,command,util}.rs\<close>. Block reasons and their wire tokens, enforcement commands and results, error types,
  and the bounded queue.

  Floating-point fields are carried as IEEE-754 bit patterns (\<open>f32\<close>, \<open>f64\<close>): the components
  modelled here store and copy them and never compute with them. Instants of the monotonic clock
  are natural numbers of nanoseconds; \<open>instant_checked_add\<close> is \<^verbatim>\<open>Instant::checked_add\<close> on Linux,
  where the seconds are a 64-bit signed integer.
\<close>

type_synonym f32 = u32
type_synonym f64 = u64
type_synonym uuid = u128
type_synonym instant = nat

abbreviation nil_uuid :: uuid where
  "nil_uuid \<equiv> 0"

definition ns_per_sec :: nat where
  "ns_per_sec = 1000000000"

definition instant_checked_add :: "instant \<Rightarrow> nat \<Rightarrow> instant option" where
  "instant_checked_add t secs =
     (let at = t + secs * ns_per_sec in if at div ns_per_sec < 2 ^ 63 then Some at else None)"

section \<open>Errors and block reasons\<close>

datatype rs_error =
    NotFound string
  | CapacityExceeded u64
  | Serde string
  | IoError string
  | CorruptWal u64
  | RecordTooLarge u64 u64
  | InvalidState string

datatype block_reason =
    HighRps
  | SubnetBatch
  | ForecastAnomaly
  | EntropyAnomaly
  | ManualBlock
  | L7HighRps
  | L7Cost
  | Http2StreamAbuse

fun reason_as_str :: "block_reason \<Rightarrow> string" where
  "reason_as_str HighRps = ''high_rps''"
| "reason_as_str SubnetBatch = ''subnet_burst''"
| "reason_as_str ForecastAnomaly = ''forecast_anomaly''"
| "reason_as_str EntropyAnomaly = ''entropy_anomaly''"
| "reason_as_str ManualBlock = ''manual''"
| "reason_as_str L7HighRps = ''l7_high_rps''"
| "reason_as_str L7Cost = ''l7_cost''"
| "reason_as_str Http2StreamAbuse = ''http2_stream_abuse''"

definition from_reason_str :: "string \<Rightarrow> block_reason option" where
  "from_reason_str r =
     (if r \<in> set [''high_rps'', ''syn_flood'', ''volumetric'', ''slowloris''] then Some HighRps
      else if r = ''subnet_burst'' then Some SubnetBatch
      else if r = ''forecast_anomaly'' then Some ForecastAnomaly
      else if r \<in> set [''entropy_anomaly'', ''anomaly''] then Some EntropyAnomaly
      else if r \<in> set [''manual'', ''manual_unblock'', ''manual_block''] then Some ManualBlock
      else if r = ''l7_high_rps'' then Some L7HighRps
      else if r = ''l7_cost'' then Some L7Cost
      else if r = ''http2_stream_abuse'' then Some Http2StreamAbuse
      else if r \<in> set [''mesh_final'', ''mesh_purge'', ''mesh-final'', ''mesh-purge'']
        then Some ManualBlock
      else None)"

text \<open>\<^verbatim>\<open>str::to_ascii_lowercase\<close> and the fallback of \<^verbatim>\<open>reason_to_block_reason\<close>
  (\<^verbatim>\<open>crates/ramshield-enforcement/src/lib.rs\<close>).\<close>

definition ascii_lower :: "char \<Rightarrow> char" where
  "ascii_lower c =
     (let n = of_char c :: nat in if 65 \<le> n \<and> n \<le> 90 then char_of (n + 32) else c)"

definition reason_to_block_reason :: "string \<Rightarrow> block_reason" where
  "reason_to_block_reason r =
     (case from_reason_str (map ascii_lower r) of Some b \<Rightarrow> b | None \<Rightarrow> ManualBlock)"

datatype durability = DurNone | DurFlush | DurFsync | DurGroupCommit

section \<open>Enforcement commands\<close>

datatype evidence_source = LocalSignals | FleetSignals | Operator

datatype enforce_action = ActBlock | ActUnblock

record enforce_command =
  decision_id :: uuid
  policy_version :: u64
  cmd_source :: string
  cmd_actor :: string
  timestamp_utc :: int
  ttl_seconds :: u64
  cmd_reason :: string
  cmd_ip :: ipaddr
  cmd_cidr :: "ip_network option"
  cmd_action :: enforce_action
  evidence :: evidence_source

record enforce_result =
  res_decision_id :: uuid
  committed :: bool
  applied :: bool
  wal_lsn :: "u64 option"
  xdp_applied :: bool
  res_error :: "string option"

datatype enforcement_error =
    WalError string
  | StorageError string
  | XdpError string
  | Duplicate uuid
  | InvalidCommand string

section \<open>Bounded queue\<close>

text \<open>\<^verbatim>\<open>BoundedVecDeque\<close>: a push at capacity drops the oldest element. With capacity 0 the
  pop is a no-op and the element is still appended, as in the source.\<close>

record 'a bounded_deque =
  bd_cap :: nat
  bd_items :: "'a list"

definition bd_new :: "nat \<Rightarrow> 'a bounded_deque" where
  "bd_new c = \<lparr>bd_cap = c, bd_items = []\<rparr>"

definition bd_push :: "'a \<Rightarrow> 'a bounded_deque \<Rightarrow> 'a bounded_deque" where
  "bd_push x q =
     (let items = (if length (bd_items q) = bd_cap q then tl (bd_items q) else bd_items q)
      in q\<lparr>bd_items := items @ [x]\<rparr>)"

section \<open>Properties\<close>

lemma ascii_lower_idem: "ascii_lower (ascii_lower c) = ascii_lower c"
  by (simp add: ascii_lower_def Let_def)

lemma ascii_lower_reason [simp]: "map ascii_lower (reason_as_str r) = reason_as_str r"
  by (cases r) (simp_all add: ascii_lower_def Let_def char_of_def)

text \<open>Every block reason survives its wire token: the string written into commands and WAL
  records parses back to the same reason, in any ASCII letter case, and the fallback for unknown
  tokens is a manual block.\<close>

theorem reason_wire_roundtrip:
  "from_reason_str (reason_as_str r) = Some r \<and>
   reason_to_block_reason (reason_as_str r) = r \<and>
   reason_to_block_reason (map ascii_lower s) = reason_to_block_reason s \<and>
   (from_reason_str (map ascii_lower s) = None \<longrightarrow> reason_to_block_reason s = ManualBlock)"
proof -
  have rt: "from_reason_str (reason_as_str r) = Some r"
    by (cases r) (simp_all add: from_reason_str_def)
  have "map ascii_lower (map ascii_lower s) = map ascii_lower s"
    by (simp add: ascii_lower_idem)
  then show ?thesis
    by (simp add: reason_to_block_reason_def rt del: map_map)
qed

theorem reason_wire_roundtrip_witness:
  "reason_to_block_reason ''HIGH_RPS'' = HighRps \<and> reason_to_block_reason ''no such token'' = ManualBlock"
proof -
  have l: "map ascii_lower ''HIGH_RPS'' = reason_as_str HighRps"
    and n: "from_reason_str (map ascii_lower ''no such token'') = None"
    by code_simp+
  show ?thesis
    using reason_wire_roundtrip [of HighRps "''HIGH_RPS''"]
      reason_wire_roundtrip [of HighRps "''no such token''"]
    unfolding l by (simp only: n simp_thms)
qed

lemma bd_push_window:
  assumes "0 < bd_cap q" "length (bd_items q) \<le> bd_cap q"
  shows "bd_items (bd_push x q) =
           drop (length (bd_items q) + 1 - bd_cap q) (bd_items q @ [x]) \<and>
         length (bd_items (bd_push x q)) \<le> bd_cap q \<and> bd_cap (bd_push x q) = bd_cap q"
  using assms by (auto simp: bd_push_def Let_def drop_Suc)

lemma bd_run_window:
  assumes "0 < bd_cap q" "length (bd_items q) \<le> bd_cap q"
  shows "bd_items (fold bd_push xs q) =
           drop (length (bd_items q @ xs) - bd_cap q) (bd_items q @ xs)"
  using assms
proof (induction xs arbitrary: q)
  case Nil
  then show ?case by simp
next
  case (Cons x xs)
  note w = bd_push_window [OF Cons.prems, of x]
  have "bd_items (fold bd_push xs (bd_push x q)) =
      drop (length (bd_items (bd_push x q) @ xs) - bd_cap q) (bd_items (bd_push x q) @ xs)"
    using Cons.IH [of "bd_push x q"] Cons.prems w by simp
  also have "\<dots> = drop (length (bd_items q @ x # xs) - bd_cap q) (bd_items q @ x # xs)"
    using w Cons.prems by (cases "length (bd_items q) = bd_cap q") simp_all
  finally show ?case by simp
qed

end
