(* ===== verification/Store_Types.thy ===== *)
theory Store_Types
  imports Types
begin

text \<open>
  The data of the behaviour store: \<^verbatim>\<open>crates/ramshield-storage/src/record.rs\<close>, \<^verbatim>\<open>subnet.rs\<close> and the
  \<^verbatim>\<open>Store\<close> structure of \<^verbatim>\<open>lib.rs\<close>.

  A concurrent \<^verbatim>\<open>DashMap\<close> is a map, a \<^verbatim>\<open>DashMap<T, ()>\<close> a set and an atomic integer a word: every
  operation of the store holds the shard lock of its key for its whole read-modify-write, so an
  operation is one step from state to state. Atomic \<^verbatim>\<open>fetch_add\<close> and \<^verbatim>\<open>fetch_sub\<close> wrap.
\<close>

section \<open>Traffic counters\<close>

record traffic_counters =
  events_last_second :: u64
  unique_ips_window :: u64
  promoted_ips :: u64
  subnet_window :: "u64 list"
  threat_sample :: "(ipaddr \<times> f32) list"
  ram_limit_mb :: usize
  used_bytes :: u64
  uptime_secs :: u64

definition traffic_new :: traffic_counters where
  "traffic_new =
     \<lparr>events_last_second = 0, unique_ips_window = 0, promoted_ips = 0,
      subnet_window = replicate 256 0, threat_sample = [], ram_limit_mb = 0,
      used_bytes = 0, uptime_secs = 0\<rparr>"

text \<open>\<^verbatim>\<open>record_flush\<close>: the slots beyond the incoming range are zeroed, then the range is written.\<close>

definition record_flush :: "u64 \<Rightarrow> u64 \<Rightarrow> u64 list \<Rightarrow> traffic_counters \<Rightarrow> traffic_counters" where
  "record_flush total_events unique_ips subnet_counts t =
     (let n = min (length subnet_counts) 256;
          zeroed = take n (subnet_window t) @ map (\<lambda>_. 0) (drop n (subnet_window t));
          written = fold (\<lambda>(i, c) w. w[i := c])
                      (enumerate 0 (take 256 subnet_counts)) zeroed
      in t\<lparr>events_last_second := total_events, unique_ips_window := unique_ips,
           subnet_window := written\<rparr>)"

text \<open>\<^verbatim>\<open>push_threat_samples\<close>: the loop stops at the first sample that finds 1024 queued.\<close>

definition threat_cap :: nat where
  "threat_cap = 1024"

fun push_samples :: "(ipaddr \<times> f32) list \<Rightarrow> (ipaddr \<times> f32) list \<Rightarrow> (ipaddr \<times> f32) list" where
  "push_samples [] q = q"
| "push_samples (x # xs) q = (if threat_cap \<le> length q then q else push_samples xs (q @ [x]))"

definition push_threat_samples ::
  "(ipaddr \<times> f32) list \<Rightarrow> traffic_counters \<Rightarrow> traffic_counters" where
  "push_threat_samples xs t = t\<lparr>threat_sample := push_samples xs (threat_sample t)\<rparr>"

definition drain_threat_sample ::
  "traffic_counters \<Rightarrow> (ipaddr \<times> f32) list \<times> traffic_counters" where
  "drain_threat_sample t = (threat_sample t, t\<lparr>threat_sample := []\<rparr>)"

section \<open>Records and values\<close>

datatype block_state = Clean | Suspicious | Blocked block_reason u64

record ip_record =
  rec_ip :: ipaddr
  request_count :: u64
  ewma_rps :: f64
  cusum_s :: f64
  baseline_rps :: f64
  prev_sample_hot :: bool
  sample_count :: u8
  relative_breach_streak :: u8
  pulse_samples_in_window :: u8
  pulse_window_start_ns :: u64
  first_seen_ns :: u64
  last_seen_ns :: u64
  bytes_in :: u64
  status_dist :: "u32 list"
  proto_fingerprint :: u32
  threat_score :: f32
  block_state :: block_state
  variance :: f64
  last_bucket_ns :: u64
  adaptive_sample_count :: u64
  recovery_count :: u64
  bucket_accum_pps :: f64
  detector_mode :: u8

text \<open>\<open>default_variance\<close> is the bit pattern of the literal \<^verbatim>\<open>0.1f64\<close>.\<close>

definition default_variance :: f64 where
  "default_variance = 0x3FB999999999999A"

text \<open>The record literal with every statistic zero that the block paths publish.\<close>

definition zero_record :: "ipaddr \<Rightarrow> u64 \<Rightarrow> block_state \<Rightarrow> ip_record" where
  "zero_record key seen st =
     \<lparr>rec_ip = key, request_count = 0, ewma_rps = 0, cusum_s = 0, baseline_rps = 0,
      prev_sample_hot = False, sample_count = 0, relative_breach_streak = 0,
      pulse_samples_in_window = 0, pulse_window_start_ns = 0, first_seen_ns = seen,
      last_seen_ns = seen, bytes_in = 0, status_dist = replicate 5 0, proto_fingerprint = 0,
      threat_score = 0, block_state = st, variance = default_variance, last_bucket_ns = 0,
      adaptive_sample_count = 0, recovery_count = 0, bucket_accum_pps = 0, detector_mode = 0\<rparr>"

record subnet_record =
  network :: ip_network
  total_rps :: u64
  host_bitmap :: "u64 list"
  last_updated_ns :: u64

text \<open>\<^verbatim>\<open>u64::count_ones\<close>.\<close>

definition count_ones :: "u64 \<Rightarrow> nat" where
  "count_ones w = length (filter (bit w) [0..<64])"

definition unique_ips :: "subnet_record \<Rightarrow> u64" where
  "unique_ips r = sum_list (map (\<lambda>w. of_nat (count_ones w)) (host_bitmap r))"

definition mark_host_v4 :: "ipaddr \<Rightarrow> subnet_record \<Rightarrow> subnet_record" where
  "mark_host_v4 ip r =
     (case ip of
        V4 _ \<Rightarrow>
          let o' = unat (octets ip ! 3);
              i = o' div 64
          in r\<lparr>host_bitmap := (host_bitmap r)[i := host_bitmap r ! i OR push_bit (o' mod 64) 1]\<rparr>
      | V6 _ \<Rightarrow> r)"

datatype store_value =
    Counter u64
  | Inline bytes
  | Blob bytes
  | IpRecordV ip_record
  | SubnetRecordV subnet_record

definition inline_max :: nat where
  "inline_max = 64"

definition value_from_bytes :: "bytes \<Rightarrow> store_value" where
  "value_from_bytes bs = (if length bs \<le> inline_max then Inline bs else Blob bs)"

fun heap_bytes :: "store_value \<Rightarrow> usize" where
  "heap_bytes (Inline v) = of_nat (length v)"
| "heap_bytes (Blob v) = of_nat (length v)"
| "heap_bytes (IpRecordV _) = 0"
| "heap_bytes (SubnetRecordV _) = 0"
| "heap_bytes (Counter _) = 0"

fun is_blocked :: "store_value \<Rightarrow> bool" where
  "is_blocked (IpRecordV r) = (block_state r \<noteq> Clean)"
| "is_blocked _ = False"

record store_entry =
  entry_value :: store_value
  expires_at :: "instant option"

definition is_expired :: "instant \<Rightarrow> store_entry \<Rightarrow> bool" where
  "is_expired now e = (case expires_at e of None \<Rightarrow> False | Some t \<Rightarrow> t < now)"

section \<open>Subnet keys\<close>

type_synonym subnet_key = u128

definition subnet_key_v4 :: "bytes \<Rightarrow> u32" where
  "subnet_key_v4 os = from_be_bytes [os ! 0, os ! 1, os ! 2, 0]"

definition subnet_key_v6 :: "bytes \<Rightarrow> u128" where
  "subnet_key_v6 os = from_be_bytes os AND 0xFFFFFFFFFFFFFFFF0000000000000000"

definition subnet_key :: "ipaddr \<Rightarrow> (subnet_key \<times> ip_network) option" where
  "subnet_key ip =
     (case ip of
        V4 v4 \<Rightarrow> Some (ucast (subnet_key_v4 (octets ip)), ipv4_subnet v4)
      | V6 v6 \<Rightarrow> Some (subnet_key_v6 (octets ip), ipv6_subnet v6))"

definition subnet_key_u128 :: "ipaddr \<Rightarrow> subnet_key option" where
  "subnet_key_u128 ip =
     (case ip of
        V4 _ \<Rightarrow> Some (ucast (subnet_key_v4 (octets ip)))
      | V6 _ \<Rightarrow> Some (subnet_key_v6 (octets ip)))"

section \<open>The store\<close>

record store =
  inner :: "ipaddr \<rightharpoonup> store_entry"
  subnet_table :: "subnet_key \<rightharpoonup> subnet_record"
  subnet_index :: "subnet_key \<rightharpoonup> ipaddr set"
  blocked_set :: "ipaddr set"
  active_cidrs :: "ip_network set"
  ram_bytes :: usize
  blocked_count :: u64
  traffic :: traffic_counters
  total_inserts :: u64
  total_evictions :: u64
  ttl_entries :: u64

definition store_new :: store where
  "store_new =
     \<lparr>inner = Map.empty, subnet_table = Map.empty, subnet_index = Map.empty, blocked_set = {},
      active_cidrs = {}, ram_bytes = 0, blocked_count = 0, traffic = traffic_new,
      total_inserts = 0, total_evictions = 0, ttl_entries = 0\<rparr>"

section \<open>Properties of the data\<close>

lemma fold_list_update_enumerate:
  "k + length cs \<le> length w \<Longrightarrow>
   fold (\<lambda>(i, c) w. w[i := c]) (enumerate k cs) w = take k w @ cs @ drop (k + length cs) w"
proof (induction cs arbitrary: k w)
  case Nil
  then show ?case by simp
next
  case (Cons c cs)
  then have "take (Suc k) (w[k := c]) = take k w @ [c]"
    by (simp add: take_Suc_conv_app_nth)
  with Cons.IH [of "Suc k" "w[k := c]"] Cons.prems show ?case by simp
qed

text \<open>After a flush, the entropy window is exactly the new counts (the first 256) padded with
  zeros, whatever the previous window held: no count of an earlier flush survives.\<close>

theorem record_flush_window:
  assumes "length (subnet_window t) = 256"
  shows "subnet_window (record_flush n u counts t) =
           take 256 counts @ replicate (256 - length counts) 0 \<and>
         events_last_second (record_flush n u counts t) = n \<and>
         unique_ips_window (record_flush n u counts t) = u \<and>
         threat_sample (record_flush n u counts t) = threat_sample t \<and>
         used_bytes (record_flush n u counts t) = used_bytes t"
proof -
  define cs where "cs = take 256 counts"
  define m where "m = min (length counts) 256"
  define z where "z = take m (subnet_window t) @ map (\<lambda>_. 0) (drop m (subnet_window t))"
  have l: "length cs = m" and lz: "length z = 256"
    using assms by (simp_all add: cs_def m_def z_def)
  have "fold (\<lambda>(i, c) w. w[i := c]) (enumerate 0 cs) z = cs @ drop m z"
    using fold_list_update_enumerate [of 0 cs z] l lz by (simp add: m_def)
  moreover have "drop m z = replicate (256 - length counts) 0"
    using assms by (simp add: z_def m_def map_replicate_const)
  ultimately have "subnet_window (record_flush n u counts t) =
      cs @ replicate (256 - length counts) 0"
    by (simp add: record_flush_def Let_def cs_def m_def z_def)
  then show ?thesis by (simp add: cs_def record_flush_def Let_def)
qed

theorem record_flush_window_witness:
  "subnet_window (record_flush 9 2 [4, 5] (record_flush 7 3 [1, 2, 3] traffic_new)) =
     [4, 5] @ replicate 254 0"
proof -
  have "length (subnet_window (record_flush 7 3 [1, 2, 3] traffic_new)) = 256"
    using record_flush_window [of traffic_new 7 3 "[1, 2, 3]"] by (simp add: traffic_new_def)
  from record_flush_window [OF this, of 9 2 "[4, 5]"] show ?thesis by simp
qed

lemma push_samples_prefix: "push_samples xs q = q @ take (threat_cap - length q) xs"
  by (induction xs q rule: push_samples.induct) (auto simp: take_Cons' Suc_diff_Suc)

text \<open>The threat queue never holds more than its cap, a push keeps every queued sample, and
  what it drops are the newest samples: the ones offered last. (The comment in the code says the
  newest signals win.)\<close>

theorem threat_sample_bounded:
  "threat_sample (push_threat_samples xs t) =
     threat_sample t @ take (threat_cap - length (threat_sample t)) xs \<and>
   length (threat_sample (push_threat_samples xs t)) \<le> max threat_cap (length (threat_sample t)) \<and>
   fst (drain_threat_sample (push_threat_samples xs t)) =
     threat_sample t @ take (threat_cap - length (threat_sample t)) xs \<and>
   threat_sample (snd (drain_threat_sample (push_threat_samples xs t))) = []"
  by (auto simp: push_threat_samples_def push_samples_prefix drain_threat_sample_def)

end
