(* ===== verification/Store_Subnets.thy ===== *)
theory Store_Subnets
  imports Store_Types
begin

text \<open>
  The subnet half of the store: \<^verbatim>\<open>crates/ramshield-storage/src/store/subnets.rs\<close>. The windowed
  per-subnet counters, the reverse index from subnet to member addresses, and its hard ceiling.
\<close>

section \<open>Windowed counters\<close>

definition subnet_window_ns :: u64 where
  "subnet_window_ns = 4 * 1000000000"

definition mark_members :: "ipaddr list option \<Rightarrow> subnet_record \<Rightarrow> subnet_record" where
  "mark_members members r =
     (case members of None \<Rightarrow> r | Some ms \<Rightarrow> fold mark_host_v4 ms r)"

definition merge_subnet_window ::
  "subnet_key \<Rightarrow> ip_network \<Rightarrow> u32 \<Rightarrow> ipaddr list option \<Rightarrow> u64 \<Rightarrow> store \<Rightarrow> store" where
  "merge_subnet_window key net events members now_ns s =
     (case subnet_table s key of
        Some r \<Rightarrow>
          let now' = max now_ns (last_updated_ns r);
              r1 = (if sat_sub now' (last_updated_ns r) > subnet_window_ns
                    then r\<lparr>total_rps := 0, host_bitmap := replicate 4 0\<rparr> else r);
              r2 = r1\<lparr>total_rps := sat_add (total_rps r1) (ucast events)\<rparr>;
              r3 = mark_members members r2;
              r4 = r3\<lparr>last_updated_ns := now'\<rparr>
          in s\<lparr>subnet_table := (subnet_table s)(key \<mapsto> r4)\<rparr>
      | None \<Rightarrow>
          let r = \<lparr>network = net, total_rps = 0, host_bitmap = replicate 4 0,
                   last_updated_ns = now_ns\<rparr>;
              r1 = r\<lparr>total_rps := sat_add (total_rps r) (ucast events)\<rparr>;
              r2 = mark_members members r1
          in s\<lparr>subnet_table := (subnet_table s)(key \<mapsto> r2)\<rparr>)"

definition reset_subnet_window :: "subnet_key \<Rightarrow> store \<Rightarrow> store" where
  "reset_subnet_window key s =
     (case subnet_table s key of
        None \<Rightarrow> s
      | Some r \<Rightarrow> s\<lparr>subnet_table := (subnet_table s)
                      (key \<mapsto> r\<lparr>total_rps := 0, host_bitmap := replicate 4 0\<rparr>)\<rparr>)"

section \<open>The reverse index\<close>

definition subnet_member_count :: "subnet_key \<Rightarrow> store \<Rightarrow> u64" where
  "subnet_member_count key s =
     (case subnet_index s key of None \<Rightarrow> 0 | Some ips \<Rightarrow> of_nat (card ips))"

definition seen_within :: "u64 \<Rightarrow> u64 \<Rightarrow> store_entry \<Rightarrow> bool" where
  "seen_within window_ns now_ns e =
     (let ls = (case entry_value e of IpRecordV r \<Rightarrow> last_seen_ns r | _ \<Rightarrow> 0)
      in sat_sub now_ns ls \<le> window_ns)"

definition subnet_member_count_windowed :: "subnet_key \<Rightarrow> u64 \<Rightarrow> u64 \<Rightarrow> store \<Rightarrow> u64" where
  "subnet_member_count_windowed key window_ns now_ns s =
     (case subnet_index s key of
        None \<Rightarrow> 0
      | Some ips \<Rightarrow>
          of_nat (card {ip \<in> ips. case inner s ip of None \<Rightarrow> False
                                   | Some e \<Rightarrow> seen_within window_ns now_ns e}))"

definition max_subnet_index_keys :: nat where
  "max_subnet_index_keys = 131072"

definition update_subnet_index :: "ipaddr \<Rightarrow> subnet_key option \<Rightarrow> bool \<Rightarrow> store \<Rightarrow> store" where
  "update_subnet_index ip key is_removal s =
     (case key of
        None \<Rightarrow> s
      | Some sk \<Rightarrow>
          if is_removal then
            (case subnet_index s sk of
               None \<Rightarrow> s
             | Some ips \<Rightarrow>
                 let ips' = ips - {ip}
                 in s\<lparr>subnet_index :=
                        (subnet_index s)(sk := (if ips' = {} then None else Some ips'))\<rparr>)
          else if subnet_index s sk = None \<and>
                  max_subnet_index_keys \<le> card (dom (subnet_index s)) then s
          else
            let ips = (case subnet_index s sk of None \<Rightarrow> {} | Some ips \<Rightarrow> ips)
            in s\<lparr>subnet_index := (subnet_index s)(sk \<mapsto> insert ip ips)\<rparr>)"

section \<open>Invariants of the index\<close>

text \<open>Every indexed set is finite and non-empty, holds only addresses of its subnet, and the
  number of keys is bounded.\<close>

definition index_inv :: "store \<Rightarrow> bool" where
  "index_inv s \<longleftrightarrow>
     finite (dom (subnet_index s)) \<and>
     card (dom (subnet_index s)) \<le> max_subnet_index_keys \<and>
     (\<forall>sk ips. subnet_index s sk = Some ips \<longrightarrow>
        ips \<noteq> {} \<and> finite ips \<and> (\<forall>ip \<in> ips. subnet_key_u128 ip = Some sk))"

lemma index_inv_new [simp]: "index_inv store_new"
  by (simp add: index_inv_def store_new_def)

lemma index_inv_cong: "subnet_index s' = subnet_index s \<Longrightarrow> index_inv s' = index_inv s"
  by (simp add: index_inv_def)

lemma card_dom_upd:
  assumes "finite (dom m)"
  shows "card (dom (m(k \<mapsto> v))) = (if m k = None then Suc (card (dom m)) else card (dom m))"
  using assms by (auto simp: domIff insert_absorb)

lemma card_dom_upd_le: "finite (dom m) \<Longrightarrow> card (dom (m(k := None))) \<le> card (dom m)"
  by (rule card_mono) auto

lemma index_inv_removal:
  assumes "index_inv s"
  shows "index_inv (update_subnet_index ip key True s)"
proof (cases key)
  case None
  then show ?thesis using assms by (simp add: update_subnet_index_def)
next
  case (Some sk)
  show ?thesis
  proof (cases "subnet_index s sk")
    case None
    then show ?thesis using assms Some by (simp add: update_subnet_index_def)
  next
    case (Some ips)
    with assms have fin: "finite (dom (subnet_index s))" and "sk \<in> dom (subnet_index s)"
      by (auto simp: index_inv_def)
    then have "insert sk (dom (subnet_index s)) = dom (subnet_index s)" by auto
    with assms Some \<open>key = Some sk\<close> card_dom_upd_le [OF fin, of sk] show ?thesis
      by (auto simp: update_subnet_index_def index_inv_def Let_def simp del: dom_fun_upd)
        (auto split: if_splits)
  qed
qed

lemma index_inv_insertion:
  assumes "index_inv s"
  shows "index_inv (update_subnet_index ip (subnet_key_u128 ip) False s)"
proof (cases "subnet_key_u128 ip")
  case None
  then show ?thesis using assms by (simp add: update_subnet_index_def)
next
  case (Some sk)
  have fin: "finite (dom (subnet_index s))" using assms by (simp add: index_inv_def)
  show ?thesis
    using assms Some card_dom_upd [OF fin, of sk]
    by (cases "subnet_index s sk")
      (auto simp: update_subnet_index_def index_inv_def Let_def simp del: dom_fun_upd
        split: if_splits)
qed

lemma update_subnet_index_fields [simp]:
  "inner (update_subnet_index ip key b s) = inner s"
  "ram_bytes (update_subnet_index ip key b s) = ram_bytes s"
  "traffic (update_subnet_index ip key b s) = traffic s"
  "ttl_entries (update_subnet_index ip key b s) = ttl_entries s"
  "blocked_set (update_subnet_index ip key b s) = blocked_set s"
  "blocked_count (update_subnet_index ip key b s) = blocked_count s"
  "active_cidrs (update_subnet_index ip key b s) = active_cidrs s"
  "subnet_table (update_subnet_index ip key b s) = subnet_table s"
  by (auto simp: update_subnet_index_def Let_def split: option.splits)

lemma merge_subnet_window_fields [simp]:
  "inner (merge_subnet_window k n ev m t s) = inner s"
  "ram_bytes (merge_subnet_window k n ev m t s) = ram_bytes s"
  "traffic (merge_subnet_window k n ev m t s) = traffic s"
  "ttl_entries (merge_subnet_window k n ev m t s) = ttl_entries s"
  "blocked_set (merge_subnet_window k n ev m t s) = blocked_set s"
  "blocked_count (merge_subnet_window k n ev m t s) = blocked_count s"
  "subnet_index (merge_subnet_window k n ev m t s) = subnet_index s"
  by (simp_all add: merge_subnet_window_def Let_def split: option.split)

lemma reset_subnet_window_fields [simp]:
  "inner (reset_subnet_window k s) = inner s"
  "ram_bytes (reset_subnet_window k s) = ram_bytes s"
  "traffic (reset_subnet_window k s) = traffic s"
  "ttl_entries (reset_subnet_window k s) = ttl_entries s"
  "blocked_set (reset_subnet_window k s) = blocked_set s"
  "blocked_count (reset_subnet_window k s) = blocked_count s"
  "subnet_index (reset_subnet_window k s) = subnet_index s"
  by (simp_all add: reset_subnet_window_def split: option.split)

section \<open>The distinct-host signal\<close>

text \<open>The hosts a bitmap records, as numbers below 256, and the host octets of a member list.\<close>

definition bitmap_hosts :: "u64 list \<Rightarrow> nat set" where
  "bitmap_hosts hb = {n. n < 64 * length hb \<and> bit (hb ! (n div 64)) (n mod 64)}"

definition host_octet :: "ipaddr \<Rightarrow> nat set" where
  "host_octet ip = (case ip of V4 _ \<Rightarrow> {unat (octets ip ! 3)} | V6 _ \<Rightarrow> {})"

lemma count_ones_card: "count_ones w = card {i. i < 64 \<and> bit w i}"
proof -
  have "count_ones w = card (set (filter (bit w) [0..<64]))"
    unfolding count_ones_def by (rule distinct_card [symmetric]) simp
  also have "set (filter (bit w) [0..<64]) = {i. i < 64 \<and> bit w i}" by auto
  finally show ?thesis .
qed

lemma bitmap_hosts_Nil [simp]: "bitmap_hosts [] = {}"
  by (simp add: bitmap_hosts_def)

lemma bitmap_hosts_Cons:
  "bitmap_hosts (w # hb) = {i. i < 64 \<and> bit w i} \<union> (\<lambda>n. n + 64) ` bitmap_hosts hb"
proof (intro set_eqI iffI)
  fix n
  assume n: "n \<in> bitmap_hosts (w # hb)"
  show "n \<in> {i. i < 64 \<and> bit w i} \<union> (\<lambda>n. n + 64) ` bitmap_hosts hb"
  proof (cases "n < 64")
    case True
    then show ?thesis using n by (simp add: bitmap_hosts_def)
  next
    case False
    then have "n - 64 \<in> bitmap_hosts hb"
      using n by (auto simp: bitmap_hosts_def le_div_geq le_mod_geq)
    moreover have "n = (n - 64) + 64" using False by simp
    ultimately show ?thesis by blast
  qed
next
  fix n
  assume "n \<in> {i. i < 64 \<and> bit w i} \<union> (\<lambda>n. n + 64) ` bitmap_hosts hb"
  then show "n \<in> bitmap_hosts (w # hb)"
    by (auto simp: bitmap_hosts_def div_add_self2)
qed

lemma finite_bitmap_hosts [simp]: "finite (bitmap_hosts hb)"
  by (rule finite_subset [of _ "{..<64 * length hb}"]) (auto simp: bitmap_hosts_def)

lemma card_bitmap_hosts: "card (bitmap_hosts hb) = sum_list (map count_ones hb)"
proof (induction hb)
  case Nil
  then show ?case by simp
next
  case (Cons w hb)
  have "card (bitmap_hosts (w # hb)) =
      card {i. i < 64 \<and> bit w i} + card ((\<lambda>n. n + 64) ` bitmap_hosts hb)"
    unfolding bitmap_hosts_Cons by (rule card_Un_disjoint) auto
  also have "card ((\<lambda>n. n + 64) ` bitmap_hosts hb) = card (bitmap_hosts hb)"
    by (rule card_image) (simp add: inj_on_def)
  finally show ?case using Cons.IH by (simp add: count_ones_card)
qed

lemma unique_ips_card: "unique_ips r = of_nat (card (bitmap_hosts (host_bitmap r)))"
proof -
  have "sum_list (map (\<lambda>w. of_nat (count_ones w)) hb) = (of_nat (sum_list (map count_ones hb)) :: u64)"
    for hb
    by (induction hb) simp_all
  then show ?thesis by (simp add: unique_ips_def card_bitmap_hosts)
qed

lemma octet3_lt: "unat (octets (V4 a) ! 3) < 256"
  using unat_lt2p [of "octets (V4 a) ! 3"] by simp

lemma bitmap_set_bit:
  assumes "length hb = 4" "n < 256"
  shows "bitmap_hosts (hb[n div 64 := hb ! (n div 64) OR push_bit (n mod 64) 1]) =
           insert n (bitmap_hosts hb)"
proof -
  have eq: "m div 64 = n div 64 \<Longrightarrow> m mod 64 = n mod 64 \<Longrightarrow> m = n" for m
    by (metis div_mult_mod_eq)
  have "n div 64 < 4" using assms by simp
  then show ?thesis
    using assms eq
    by (auto simp: bitmap_hosts_def nth_list_update bit_or_iff bit_exp_iff)
qed

lemma mark_host_v4_bitmap:
  assumes "length (host_bitmap r) = 4"
  shows "length (host_bitmap (mark_host_v4 ip r)) = 4 \<and>
         bitmap_hosts (host_bitmap (mark_host_v4 ip r)) =
           bitmap_hosts (host_bitmap r) \<union> host_octet ip \<and>
         total_rps (mark_host_v4 ip r) = total_rps r \<and>
         last_updated_ns (mark_host_v4 ip r) = last_updated_ns r \<and>
         network (mark_host_v4 ip r) = network r"
proof (cases ip)
  case (V4 a)
  then show ?thesis
    using bitmap_set_bit [OF assms octet3_lt [of a]] assms
    by (simp add: mark_host_v4_def host_octet_def Let_def)
next
  case (V6 a)
  then show ?thesis using assms by (simp add: mark_host_v4_def host_octet_def)
qed

lemma mark_members_bitmap:
  assumes "length (host_bitmap r) = 4"
  shows "length (host_bitmap (fold mark_host_v4 ms r)) = 4 \<and>
         bitmap_hosts (host_bitmap (fold mark_host_v4 ms r)) =
           bitmap_hosts (host_bitmap r) \<union> (\<Union>ip\<in>set ms. host_octet ip) \<and>
         total_rps (fold mark_host_v4 ms r) = total_rps r \<and>
         last_updated_ns (fold mark_host_v4 ms r) = last_updated_ns r \<and>
         network (fold mark_host_v4 ms r) = network r"
  using assms
proof (induction ms arbitrary: r)
  case Nil
  then show ?case by simp
next
  case (Cons ip ms)
  note m = mark_host_v4_bitmap [OF Cons.prems, of ip]
  then show ?case using Cons.IH [of "mark_host_v4 ip r"] by auto
qed

lemma bitmap_hosts_zero [simp]: "bitmap_hosts (replicate n 0) = {}"
  by (auto simp: bitmap_hosts_def)

text \<open>The window a merge continues with: what the record holds, or nothing once the window has
  expired (or the key is new).\<close>

definition window_open :: "u64 \<Rightarrow> subnet_record \<Rightarrow> bool" where
  "window_open now_ns r \<longleftrightarrow> unat now_ns \<le> unat (last_updated_ns r) + unat subnet_window_ns"

lemma window_expired_iff:
  "sat_sub (max now (last_updated_ns r)) (last_updated_ns r) > subnet_window_ns \<longleftrightarrow>
   \<not> window_open now r"
  by (auto simp: window_open_def word_less_nat_alt unat_sat_sub max_def word_le_nat_alt)

text \<open>The swarm signal of a merge. After \<^verbatim>\<open>merge_subnet_window\<close> with a member list, the
  distinct-host count is the number of different IPv4 host octets seen in the window that is still
  open: the new members together with those recorded since the window opened, and only the new
  members if the window had expired or the subnet is new. The event total is the saturating sum
  over the same window, and the record's clock never moves backwards.\<close>

theorem merge_subnet_window_swarm:
  assumes wf: "\<forall>r. subnet_table s key = Some r \<longrightarrow> length (host_bitmap r) = 4"
  shows "\<exists>r'. subnet_table (merge_subnet_window key net events (Some ms) now s) key = Some r' \<and>
    length (host_bitmap r') = 4 \<and>
    (let old = (case subnet_table s key of
                  Some r \<Rightarrow> if window_open now r then bitmap_hosts (host_bitmap r) else {}
                | None \<Rightarrow> {});
         base = (case subnet_table s key of
                  Some r \<Rightarrow> if window_open now r then total_rps r else 0
                | None \<Rightarrow> 0)
     in bitmap_hosts (host_bitmap r') = old \<union> (\<Union>ip\<in>set ms. host_octet ip) \<and>
        unique_ips r' = of_nat (card (old \<union> (\<Union>ip\<in>set ms. host_octet ip))) \<and>
        total_rps r' = sat_add base (ucast events)) \<and>
    now \<le> last_updated_ns r' \<and>
    (\<forall>r. subnet_table s key = Some r \<longrightarrow>
       last_updated_ns r \<le> last_updated_ns r' \<and> network r' = network r)"
proof (cases "subnet_table s key")
  case None
  define r where "r = \<lparr>network = net, total_rps = sat_add 0 (ucast events),
    host_bitmap = replicate 4 0, last_updated_ns = now\<rparr>"
  have "length (host_bitmap r) = 4" by (simp add: r_def)
  note m = mark_members_bitmap [OF this, of ms]
  have "subnet_table (merge_subnet_window key net events (Some ms) now s) key =
      Some (fold mark_host_v4 ms r)"
    by (simp add: None merge_subnet_window_def mark_members_def r_def)
  with m None show ?thesis by (simp add: unique_ips_card r_def)
next
  case (Some r)
  define r2 where "r2 = (if window_open now r then r else r\<lparr>total_rps := 0, host_bitmap := replicate 4 0\<rparr>)
      \<lparr>total_rps := sat_add (if window_open now r then total_rps r else 0) (ucast events)\<rparr>"
  have "length (host_bitmap r2) = 4" using wf Some by (simp add: r2_def)
  note m = mark_members_bitmap [OF this, of ms]
  have "subnet_table (merge_subnet_window key net events (Some ms) now s) key =
      Some ((fold mark_host_v4 ms r2)\<lparr>last_updated_ns := max now (last_updated_ns r)\<rparr>)"
    by (simp add: Some merge_subnet_window_def mark_members_def r2_def window_expired_iff Let_def)
  with m Some show ?thesis by (auto simp: unique_ips_card r2_def)
qed

theorem merge_subnet_window_swarm_witness:
  "\<exists>r'. subnet_table (merge_subnet_window 5 (of_ip (V4 7)) 10 (Some [V4 3, V4 4, V4 3]) 9 store_new) 5
          = Some r' \<and> unique_ips r' = 2 \<and> total_rps r' = 10"
proof -
  have u: "(\<Union>ip\<in>set [V4 3, V4 4, V4 3]. host_octet ip) = {3, 4}"
    by (simp add: host_octet_def to_be_bytes_def to_le_bytes_def nat_le_bytes_numeral insert_commute)
  have wf: "\<forall>r. subnet_table store_new 5 = Some r \<longrightarrow> length (host_bitmap r) = 4"
    by (simp add: store_new_def)
  have n: "subnet_table store_new 5 = None" by (simp add: store_new_def)
  show ?thesis
    using merge_subnet_window_swarm [OF wf, of "of_ip (V4 7)" 10 "[V4 3, V4 4, V4 3]" 9]
    unfolding u n by (auto simp: sat_add_def Let_def)
qed

end
