(* ===== verification/Store.thy ===== *)
theory Store
  imports Store_Subnets
begin

text \<open>
  The behaviour store: \<^verbatim>\<open>crates/ramshield-storage/src/store/{write,access,capacity}.rs\<close>. Every
  operation is a function on the \<open>store\<close> record; \<open>base\<close> stands for
  \<^verbatim>\<open>size_of::<IpAddr>() + size_of::<Entry>()\<close> and \<open>now\<close> for the value of \<^verbatim>\<open>Instant::now()\<close> in the
  operation.

  The accounting invariant (theory Store_Inv) ties the five redundant counters and the blocked index
  to the map they summarise. It is kept by every operation but one: \<open>update_block_state\<close>, whose
  live and vacant branches change a record's block state without the index.
\<close>

section \<open>Counters\<close>

definition ram_fetch_add :: "usize \<Rightarrow> store \<Rightarrow> store" where
  "ram_fetch_add n s = s\<lparr>ram_bytes := ram_bytes s + n\<rparr>"

definition ram_fetch_sub :: "usize \<Rightarrow> store \<Rightarrow> store" where
  "ram_fetch_sub n s = s\<lparr>ram_bytes := ram_bytes s - n\<rparr>"

definition used_fetch_add :: "u64 \<Rightarrow> store \<Rightarrow> store" where
  "used_fetch_add n s = s\<lparr>traffic := (traffic s)\<lparr>used_bytes := used_bytes (traffic s) + n\<rparr>\<rparr>"

definition used_fetch_sub :: "u64 \<Rightarrow> store \<Rightarrow> store" where
  "used_fetch_sub n s = s\<lparr>traffic := (traffic s)\<lparr>used_bytes := used_bytes (traffic s) - n\<rparr>\<rparr>"

definition ttl_fetch_add :: "store \<Rightarrow> store" where
  "ttl_fetch_add s = s\<lparr>ttl_entries := ttl_entries s + 1\<rparr>"

definition ttl_fetch_sub :: "store \<Rightarrow> store" where
  "ttl_fetch_sub s = s\<lparr>ttl_entries := ttl_entries s - 1\<rparr>"

definition inserts_fetch_add :: "store \<Rightarrow> store" where
  "inserts_fetch_add s = s\<lparr>total_inserts := total_inserts s + 1\<rparr>"

definition evictions_fetch_add :: "store \<Rightarrow> store" where
  "evictions_fetch_add s = s\<lparr>total_evictions := total_evictions s + 1\<rparr>"

definition put_entry :: "ipaddr \<Rightarrow> store_entry \<Rightarrow> store \<Rightarrow> store" where
  "put_entry key e s = s\<lparr>inner := (inner s)(key \<mapsto> e)\<rparr>"

definition index_add :: "ipaddr \<Rightarrow> store \<Rightarrow> store" where
  "index_add key s = s\<lparr>blocked_count := blocked_count s + 1, blocked_set := insert key (blocked_set s)\<rparr>"

definition index_del :: "ipaddr \<Rightarrow> store \<Rightarrow> store" where
  "index_del key s = s\<lparr>blocked_count := blocked_count s - 1, blocked_set := blocked_set s - {key}\<rparr>"

definition sync_blocked_index :: "ipaddr \<Rightarrow> bool \<Rightarrow> bool \<Rightarrow> store \<Rightarrow> store" where
  "sync_blocked_index key was_blocked now_blocked s =
     (if \<not> was_blocked \<and> now_blocked then index_add key s
      else if was_blocked \<and> \<not> now_blocked then index_del key s
      else s)"

definition apply_growth_size_only :: "usize \<Rightarrow> usize \<Rightarrow> store \<Rightarrow> store" where
  "apply_growth_size_only old_size new_size s =
     inserts_fetch_add
       (if old_size \<le> new_size
        then used_fetch_add (new_size - old_size) (ram_fetch_add (new_size - old_size) s)
        else used_fetch_sub (old_size - new_size) (ram_fetch_sub (old_size - new_size) s))"

text \<open>The compare-and-swap loop that reserves bytes for a new entry: run in isolation it reads the
  counter once. \<^verbatim>\<open>current + entry_size\<close> is a checked addition (the workspace builds with overflow
  checks on), so it panics where the sum does not fit a \<^verbatim>\<open>usize\<close>.\<close>

definition reserve :: "usize \<Rightarrow> usize \<Rightarrow> store \<Rightarrow> (store, rs_error) outcome" where
  "reserve entry_size ram_limit s =
     (case checked_add (ram_bytes s) entry_size of
        None \<Rightarrow> Panic
      | Some reserved \<Rightarrow>
          if reserved > ram_limit then Err (CapacityExceeded (ram_limit div (1024 * 1024)))
          else Ok (s\<lparr>ram_bytes := reserved\<rparr>))"

section \<open>Reads\<close>

definition store_get :: "instant \<Rightarrow> ipaddr \<Rightarrow> store \<Rightarrow> store_value option" where
  "store_get now key s =
     (case inner s key of
        None \<Rightarrow> None
      | Some e \<Rightarrow> if is_expired now e then None else Some (entry_value e))"

text \<open>\<open>order\<close> lists the active prefixes in the iteration order of the map.\<close>

definition is_blocked_by_cidr :: "ip_network list \<Rightarrow> ipaddr \<Rightarrow> ip_network option" where
  "is_blocked_by_cidr order ip = find (\<lambda>net. net_contains net ip) order"

record store_stats =
  ips_tracked :: nat
  stat_blocked :: u64
  stat_ram_bytes :: usize
  stat_ram_limit_mb :: usize
  stat_uptime_secs :: u64
  stat_evictions :: u64

definition get_stats :: "store \<Rightarrow> store_stats" where
  "get_stats s =
     \<lparr>ips_tracked = card (dom (inner s)), stat_blocked = blocked_count s,
      stat_ram_bytes = ram_bytes s, stat_ram_limit_mb = ram_limit_mb (traffic s),
      stat_uptime_secs = uptime_secs (traffic s), stat_evictions = total_evictions s\<rparr>"

definition get_all_blocked_ips :: "store \<Rightarrow> ipaddr set" where
  "get_all_blocked_ips s = blocked_set s"

section \<open>Writes\<close>

definition entry_size :: "usize \<Rightarrow> store_value \<Rightarrow> usize" where
  "entry_size base v = base + heap_bytes v"

text \<open>\<^verbatim>\<open>Store::insert\<close>. The three adjustments of the replacement branch first.\<close>

definition ram_resize :: "usize \<Rightarrow> usize \<Rightarrow> store \<Rightarrow> store" where
  "ram_resize old_size new_size s =
     (if old_size \<le> new_size then ram_fetch_add (new_size - old_size) s
      else ram_fetch_sub (old_size - new_size) s)"

definition used_resize :: "usize \<Rightarrow> usize \<Rightarrow> store \<Rightarrow> store" where
  "used_resize old_size new_size s =
     (if old_size \<le> new_size then used_fetch_add (new_size - old_size) s
      else used_fetch_sub (old_size - new_size) s)"

definition ttl_move :: "instant option \<Rightarrow> instant option \<Rightarrow> store \<Rightarrow> store" where
  "ttl_move old new s =
     (case (old \<noteq> None, new \<noteq> None) of
        (False, True) \<Rightarrow> ttl_fetch_add s
      | (True, False) \<Rightarrow> ttl_fetch_sub s
      | _ \<Rightarrow> s)"

definition insert_occupied :: "usize \<Rightarrow> ipaddr \<Rightarrow> store_entry \<Rightarrow> store_entry \<Rightarrow> store \<Rightarrow> store" where
  "insert_occupied base key old new_entry s =
     (let new_size = entry_size base (entry_value new_entry);
          old_size = entry_size base (entry_value old);
          s1 = put_entry key new_entry s;
          s2 = ram_resize old_size new_size s1;
          s3 = sync_blocked_index key (is_blocked (entry_value old))
                 (is_blocked (entry_value new_entry)) s2;
          s4 = ttl_move (expires_at old) (expires_at new_entry) s3;
          s5 = used_resize old_size new_size s4
      in inserts_fetch_add s5)"

definition insert_vacant ::
  "usize \<Rightarrow> ipaddr \<Rightarrow> store_entry \<Rightarrow> usize \<Rightarrow> store \<Rightarrow> (unit, rs_error) outcome \<times> store" where
  "insert_vacant base key new_entry ram_limit s =
     (let new_size = entry_size base (entry_value new_entry) in
      case reserve new_size ram_limit s of
        Ok s1 \<Rightarrow>
          let s2 = put_entry key new_entry s1;
              s3 = sync_blocked_index key False (is_blocked (entry_value new_entry)) s2;
              s4 = (if expires_at new_entry \<noteq> None then ttl_fetch_add s3 else s3)
          in (Ok (), inserts_fetch_add (used_fetch_add new_size s4))
      | Err e \<Rightarrow> (Err e, s)
      | Panic \<Rightarrow> (Panic, s)
      | Deadlock \<Rightarrow> (Deadlock, s))"

definition store_insert ::
  "usize \<Rightarrow> instant \<Rightarrow> ipaddr \<Rightarrow> store_value \<Rightarrow> u64 option \<Rightarrow> usize \<Rightarrow> store \<Rightarrow>
   (unit, rs_error) outcome \<times> store" where
  "store_insert base now key v ttl_secs ram_limit s =
     (case (case ttl_secs of
              None \<Rightarrow> Some None
            | Some t \<Rightarrow> map_option Some (instant_checked_add now (unat t))) of
        None \<Rightarrow> (Panic, s)
      | Some expiry \<Rightarrow>
          let new_entry = \<lparr>entry_value = v, expires_at = expiry\<rparr> in
          case inner s key of
            Some old \<Rightarrow> (Ok (), insert_occupied base key old new_entry s)
          | None \<Rightarrow> insert_vacant base key new_entry ram_limit s)"

text \<open>The replacement of an expired or foreign entry by a permanent record, shared by
  \<^verbatim>\<open>block_ip\<close> and \<^verbatim>\<open>update_ip\<close>.\<close>

definition replace_dead :: "usize \<Rightarrow> ipaddr \<Rightarrow> store_entry \<Rightarrow> ip_record \<Rightarrow> bool \<Rightarrow> store \<Rightarrow> store" where
  "replace_dead base key old r now_blocked s =
     (let s1 = put_entry key \<lparr>entry_value = IpRecordV r, expires_at = None\<rparr> s;
          s2 = (if expires_at old \<noteq> None then ttl_fetch_sub s1 else s1);
          s3 = sync_blocked_index key (is_blocked (entry_value old)) now_blocked s2
      in apply_growth_size_only (entry_size base (entry_value old)) base s3)"

text \<open>The publication of a record under a new key, shared by the same two.\<close>

definition publish_new :: "usize \<Rightarrow> ipaddr \<Rightarrow> ip_record \<Rightarrow> bool \<Rightarrow> store \<Rightarrow> store" where
  "publish_new base key r now_blocked s =
     inserts_fetch_add
       (used_fetch_add base
         (sync_blocked_index key False now_blocked
           (put_entry key \<lparr>entry_value = IpRecordV r, expires_at = None\<rparr> s)))"

text \<open>A live record: present, not expired, of the record variant.\<close>

definition live_record :: "instant \<Rightarrow> store_entry \<Rightarrow> ip_record option" where
  "live_record now e =
     (if is_expired now e then None
      else case entry_value e of IpRecordV r \<Rightarrow> Some r | _ \<Rightarrow> None)"

definition take_expiry :: "store_entry \<Rightarrow> store \<Rightarrow> store" where
  "take_expiry e s = (if expires_at e \<noteq> None then ttl_fetch_sub s else s)"

definition block_ip ::
  "usize \<Rightarrow> instant \<Rightarrow> ipaddr \<Rightarrow> ip_record \<Rightarrow> usize \<Rightarrow> store \<Rightarrow> (unit, rs_error) outcome \<times> store" where
  "block_ip base now key fallback ram_limit s =
     (case block_state fallback of
        Blocked reason since_ns \<Rightarrow>
          (case inner s key of
             Some e \<Rightarrow>
               (case live_record now e of
                  Some r \<Rightarrow>
                    let e' = \<lparr>entry_value = IpRecordV (r\<lparr>block_state := Blocked reason since_ns\<rparr>),
                              expires_at = None\<rparr>
                    in (Ok (), sync_blocked_index key (block_state r \<noteq> Clean) True
                                 (take_expiry e (put_entry key e' s)))
                | None \<Rightarrow> (Ok (), replace_dead base key e fallback True s))
           | None \<Rightarrow>
               (case reserve base ram_limit s of
                  Ok s1 \<Rightarrow> (Ok (), publish_new base key fallback True s1)
                | Err e \<Rightarrow> (Err e, s)
                | Panic \<Rightarrow> (Panic, s)
                | Deadlock \<Rightarrow> (Deadlock, s)))
      | Clean \<Rightarrow> (Err (InvalidState ''block_ip requires a blocked fallback, got Clean''), s)
      | Suspicious \<Rightarrow>
          (Err (InvalidState ''block_ip requires a blocked fallback, got Suspicious''), s))"

definition unblock_ip :: "instant \<Rightarrow> ipaddr \<Rightarrow> store \<Rightarrow> bool \<times> store" where
  "unblock_ip now key s =
     (case inner s key of
        None \<Rightarrow> (False, s)
      | Some e \<Rightarrow>
          (case live_record now e of
             None \<Rightarrow> (False, s)
           | Some r \<Rightarrow>
               let e' = \<lparr>entry_value = IpRecordV (r\<lparr>block_state := Clean\<rparr>), expires_at = None\<rparr>
               in (True, sync_blocked_index key (block_state r \<noteq> Clean) False
                           (take_expiry e (put_entry key e' s)))))"

text \<open>\<^verbatim>\<open>update_ip\<close>: the closure returns a result and the mutated record.\<close>

definition update_ip ::
  "usize \<Rightarrow> instant \<Rightarrow> ipaddr \<Rightarrow> ip_record \<Rightarrow> usize \<Rightarrow> (ip_record \<Rightarrow> 'r \<times> ip_record) \<Rightarrow> store \<Rightarrow>
   ('r \<times> bool, rs_error) outcome \<times> store" where
  "update_ip base now key dflt ram_limit f s =
     (case inner s key of
        Some e \<Rightarrow>
          (case live_record now e of
             Some r \<Rightarrow>
               let (out, r') = f r
               in (Ok (out, True), put_entry key (e\<lparr>entry_value := IpRecordV r'\<rparr>) s)
           | None \<Rightarrow>
               let (out, r') = f dflt
               in (Ok (out, True), replace_dead base key e r' (block_state r' \<noteq> Clean) s))
      | None \<Rightarrow>
          let (out, r') = f dflt in
          (case reserve base ram_limit s of
             Ok s1 \<Rightarrow> (Ok (out, True), publish_new base key r' (block_state r' \<noteq> Clean) s1)
           | Err _ \<Rightarrow> (Ok (out, False), s)
           | Panic \<Rightarrow> (Panic, s)
           | Deadlock \<Rightarrow> (Deadlock, s)))"

text \<open>\<^verbatim>\<open>update_block_state\<close>. The live branch assigns the state and returns; the branch for a dead
  entry un-indexes the old record and never indexes the new one; the vacant branch publishes
  without the index.\<close>

definition update_block_state ::
  "usize \<Rightarrow> instant \<Rightarrow> ipaddr \<Rightarrow> block_state \<Rightarrow> usize \<Rightarrow> store \<Rightarrow> (bool, rs_error) outcome \<times> store" where
  "update_block_state base now key new_state ram_limit s =
     (case inner s key of
        Some e \<Rightarrow>
          (case live_record now e of
             Some r \<Rightarrow>
               (Ok True, put_entry key (e\<lparr>entry_value := IpRecordV (r\<lparr>block_state := new_state\<rparr>)\<rparr>) s)
           | None \<Rightarrow>
               let s1 = put_entry key \<lparr>entry_value = IpRecordV (zero_record key 0 new_state),
                                       expires_at = None\<rparr> s;
                   s2 = (if expires_at e \<noteq> None then ttl_fetch_sub s1 else s1);
                   s3 = (if is_blocked (entry_value e) then index_del key s2 else s2)
               in (Ok True, apply_growth_size_only (entry_size base (entry_value e)) base s3))
      | None \<Rightarrow>
          (case reserve base ram_limit s of
             Ok s1 \<Rightarrow>
               (Ok True, inserts_fetch_add (used_fetch_add base
                  (put_entry key \<lparr>entry_value = IpRecordV (zero_record key 0 new_state),
                                  expires_at = None\<rparr> s1)))
           | Err _ \<Rightarrow> (Ok False, s)
           | Panic \<Rightarrow> (Panic, s)
           | Deadlock \<Rightarrow> (Deadlock, s)))"

text \<open>The bookkeeping and removal of one entry, shared by \<^verbatim>\<open>remove\<close> and \<^verbatim>\<open>evict_batch\<close>.\<close>

definition drop_entry :: "usize \<Rightarrow> ipaddr \<Rightarrow> store_entry \<Rightarrow> store \<Rightarrow> store" where
  "drop_entry base key e s =
     (let freed = entry_size base (entry_value e);
          s1 = (if expires_at e \<noteq> None then ttl_fetch_sub s else s);
          s2 = evictions_fetch_add (used_fetch_sub freed (ram_fetch_sub freed s1));
          s3 = (if is_blocked (entry_value e) then index_del key s2 else s2);
          s4 = s3\<lparr>inner := (inner s3)(key := None)\<rparr>
      in update_subnet_index key (subnet_key_u128 key) True s4)"

definition store_remove :: "usize \<Rightarrow> ipaddr \<Rightarrow> store \<Rightarrow> store_value option \<times> store" where
  "store_remove base key s =
     (case inner s key of
        Some e \<Rightarrow> (Some (entry_value e), drop_entry base key e s)
      | None \<Rightarrow> (None, s))"

definition evict_one :: "usize \<Rightarrow> instant \<Rightarrow> ipaddr \<Rightarrow> store \<Rightarrow> store" where
  "evict_one base now key s =
     (case inner s key of
        Some e \<Rightarrow> if is_expired now e then drop_entry base key e s else s
      | None \<Rightarrow> s)"

definition evict_batch :: "usize \<Rightarrow> instant \<Rightarrow> ipaddr list \<Rightarrow> store \<Rightarrow> store" where
  "evict_batch base now keys s = fold (evict_one base now) keys s"

text \<open>\<open>keys\<close> is the list the iteration over the map collects.\<close>

definition evict_expired :: "usize \<Rightarrow> instant \<Rightarrow> ipaddr list \<Rightarrow> store \<Rightarrow> nat \<times> store" where
  "evict_expired base now keys s =
     (if ttl_entries s = 0 then (0, s)
      else let s' = evict_batch base now keys s
           in (card (dom (inner s)) - card (dom (inner s')), s'))"

section \<open>Effects of the updates on each field\<close>

lemma ram_fetch_add_fields [simp]:
  "inner (ram_fetch_add n s) = inner s"
  "ram_bytes (ram_fetch_add n s) = ram_bytes s + n"
  "used_bytes (traffic (ram_fetch_add n s)) = used_bytes (traffic s)"
  "ttl_entries (ram_fetch_add n s) = ttl_entries s"
  "blocked_set (ram_fetch_add n s) = blocked_set s"
  "blocked_count (ram_fetch_add n s) = blocked_count s"
  "subnet_index (ram_fetch_add n s) = subnet_index s"
  by (simp_all add: ram_fetch_add_def)

lemma ram_fetch_sub_fields [simp]:
  "inner (ram_fetch_sub n s) = inner s"
  "ram_bytes (ram_fetch_sub n s) = ram_bytes s - n"
  "used_bytes (traffic (ram_fetch_sub n s)) = used_bytes (traffic s)"
  "ttl_entries (ram_fetch_sub n s) = ttl_entries s"
  "blocked_set (ram_fetch_sub n s) = blocked_set s"
  "blocked_count (ram_fetch_sub n s) = blocked_count s"
  "subnet_index (ram_fetch_sub n s) = subnet_index s"
  by (simp_all add: ram_fetch_sub_def)

lemma used_fetch_add_fields [simp]:
  "inner (used_fetch_add n s) = inner s"
  "ram_bytes (used_fetch_add n s) = ram_bytes s"
  "used_bytes (traffic (used_fetch_add n s)) = used_bytes (traffic s) + n"
  "ttl_entries (used_fetch_add n s) = ttl_entries s"
  "blocked_set (used_fetch_add n s) = blocked_set s"
  "blocked_count (used_fetch_add n s) = blocked_count s"
  "subnet_index (used_fetch_add n s) = subnet_index s"
  by (simp_all add: used_fetch_add_def)

lemma used_fetch_sub_fields [simp]:
  "inner (used_fetch_sub n s) = inner s"
  "ram_bytes (used_fetch_sub n s) = ram_bytes s"
  "used_bytes (traffic (used_fetch_sub n s)) = used_bytes (traffic s) - n"
  "ttl_entries (used_fetch_sub n s) = ttl_entries s"
  "blocked_set (used_fetch_sub n s) = blocked_set s"
  "blocked_count (used_fetch_sub n s) = blocked_count s"
  "subnet_index (used_fetch_sub n s) = subnet_index s"
  by (simp_all add: used_fetch_sub_def)

lemma ttl_fetch_add_fields [simp]:
  "inner (ttl_fetch_add s) = inner s"
  "ram_bytes (ttl_fetch_add s) = ram_bytes s"
  "used_bytes (traffic (ttl_fetch_add s)) = used_bytes (traffic s)"
  "ttl_entries (ttl_fetch_add s) = ttl_entries s + 1"
  "blocked_set (ttl_fetch_add s) = blocked_set s"
  "blocked_count (ttl_fetch_add s) = blocked_count s"
  "subnet_index (ttl_fetch_add s) = subnet_index s"
  by (simp_all add: ttl_fetch_add_def)

lemma ttl_fetch_sub_fields [simp]:
  "inner (ttl_fetch_sub s) = inner s"
  "ram_bytes (ttl_fetch_sub s) = ram_bytes s"
  "used_bytes (traffic (ttl_fetch_sub s)) = used_bytes (traffic s)"
  "ttl_entries (ttl_fetch_sub s) = ttl_entries s - 1"
  "blocked_set (ttl_fetch_sub s) = blocked_set s"
  "blocked_count (ttl_fetch_sub s) = blocked_count s"
  "subnet_index (ttl_fetch_sub s) = subnet_index s"
  by (simp_all add: ttl_fetch_sub_def)

lemma inserts_fetch_add_fields [simp]:
  "inner (inserts_fetch_add s) = inner s"
  "ram_bytes (inserts_fetch_add s) = ram_bytes s"
  "used_bytes (traffic (inserts_fetch_add s)) = used_bytes (traffic s)"
  "ttl_entries (inserts_fetch_add s) = ttl_entries s"
  "blocked_set (inserts_fetch_add s) = blocked_set s"
  "blocked_count (inserts_fetch_add s) = blocked_count s"
  "subnet_index (inserts_fetch_add s) = subnet_index s"
  by (simp_all add: inserts_fetch_add_def)

lemma evictions_fetch_add_fields [simp]:
  "inner (evictions_fetch_add s) = inner s"
  "ram_bytes (evictions_fetch_add s) = ram_bytes s"
  "used_bytes (traffic (evictions_fetch_add s)) = used_bytes (traffic s)"
  "ttl_entries (evictions_fetch_add s) = ttl_entries s"
  "blocked_set (evictions_fetch_add s) = blocked_set s"
  "blocked_count (evictions_fetch_add s) = blocked_count s"
  "subnet_index (evictions_fetch_add s) = subnet_index s"
  by (simp_all add: evictions_fetch_add_def)

lemma put_entry_fields [simp]:
  "inner (put_entry k e s) = (inner s)(k \<mapsto> e)"
  "ram_bytes (put_entry k e s) = ram_bytes s"
  "used_bytes (traffic (put_entry k e s)) = used_bytes (traffic s)"
  "ttl_entries (put_entry k e s) = ttl_entries s"
  "blocked_set (put_entry k e s) = blocked_set s"
  "blocked_count (put_entry k e s) = blocked_count s"
  "subnet_index (put_entry k e s) = subnet_index s"
  by (simp_all add: put_entry_def)

lemma sync_blocked_index_fields [simp]:
  "inner (sync_blocked_index k was now s) = inner s"
  "ram_bytes (sync_blocked_index k was now s) = ram_bytes s"
  "used_bytes (traffic (sync_blocked_index k was now s)) = used_bytes (traffic s)"
  "ttl_entries (sync_blocked_index k was now s) = ttl_entries s"
  "blocked_set (sync_blocked_index k was now s) =
     (if was = now then blocked_set s else if now then insert k (blocked_set s) else blocked_set s - {k})"
  "blocked_count (sync_blocked_index k was now s) = blocked_count s - of_bool was + of_bool now"
  "subnet_index (sync_blocked_index k was now s) = subnet_index s"
  by (auto simp: sync_blocked_index_def index_add_def index_del_def)

text \<open>Growing by the difference or shrinking by it is the same wrapping update.\<close>

lemma apply_growth_fields [simp]:
  "inner (apply_growth_size_only old new s) = inner s"
  "ram_bytes (apply_growth_size_only old new s) = ram_bytes s - old + new"
  "used_bytes (traffic (apply_growth_size_only old new s)) = used_bytes (traffic s) - old + new"
  "ttl_entries (apply_growth_size_only old new s) = ttl_entries s"
  "blocked_set (apply_growth_size_only old new s) = blocked_set s"
  "blocked_count (apply_growth_size_only old new s) = blocked_count s"
  "subnet_index (apply_growth_size_only old new s) = subnet_index s"
  by (simp_all add: apply_growth_size_only_def)

lemma take_expiry_fields [simp]:
  "inner (take_expiry e s) = inner s"
  "ram_bytes (take_expiry e s) = ram_bytes s"
  "used_bytes (traffic (take_expiry e s)) = used_bytes (traffic s)"
  "ttl_entries (take_expiry e s) = ttl_entries s - of_bool (expires_at e \<noteq> None)"
  "blocked_set (take_expiry e s) = blocked_set s"
  "blocked_count (take_expiry e s) = blocked_count s"
  "subnet_index (take_expiry e s) = subnet_index s"
  by (simp_all add: take_expiry_def)

lemma ram_resize_fields [simp]:
  "inner (ram_resize a b s) = inner s"
  "ram_bytes (ram_resize a b s) = ram_bytes s - a + b"
  "used_bytes (traffic (ram_resize a b s)) = used_bytes (traffic s)"
  "ttl_entries (ram_resize a b s) = ttl_entries s"
  "blocked_set (ram_resize a b s) = blocked_set s"
  "blocked_count (ram_resize a b s) = blocked_count s"
  "subnet_index (ram_resize a b s) = subnet_index s"
  by (simp_all add: ram_resize_def)

lemma used_resize_fields [simp]:
  "inner (used_resize a b s) = inner s"
  "ram_bytes (used_resize a b s) = ram_bytes s"
  "used_bytes (traffic (used_resize a b s)) = used_bytes (traffic s) - a + b"
  "ttl_entries (used_resize a b s) = ttl_entries s"
  "blocked_set (used_resize a b s) = blocked_set s"
  "blocked_count (used_resize a b s) = blocked_count s"
  "subnet_index (used_resize a b s) = subnet_index s"
  by (simp_all add: used_resize_def)

lemma ttl_move_fields [simp]:
  "inner (ttl_move a b s) = inner s"
  "ram_bytes (ttl_move a b s) = ram_bytes s"
  "used_bytes (traffic (ttl_move a b s)) = used_bytes (traffic s)"
  "ttl_entries (ttl_move a b s) = ttl_entries s - of_bool (a \<noteq> None) + of_bool (b \<noteq> None)"
  "blocked_set (ttl_move a b s) = blocked_set s"
  "blocked_count (ttl_move a b s) = blocked_count s"
  "subnet_index (ttl_move a b s) = subnet_index s"
  by (simp_all add: ttl_move_def split: bool.split)

lemma reserve_Ok:
  "reserve n lim s = Ok s' \<longleftrightarrow>
   unat (ram_bytes s) + unat n < 2 ^ 64 \<and> ram_bytes s + n \<le> lim \<and> s' = s\<lparr>ram_bytes := ram_bytes s + n\<rparr>"
  by (auto simp: reserve_def checked_add_def not_le)

lemma live_record_Some:
  "live_record now e = Some r \<longleftrightarrow> \<not> is_expired now e \<and> entry_value e = IpRecordV r"
  by (auto simp: live_record_def split: store_value.splits)

lemma drop_entry_fields:
  "inner (drop_entry base key e s) = (inner s)(key := None)"
  "ram_bytes (drop_entry base key e s) = ram_bytes s - entry_size base (entry_value e)"
  "used_bytes (traffic (drop_entry base key e s)) =
     used_bytes (traffic s) - entry_size base (entry_value e)"
  "ttl_entries (drop_entry base key e s) = ttl_entries s - of_bool (expires_at e \<noteq> None)"
  "blocked_set (drop_entry base key e s) =
     (if is_blocked (entry_value e) then blocked_set s - {key} else blocked_set s)"
  "blocked_count (drop_entry base key e s) = blocked_count s - of_bool (is_blocked (entry_value e))"
  by (simp_all add: drop_entry_def Let_def index_del_def)

end
