(* ===== verification/Store_Inv.thy ===== *)
theory Store_Inv
  imports Store
begin

text \<open>
  The accounting invariant of the behaviour store, its preservation by the operations, and the
  properties of the operations that rest on it.
\<close>

section \<open>The accounting invariant\<close>

definition entry_blocked :: "store_entry \<Rightarrow> bool" where
  "entry_blocked e = is_blocked (entry_value e)"

definition store_inv :: "usize \<Rightarrow> store \<Rightarrow> bool" where
  "store_inv base s \<longleftrightarrow>
     finite (dom (inner s)) \<and>
     ram_bytes s = val_sum (\<lambda>e. entry_size base (entry_value e)) (inner s) \<and>
     used_bytes (traffic s) = val_sum (\<lambda>e. entry_size base (entry_value e)) (inner s) \<and>
     ttl_entries s = val_sum (\<lambda>e. of_bool (expires_at e \<noteq> None)) (inner s) \<and>
     blocked_set s = keys_where entry_blocked (inner s) \<and>
     blocked_count s = val_sum (\<lambda>e. of_bool (entry_blocked e)) (inner s) \<and>
     index_inv s"

lemma store_inv_new [simp]: "store_inv base store_new"
  using index_inv_new by (simp add: store_inv_def store_new_def traffic_new_def)

text \<open>One lemma covers every update of one key: if the counters moved by the difference between the
  new and the old entry and the index follows the new entry, the invariant is kept.\<close>

lemma store_inv_put:
  assumes "store_inv base s"
    and "inner s' = (inner s)(key \<mapsto> e)"
    and "ram_bytes s' = ram_bytes s - opt_val (\<lambda>e. entry_size base (entry_value e)) (inner s key)
           + entry_size base (entry_value e)"
    and "used_bytes (traffic s') = used_bytes (traffic s)
           - opt_val (\<lambda>e. entry_size base (entry_value e)) (inner s key)
           + entry_size base (entry_value e)"
    and "ttl_entries s' = ttl_entries s - opt_val (\<lambda>e. of_bool (expires_at e \<noteq> None)) (inner s key)
           + of_bool (expires_at e \<noteq> None)"
    and "blocked_set s' = (if entry_blocked e then insert key (blocked_set s) else blocked_set s - {key})"
    and "blocked_count s' = blocked_count s - opt_val (\<lambda>e. of_bool (entry_blocked e)) (inner s key)
           + of_bool (entry_blocked e)"
    and "subnet_index s' = subnet_index s"
  shows "store_inv base s'"
  using assms by (simp add: store_inv_def val_sum_update keys_where_update index_inv_cong [of s' s])

lemma store_inv_blocked_set: "store_inv base s \<Longrightarrow> blocked_set s = keys_where entry_blocked (inner s)"
  by (simp add: store_inv_def)

lemma store_inv_ttl:
  assumes "store_inv base s"
  shows "ttl_entries s = of_nat (card (keys_where (\<lambda>e. expires_at e \<noteq> None) (inner s)))"
proof -
  have "ttl_entries s = val_sum (\<lambda>e. of_bool (expires_at e \<noteq> None)) (inner s)" "finite (dom (inner s))"
    using assms unfolding store_inv_def by blast+
  then show ?thesis by (simp only: val_sum_card)
qed

lemma mem_blocked_set:
  "store_inv base s \<Longrightarrow> k \<in> blocked_set s \<longleftrightarrow> (\<exists>e. inner s k = Some e \<and> entry_blocked e)"
  by (simp add: store_inv_blocked_set)

lemma blocked_set_noop:
  assumes "store_inv base s"
  shows "inner s key = Some e \<Longrightarrow> entry_blocked e \<Longrightarrow> insert key (blocked_set s) = blocked_set s"
    and "inner s key = Some e \<Longrightarrow> \<not> entry_blocked e \<Longrightarrow> blocked_set s - {key} = blocked_set s"
    and "inner s key = None \<Longrightarrow> blocked_set s - {key} = blocked_set s"
  using mem_blocked_set [OF assms, of key] by (simp_all add: insert_absorb)

lemma insert_occupied_inv:
  assumes "store_inv base s" "inner s key = Some old"
  shows "store_inv base (insert_occupied base key old e s)"
  using assms(2) blocked_set_noop(1,2) [OF assms]
  by (intro store_inv_put [OF assms(1), where key = key and e = e])
    (simp_all add: insert_occupied_def Let_def entry_blocked_def)

lemma replace_dead_inv:
  assumes "store_inv base s" "inner s key = Some old" "b = (block_state r \<noteq> Clean)"
  shows "store_inv base (replace_dead base key old r b s)"
  using assms(2,3) blocked_set_noop(1,2) [OF assms(1,2)]
  by (intro store_inv_put [OF assms(1), where key = key and
        e = "\<lparr>entry_value = IpRecordV r, expires_at = None\<rparr>"])
    (simp_all add: replace_dead_def Let_def entry_blocked_def entry_size_def)

lemma insert_vacant_inv:
  assumes "store_inv base s" "inner s key = None"
  shows "store_inv base (snd (insert_vacant base key e lim s))"
proof (cases "reserve (entry_size base (entry_value e)) lim s")
  case (Ok s1)
  note r = Ok [unfolded reserve_Ok]
  show ?thesis
    using assms(2) blocked_set_noop(3) [OF assms] r
    by (intro store_inv_put [OF assms(1), where key = key and e = e])
      (simp_all add: insert_vacant_def Ok Let_def entry_blocked_def)
qed (simp_all add: insert_vacant_def assms)

lemma publish_new_inv:
  assumes "store_inv base s" "inner s key = None" "reserve base lim s = Ok s1"
    "b = (block_state r \<noteq> Clean)"
  shows "store_inv base (publish_new base key r b s1)"
  using assms(2-) blocked_set_noop(3) [OF assms(1,2)]
  by (intro store_inv_put [OF assms(1), where key = key and
        e = "\<lparr>entry_value = IpRecordV r, expires_at = None\<rparr>"])
    (simp_all add: publish_new_def entry_blocked_def entry_size_def reserve_Ok)

lemma live_state_inv:
  assumes "store_inv base s" "inner s key = Some e" "live_record now e = Some r"
    "b = (block_state r' \<noteq> Clean)"
  shows "store_inv base (sync_blocked_index key (block_state r \<noteq> Clean) b
           (take_expiry e (put_entry key \<lparr>entry_value = IpRecordV r', expires_at = None\<rparr> s)))"
  using assms(2-) blocked_set_noop(1,2) [OF assms(1,2)]
  by (intro store_inv_put [OF assms(1), where key = key and
        e = "\<lparr>entry_value = IpRecordV r', expires_at = None\<rparr>"])
    (simp_all add: entry_blocked_def entry_size_def live_record_Some)

lemma drop_entry_index: "index_inv s \<Longrightarrow> index_inv (drop_entry base key e s)"
  unfolding drop_entry_def Let_def
  by (rule index_inv_removal) (simp add: index_inv_def index_del_def)

lemma drop_entry_inv:
  assumes "store_inv base s" "inner s key = Some e"
  shows "store_inv base (drop_entry base key e s)"
  using assms blocked_set_noop(2) [OF assms] drop_entry_index [of s base key e]
  by (simp add: store_inv_def drop_entry_fields val_sum_delete keys_where_delete entry_blocked_def)

section \<open>Preservation by every operation\<close>

lemma store_insert_inv:
  assumes "store_inv base s"
  shows "store_inv base (snd (store_insert base now key v ttl lim s))"
  using assms
  by (auto simp: store_insert_def Let_def insert_occupied_inv insert_vacant_inv split: option.split)

lemma block_ip_inv:
  assumes "store_inv base s"
  shows "store_inv base (snd (block_ip base now key fallback lim s))"
proof (cases "block_state fallback")
  case (Blocked reason since)
  show ?thesis
  proof (cases "inner s key")
    case None
    show ?thesis
    proof (cases "reserve base lim s")
      case (Ok s1)
      with publish_new_inv [OF assms None Ok, of True fallback] Blocked None show ?thesis
        by (simp add: block_ip_def)
    qed (simp_all add: block_ip_def Blocked None assms)
  next
    case (Some e)
    show ?thesis
    proof (cases "live_record now e")
      case None
      with replace_dead_inv [OF assms Some, of True fallback] Blocked Some show ?thesis
        by (simp add: block_ip_def)
    next
      case live: (Some r)
      with live_state_inv [OF assms Some live, of True "r\<lparr>block_state := Blocked reason since\<rparr>"]
        Blocked Some show ?thesis
        by (simp add: block_ip_def Let_def)
    qed
  qed
qed (simp_all add: block_ip_def assms)

lemma unblock_ip_inv:
  assumes "store_inv base s"
  shows "store_inv base (snd (unblock_ip now key s))"
proof (cases "inner s key")
  case None
  then show ?thesis using assms by (simp add: unblock_ip_def)
next
  case (Some e)
  show ?thesis
  proof (cases "live_record now e")
    case None
    then show ?thesis using assms Some by (simp add: unblock_ip_def)
  next
    case live: (Some r)
    with live_state_inv [OF assms Some live, of False "r\<lparr>block_state := Clean\<rparr>"] Some show ?thesis
      by (simp add: unblock_ip_def Let_def)
  qed
qed

lemma put_same_state_inv:
  assumes "store_inv base s" "inner s key = Some e" "entry_value e = IpRecordV r"
    "block_state r' = block_state r"
  shows "store_inv base (put_entry key (e\<lparr>entry_value := IpRecordV r'\<rparr>) s)"
  using assms(2-) blocked_set_noop(1,2) [OF assms(1,2)]
  by (intro store_inv_put [OF assms(1), where key = key and e = "e\<lparr>entry_value := IpRecordV r'\<rparr>"])
    (simp_all add: entry_blocked_def entry_size_def)

lemma update_ip_inv:
  assumes "store_inv base s" "\<And>r. block_state (snd (f r)) = block_state r"
  shows "store_inv base (snd (update_ip base now key dflt lim f s))"
proof (cases "inner s key")
  case None
  show ?thesis
  proof (cases "reserve base lim s")
    case (Ok s1)
    with publish_new_inv [OF assms(1) None Ok refl, of "snd (f dflt)"] None show ?thesis
      by (simp add: update_ip_def case_prod_unfold Let_def)
  qed (simp_all add: update_ip_def None assms(1) split: prod.split)
next
  case (Some e)
  show ?thesis
  proof (cases "live_record now e")
    case None
    with replace_dead_inv [OF assms(1) Some refl, of "snd (f dflt)"] Some show ?thesis
      by (simp add: update_ip_def case_prod_unfold Let_def)
  next
    case live: (Some r)
    then have "entry_value e = IpRecordV r" by (simp add: live_record_Some)
    with put_same_state_inv [OF assms(1) Some _ assms(2)] Some live show ?thesis
      by (simp add: update_ip_def case_prod_unfold Let_def)
  qed
qed

lemma store_remove_inv: "store_inv base s \<Longrightarrow> store_inv base (snd (store_remove base key s))"
  by (simp add: store_remove_def drop_entry_inv split: option.split)

lemma evict_one_inv: "store_inv base s \<Longrightarrow> store_inv base (evict_one base now key s)"
  by (simp add: evict_one_def drop_entry_inv split: option.split)

lemma evict_batch_inv: "store_inv base s \<Longrightarrow> store_inv base (evict_batch base now keys s)"
  unfolding evict_batch_def by (induction keys arbitrary: s) (simp_all add: evict_one_inv)

lemma evict_expired_inv: "store_inv base s \<Longrightarrow> store_inv base (snd (evict_expired base now keys s))"
  by (simp add: evict_expired_def Let_def evict_batch_inv)

lemma store_inv_subnets:
  assumes "store_inv base s"
  shows "store_inv base (merge_subnet_window k net ev ms t s)"
    and "store_inv base (reset_subnet_window k s)"
    and "store_inv base (update_subnet_index ip (subnet_key_u128 ip) False s)"
    and "store_inv base (update_subnet_index ip key True s)"
  using assms index_inv_insertion [of s ip] index_inv_removal [of s ip key]
  by (simp_all add: store_inv_def index_inv_cong [of "merge_subnet_window k net ev ms t s" s]
      index_inv_cong [of "reset_subnet_window k s" s])

section \<open>The counters under every operation\<close>

text \<open>The counters of sizes and expiries alone. Every operation keeps them, whatever it does to the blocked index.\<close>

definition sizes_inv :: "usize \<Rightarrow> store \<Rightarrow> bool" where
  "sizes_inv base s \<longleftrightarrow>
     finite (dom (inner s)) \<and>
     ram_bytes s = val_sum (\<lambda>e. entry_size base (entry_value e)) (inner s) \<and>
     used_bytes (traffic s) = val_sum (\<lambda>e. entry_size base (entry_value e)) (inner s) \<and>
     ttl_entries s = val_sum (\<lambda>e. of_bool (expires_at e \<noteq> None)) (inner s)"

lemma sizes_inv_new [simp]: "sizes_inv base store_new"
  by (simp add: sizes_inv_def store_new_def traffic_new_def)

lemma sizes_inv_put:
  assumes "sizes_inv base s"
    and "inner s' = (inner s)(key \<mapsto> e)"
    and "ram_bytes s' = ram_bytes s - opt_val (\<lambda>e. entry_size base (entry_value e)) (inner s key)
           + entry_size base (entry_value e)"
    and "used_bytes (traffic s') = used_bytes (traffic s)
           - opt_val (\<lambda>e. entry_size base (entry_value e)) (inner s key)
           + entry_size base (entry_value e)"
    and "ttl_entries s' = ttl_entries s - opt_val (\<lambda>e. of_bool (expires_at e \<noteq> None)) (inner s key)
           + of_bool (expires_at e \<noteq> None)"
  shows "sizes_inv base s'"
  using assms by (simp add: sizes_inv_def val_sum_update)

lemma insert_occupied_sizes:
  assumes "sizes_inv base s" "inner s key = Some old"
  shows "sizes_inv base (insert_occupied base key old e s)"
  using assms(2) by (intro sizes_inv_put [OF assms(1), where key = key and e = e])
    (simp_all add: insert_occupied_def Let_def)

lemma replace_dead_sizes:
  assumes "sizes_inv base s" "inner s key = Some old"
  shows "sizes_inv base (replace_dead base key old r b s)"
  using assms(2)
  by (intro sizes_inv_put [OF assms(1), where key = key and e = "\<lparr>entry_value = IpRecordV r, expires_at = None\<rparr>"])
    (simp_all add: replace_dead_def Let_def entry_size_def)

lemma insert_vacant_sizes:
  assumes "sizes_inv base s" "inner s key = None"
  shows "sizes_inv base (snd (insert_vacant base key e lim s))"
proof (cases "reserve (entry_size base (entry_value e)) lim s")
  case (Ok s1)
  note r = Ok [unfolded reserve_Ok]
  show ?thesis
    using assms(2) r by (intro sizes_inv_put [OF assms(1), where key = key and e = e])
      (simp_all add: insert_vacant_def Ok Let_def)
qed (simp_all add: insert_vacant_def assms)

lemma publish_new_sizes:
  assumes "sizes_inv base s" "inner s key = None" "reserve base lim s = Ok s1"
  shows "sizes_inv base (publish_new base key r b s1)"
  using assms(2-)
  by (intro sizes_inv_put [OF assms(1), where key = key and e = "\<lparr>entry_value = IpRecordV r, expires_at = None\<rparr>"])
    (simp_all add: publish_new_def entry_size_def reserve_Ok)

lemma live_state_sizes:
  assumes "sizes_inv base s" "inner s key = Some e" "live_record now e = Some r"
  shows "sizes_inv base (sync_blocked_index key a b
           (take_expiry e (put_entry key \<lparr>entry_value = IpRecordV r', expires_at = None\<rparr> s)))"
  using assms(2-)
  by (intro sizes_inv_put [OF assms(1), where key = key and e = "\<lparr>entry_value = IpRecordV r', expires_at = None\<rparr>"])
    (simp_all add: entry_size_def live_record_Some)

lemma put_record_sizes:
  assumes "sizes_inv base s" "inner s key = Some e" "live_record now e = Some r"
  shows "sizes_inv base (put_entry key (e\<lparr>entry_value := IpRecordV r'\<rparr>) s)"
  using assms(2-)
  by (intro sizes_inv_put [OF assms(1), where key = key and e = "e\<lparr>entry_value := IpRecordV r'\<rparr>"])
    (simp_all add: entry_size_def live_record_Some)

lemma drop_entry_sizes:
  assumes "sizes_inv base s" "inner s key = Some e"
  shows "sizes_inv base (drop_entry base key e s)"
  using assms by (simp add: sizes_inv_def drop_entry_fields val_sum_delete)

lemma store_insert_sizes: "sizes_inv base s \<Longrightarrow> sizes_inv base (snd (store_insert base now key v ttl lim s))"
  by (auto simp: store_insert_def Let_def insert_occupied_sizes insert_vacant_sizes split: option.split)

lemma block_ip_sizes:
  assumes "sizes_inv base s"
  shows "sizes_inv base (snd (block_ip base now key fallback lim s))"
  using assms publish_new_sizes [OF assms, of key lim] replace_dead_sizes [OF assms, of key] live_state_sizes [OF assms, of key _ now]
  by (auto simp: block_ip_def Let_def split: block_state.split option.split outcome.split)

lemma unblock_ip_sizes:
  assumes "sizes_inv base s"
  shows "sizes_inv base (snd (unblock_ip now key s))"
  using assms live_state_sizes [OF assms, of key _ now]
  by (auto simp: unblock_ip_def Let_def split: option.split block_state.split)

lemma update_ip_sizes:
  assumes "sizes_inv base s"
  shows "sizes_inv base (snd (update_ip base now key dflt lim f s))"
  using assms publish_new_sizes [OF assms, of key lim] replace_dead_sizes [OF assms, of key] put_record_sizes [OF assms, of key _ now]
  by (auto simp: update_ip_def case_prod_unfold Let_def split: option.split outcome.split)

lemma update_block_state_sizes:
  assumes "sizes_inv base s"
  shows "sizes_inv base (snd (update_block_state base now key st lim s))"
proof (cases "inner s key")
  case None
  show ?thesis
  proof (cases "reserve base lim s")
    case (Ok s1)
    show ?thesis using None Ok [unfolded reserve_Ok]
      by (intro sizes_inv_put [OF assms, where key = key and
            e = "\<lparr>entry_value = IpRecordV (zero_record key 0 st), expires_at = None\<rparr>"])
        (simp_all add: update_block_state_def entry_size_def Ok)
  qed (simp_all add: update_block_state_def None assms)
next
  case (Some e)
  show ?thesis
  proof (cases "live_record now e")
    case None
    then show ?thesis using Some
      by (intro sizes_inv_put [OF assms, where key = key and
            e = "\<lparr>entry_value = IpRecordV (zero_record key 0 st), expires_at = None\<rparr>"])
        (simp_all add: update_block_state_def entry_size_def Let_def index_del_def)
  next
    case (Some r)
    then show ?thesis using put_record_sizes [OF assms \<open>inner s key = Some e\<close> Some] \<open>inner s key = Some e\<close>
      by (simp add: update_block_state_def)
  qed
qed

lemma evict_one_sizes: "sizes_inv base s \<Longrightarrow> sizes_inv base (evict_one base now key s)"
  by (simp add: evict_one_def drop_entry_sizes split: option.split)

lemma evict_batch_sizes: "sizes_inv base s \<Longrightarrow> sizes_inv base (evict_batch base now keys s)"
  unfolding evict_batch_def by (induction keys arbitrary: s) (simp_all add: evict_one_sizes)

lemma subnets_sizes:
  "sizes_inv base (merge_subnet_window k net ev ms t s) = sizes_inv base s"
  "sizes_inv base (reset_subnet_window k s) = sizes_inv base s"
  "sizes_inv base (update_subnet_index ip key rm s) = sizes_inv base s"
  by (simp_all add: sizes_inv_def)

section \<open>Sequences of operations\<close>

datatype store_op =
    OpInsert instant ipaddr store_value "u64 option" usize
  | OpBlock instant ipaddr ip_record usize
  | OpUnblock instant ipaddr
  | OpUpdate instant ipaddr ip_record usize "ip_record \<Rightarrow> ip_record"
  | OpUpdateBlockState instant ipaddr block_state usize
  | OpRemove ipaddr
  | OpEvictBatch instant "ipaddr list"
  | OpEvictExpired instant "ipaddr list"
  | OpMergeSubnet subnet_key ip_network u32 "ipaddr list option" u64
  | OpResetSubnet subnet_key
  | OpIndexAdd ipaddr

fun store_step :: "usize \<Rightarrow> store_op \<Rightarrow> store \<Rightarrow> store" where
  "store_step base (OpInsert now k v ttl lim) s = snd (store_insert base now k v ttl lim s)"
| "store_step base (OpBlock now k r lim) s = snd (block_ip base now k r lim s)"
| "store_step base (OpUnblock now k) s = snd (unblock_ip now k s)"
| "store_step base (OpUpdate now k r lim f) s = snd (update_ip base now k r lim (\<lambda>x. ((), f x)) s)"
| "store_step base (OpUpdateBlockState now k st lim) s =
     snd (update_block_state base now k st lim s)"
| "store_step base (OpRemove k) s = snd (store_remove base k s)"
| "store_step base (OpEvictBatch now ks) s = evict_batch base now ks s"
| "store_step base (OpEvictExpired now ks) s = snd (evict_expired base now ks s)"
| "store_step base (OpMergeSubnet k net ev ms t) s = merge_subnet_window k net ev ms t s"
| "store_step base (OpResetSubnet k) s = reset_subnet_window k s"
| "store_step base (OpIndexAdd ip) s = update_subnet_index ip (subnet_key_u128 ip) False s"

text \<open>The documented contract of \<^verbatim>\<open>update_ip\<close> is that its closure leaves the block state alone.
  \<^verbatim>\<open>update_block_state\<close> is left out: it breaks the invariant (see below).\<close>

fun store_op_ok :: "store_op \<Rightarrow> bool" where
  "store_op_ok (OpUpdate _ _ _ _ f) = (\<forall>r. block_state (f r) = block_state r)"
| "store_op_ok (OpUpdateBlockState _ _ _ _) = False"
| "store_op_ok _ = True"

lemma store_step_inv:
  "store_op_ok op \<Longrightarrow> store_inv base s \<Longrightarrow> store_inv base (store_step base op s)"
  by (cases op) (simp_all add: store_insert_inv block_ip_inv unblock_ip_inv update_ip_inv
      store_remove_inv evict_batch_inv evict_expired_inv store_inv_subnets)

interpretation store_sys: invariant_system store_new "store_step base" "store_inv base" store_op_ok
  for base
  by unfold_locales (simp_all add: store_step_inv)

lemma store_step_sizes: "sizes_inv base s \<Longrightarrow> sizes_inv base (store_step base op s)"
proof (cases op)
  case (OpRemove k)
  then show "sizes_inv base s \<Longrightarrow> ?thesis" by (simp add: store_remove_def drop_entry_sizes split: option.split)
next
  case (OpEvictExpired now ks)
  then show "sizes_inv base s \<Longrightarrow> ?thesis" by (simp add: evict_expired_def Let_def evict_batch_sizes)
qed (simp_all add: store_insert_sizes block_ip_sizes unblock_ip_sizes update_ip_sizes update_block_state_sizes evict_batch_sizes
    subnets_sizes)

interpretation store_sizes: invariant_system store_new "store_step base" "sizes_inv base" "\<lambda>_. True"
  for base
  by unfold_locales (simp_all add: store_step_sizes)

section \<open>Properties\<close>

text \<open>C6: The accounting of the store. After any sequence of store operations, \<^verbatim>\<open>update_block_state\<close> and any closure
  of \<^verbatim>\<open>update_ip\<close> included, the RAM counter and the byte counter are both the sum of the sizes of the
  entries held, and the TTL counter is the number of entries with an expiry. If moreover the sequence
  does not use \<^verbatim>\<open>update_block_state\<close> and its closures of \<^verbatim>\<open>update_ip\<close> leave the block state alone (\<open>store_op_ok\<close>),
  the list handed to the dataplane reconciliation is exactly the set of addresses whose
  record is not clean, and the reported blocked count is its size. All counters are modulo
  \<open>2 ^ 64\<close>, as they wrap.\<close>

theorem store_accounting:
  assumes "s = fold (store_step base) ops store_new"
  shows "ram_bytes s = (\<Sum>k\<in>dom (inner s). entry_size base (entry_value (the (inner s k)))) \<and>
    used_bytes (traffic s) = ram_bytes s \<and>
    ttl_entries s = of_nat (card {k. \<exists>e. inner s k = Some e \<and> expires_at e \<noteq> None}) \<and>
    (list_all store_op_ok ops \<longrightarrow>
       get_all_blocked_ips s = {k. \<exists>e. inner s k = Some e \<and> is_blocked (entry_value e)} \<and>
       stat_blocked (get_stats s) = of_nat (card (get_all_blocked_ips s)))"
proof -
  have sz: "sizes_inv base s" using store_sizes.inv_run [of ops base] assms by (simp add: list_all_iff)
  then have fin: "finite (dom (inner s))" by (simp add: sizes_inv_def)
  have "get_all_blocked_ips s = {k. \<exists>e. inner s k = Some e \<and> is_blocked (entry_value e)} \<and>
       stat_blocked (get_stats s) = of_nat (card (get_all_blocked_ips s))" if "list_all store_op_ok ops"
  proof -
    have "store_inv base s" using store_sys.inv_run [OF that] assms by simp
    then show ?thesis using val_sum_card [OF fin, of entry_blocked]
      by (simp add: store_inv_def get_all_blocked_ips_def get_stats_def keys_where_def entry_blocked_def)
  qed
  then show ?thesis
    using sz val_sum_card [OF fin, of "\<lambda>e. expires_at e \<noteq> None"]
    by (simp add: sizes_inv_def val_sum_def keys_where_def)
qed

definition demo_ops :: "store_op list" where
  "demo_ops =
     [OpInsert 0 (V4 1) (Counter 5) (Some 3) 1000,
      OpBlock 0 (V4 2) (zero_record (V4 2) 0 (Blocked HighRps 7)) 1000,
      OpUpdate 0 (V4 2) (zero_record (V4 2) 0 Clean) 1000 (\<lambda>r. r\<lparr>request_count := 9\<rparr>)]"

theorem store_accounting_witness:
  "(let s = fold (store_step 100) demo_ops store_new in
    used_bytes (traffic s) = ram_bytes s \<and> stat_blocked (get_stats s) = of_nat (card (get_all_blocked_ips s)))
   \<and> get_all_blocked_ips (fold (store_step 100) demo_ops store_new) = {V4 2}"
proof -
  have ok: "list_all store_op_ok demo_ops" by (simp add: demo_ops_def)
  have "blocked_set (fold (store_step 100) demo_ops store_new) = {V4 2}"
    by (simp add: demo_ops_def store_insert_def insert_vacant_def reserve_def checked_add_def
        instant_checked_add_def ns_per_sec_def entry_size_def store_new_def block_ip_def
        zero_record_def publish_new_def update_ip_def live_record_def is_expired_def Let_def)
  then show ?thesis
    using store_accounting [OF refl, of 100 demo_ops] ok by (metis get_all_blocked_ips_def)
qed

text \<open>C34: \<^verbatim>\<open>update_block_state\<close> leaves the blocked index behind. On a key that is vacant or holds a
  live clean record, when it succeeds in publishing a blocked state, every later read of the key
  sees the block, but the address is not in \<^verbatim>\<open>get_all_blocked_ips\<close>, which the dataplane
  reconciliation uses, and the blocked count is unchanged; unblocking the address then moves the
  count one below its starting value, wrapping to \<open>2 ^ 64 - 1\<close> from zero.\<close>

theorem update_block_state_unindexed:
  assumes inv: "store_inv base s"
    and fresh: "inner s key = None \<or>
      (\<exists>e r. inner s key = Some e \<and> live_record now e = Some r \<and> block_state r = Clean)"
    and ok: "update_block_state base now key (Blocked reason since) lim s = (Ok True, s')"
  shows "(\<exists>r. store_get now key s' = Some (IpRecordV r) \<and> block_state r = Blocked reason since) \<and>
    key \<notin> get_all_blocked_ips s' \<and>
    stat_blocked (get_stats s') = stat_blocked (get_stats s) \<and>
    stat_blocked (get_stats (snd (unblock_ip now key s'))) = stat_blocked (get_stats s) - 1"
proof (cases "inner s key")
  case None
  then have nb: "key \<notin> blocked_set s" using mem_blocked_set [OF inv] by simp
  from None ok obtain s1 where r: "reserve base lim s = Ok s1"
    by (simp add: update_block_state_def split: outcome.splits)
  define e' where "e' = \<lparr>entry_value = IpRecordV (zero_record key 0 (Blocked reason since)),
    expires_at = None\<rparr>"
  have s': "s' = inserts_fetch_add (used_fetch_add base (put_entry key e' s1))"
    using None ok r by (simp add: update_block_state_def e'_def)
  with nb r [unfolded reserve_Ok] show ?thesis
    by (simp add: store_get_def e'_def is_expired_def zero_record_def get_all_blocked_ips_def
        get_stats_def unblock_ip_def live_record_def Let_def)
next
  case (Some e)
  with fresh obtain r where r: "live_record now e = Some r" "block_state r = Clean" by auto
  then have nb: "key \<notin> blocked_set s"
    using Some mem_blocked_set [OF inv] by (simp add: live_record_Some entry_blocked_def)
  have s': "s' = put_entry key (e\<lparr>entry_value := IpRecordV (r\<lparr>block_state := Blocked reason since\<rparr>)\<rparr>) s"
    using Some r ok by (simp add: update_block_state_def)
  from r have ne: "\<not> is_expired now e" and "entry_value e = IpRecordV r"
    by (simp_all add: live_record_Some)
  then have "\<not> is_expired now (e\<lparr>entry_value := v\<rparr>)" for v
    by (simp add: is_expired_def)
  with nb s' show ?thesis
    by (simp add: store_get_def get_all_blocked_ips_def get_stats_def unblock_ip_def live_record_def
        Let_def)
qed

theorem update_block_state_unindexed_witness:
  "\<exists>s'. update_block_state 100 0 (V4 9) (Blocked HighRps 1) 1000 store_new = (Ok True, s') \<and>
        V4 9 \<notin> get_all_blocked_ips s' \<and>
        stat_blocked (get_stats (snd (unblock_ip 0 (V4 9) s'))) = 0xFFFFFFFFFFFFFFFF"
proof -
  obtain s' where s': "update_block_state 100 0 (V4 9) (Blocked HighRps 1) 1000 store_new = (Ok True, s')"
    by (simp add: update_block_state_def store_new_def reserve_def checked_add_def)
  have v: "inner store_new (V4 9) = None" by (simp add: store_new_def)
  show ?thesis
    using update_block_state_unindexed [OF store_inv_new disjI1 [OF v] s'] s'
    by (simp add: get_stats_def store_new_def)
qed

text \<open>C14: What a successful \<^verbatim>\<open>block_ip\<close> leaves behind. At every later instant the key reads as
  blocked with the fallback's reason and time; a live record keeps every statistic and changes only
  its block state, otherwise the fallback is published; the key is in the list for the dataplane;
  no other key changes; and a call that does not succeed changes nothing at all.\<close>

theorem block_ip_effect:
  assumes inv: "store_inv base s" and call: "block_ip base now key fallback lim s = (res, s')"
  shows "(res = Ok () \<longrightarrow>
      (\<exists>reason since. block_state fallback = Blocked reason since \<and>
         (\<forall>t. store_get t key s' =
            Some (IpRecordV (case store_get now key s of
                   Some (IpRecordV r) \<Rightarrow> r\<lparr>block_state := Blocked reason since\<rparr>
                 | _ \<Rightarrow> fallback)))) \<and>
      key \<in> get_all_blocked_ips s' \<and>
      (\<forall>k. k \<noteq> key \<longrightarrow> inner s' k = inner s k)) \<and>
    (res \<noteq> Ok () \<longrightarrow> s' = s)"
proof (cases "block_state fallback")
  case (Blocked reason since)
  have inv': "store_inv base s'" using block_ip_inv [OF inv] call by (metis snd_conv)
  show ?thesis
  proof (cases "inner s key")
    case None
    then show ?thesis
      using call Blocked mem_blocked_set [OF inv', of key]
      by (auto simp: block_ip_def publish_new_def reserve_Ok store_get_def is_expired_def
          get_all_blocked_ips_def entry_blocked_def split: outcome.splits)
  next
    case (Some e)
    show ?thesis
    proof (cases "live_record now e")
      case None
      have "store_get now key s = None \<or> (\<exists>v. store_get now key s = Some v \<and> (\<forall>r. v \<noteq> IpRecordV r))"
        using None Some by (auto simp: live_record_def store_get_def split: store_value.splits if_splits)
      then have g: "(case store_get now key s of Some (IpRecordV r) \<Rightarrow> x r | _ \<Rightarrow> fallback) = fallback" for x
        by (auto split: store_value.splits)
      have s': "s' = replace_dead base key e fallback True s" "res = Ok ()"
        using call Blocked Some None by (simp_all add: block_ip_def)
      then have i: "inner s' = (inner s)(key \<mapsto> \<lparr>entry_value = IpRecordV fallback, expires_at = None\<rparr>)"
        by (simp add: replace_dead_def Let_def)
      have "store_get t key s' = Some (IpRecordV fallback)" for t
        by (simp add: i store_get_def is_expired_def)
      then show ?thesis
        using mem_blocked_set [OF inv', of key] Blocked s'(2)
        by (simp add: g i get_all_blocked_ips_def entry_blocked_def)
    next
      case live: (Some r)
      then have g: "store_get now key s = Some (IpRecordV r)"
        using Some by (simp add: live_record_Some store_get_def)
      have r: "res = Ok ()" and i: "inner s' = (inner s)(key \<mapsto>
          \<lparr>entry_value = IpRecordV (r\<lparr>block_state := Blocked reason since\<rparr>), expires_at = None\<rparr>)"
        using call Blocked Some live by (auto simp: block_ip_def Let_def)
      have g': "store_get t key s' = Some (IpRecordV (r\<lparr>block_state := Blocked reason since\<rparr>))" for t
        by (simp add: i store_get_def is_expired_def)
      have "key \<in> get_all_blocked_ips s'"
        using mem_blocked_set [OF inv', of key] by (simp add: i get_all_blocked_ips_def entry_blocked_def)
      moreover have "\<forall>k. k \<noteq> key \<longrightarrow> inner s' k = inner s k" by (simp add: i)
      moreover have "\<forall>t. store_get t key s' = Some (IpRecordV (case store_get now key s of
          Some (IpRecordV r) \<Rightarrow> r\<lparr>block_state := Blocked reason since\<rparr> | _ \<Rightarrow> fallback))"
        unfolding g by (simp only: g' option.case store_value.case simp_thms)
      ultimately show ?thesis using Blocked r by blast
    qed
  qed
qed (use call in \<open>auto simp: block_ip_def\<close>)

theorem block_ip_effect_witness:
  "\<exists>s'. block_ip 100 0 (V4 9) (zero_record (V4 9) 0 (Blocked HighRps 1)) 1000 store_new = (Ok (), s') \<and>
        V4 9 \<in> get_all_blocked_ips s'"
proof -
  obtain s' where s': "block_ip 100 0 (V4 9) (zero_record (V4 9) 0 (Blocked HighRps 1)) 1000 store_new
      = (Ok (), s')"
    by (simp add: block_ip_def zero_record_def store_new_def reserve_def checked_add_def)
  with block_ip_effect [OF store_inv_new s'] show ?thesis by simp
qed

text \<open>What \<^verbatim>\<open>unblock_ip\<close> does. It reports true exactly when the key holds a live record; then
  the record keeps every statistic, reads as clean at every later instant and leaves the dataplane
  list; it never creates a record, and otherwise changes nothing.\<close>

theorem unblock_ip_effect:
  assumes inv: "store_inv base s" and call: "unblock_ip now key s = (res, s')"
  shows "(res \<longleftrightarrow> (\<exists>r. store_get now key s = Some (IpRecordV r))) \<and>
    (\<forall>r. store_get now key s = Some (IpRecordV r) \<longrightarrow>
       (\<forall>t. store_get t key s' = Some (IpRecordV (r\<lparr>block_state := Clean\<rparr>)))) \<and>
    (res \<longrightarrow> key \<notin> get_all_blocked_ips s') \<and>
    (\<not> res \<longrightarrow> s' = s) \<and> dom (inner s') = dom (inner s) \<and>
    (\<forall>k. k \<noteq> key \<longrightarrow> inner s' k = inner s k)"
proof (cases "\<exists>e r. inner s key = Some e \<and> live_record now e = Some r")
  case True
  then obtain e r where e: "inner s key = Some e" and r: "live_record now e = Some r" by blast
  have inv': "store_inv base s'" using unblock_ip_inv [OF inv] call by (metis snd_conv)
  have i: "inner s' = (inner s)(key \<mapsto>
      \<lparr>entry_value = IpRecordV (r\<lparr>block_state := Clean\<rparr>), expires_at = None\<rparr>)" and res
    using call e r by (auto simp: unblock_ip_def Let_def)
  have "store_get now key s = Some (IpRecordV r)"
    using e r by (simp add: store_get_def live_record_Some)
  moreover have "store_get t key s' = Some (IpRecordV (r\<lparr>block_state := Clean\<rparr>))" for t
    by (simp add: i store_get_def is_expired_def)
  moreover have "key \<notin> blocked_set s'"
    using mem_blocked_set [OF inv', of key] by (simp add: i entry_blocked_def)
  ultimately show ?thesis
    using e \<open>res\<close> by (auto simp: i get_all_blocked_ips_def)
next
  case False
  then have "store_get now key s \<noteq> Some (IpRecordV r)" for r
    by (auto simp: store_get_def live_record_Some split: option.splits)
  moreover have "\<not> res \<and> s' = s"
    using call False by (auto simp: unblock_ip_def split: option.splits)
  ultimately show ?thesis by simp
qed

theorem unblock_ip_effect_witness:
  "\<exists>s'. unblock_ip 0 (V4 9) (snd (block_ip 100 0 (V4 9) (zero_record (V4 9) 0 (Blocked HighRps 1)) 1000
          store_new)) = (True, s') \<and> V4 9 \<notin> get_all_blocked_ips s'"
proof -
  define s where "s = snd (block_ip 100 0 (V4 9) (zero_record (V4 9) 0 (Blocked HighRps 1)) 1000 store_new)"
  have inv: "store_inv 100 s" by (simp add: s_def block_ip_inv)
  obtain s' where s': "unblock_ip 0 (V4 9) s = (True, s')"
    by (simp add: s_def unblock_ip_def block_ip_def zero_record_def store_new_def reserve_def
        checked_add_def publish_new_def live_record_def is_expired_def Let_def)
  with unblock_ip_effect [OF inv s'] show ?thesis by (simp add: s_def)
qed

text \<open>C35: The capacity gate, with any time to live. An insertion panics exactly when the expiry overflows the clock
  or, under a new key, when the reserved total overflows. Otherwise inserting under a new key succeeds exactly when
  the reserved total does not exceed the limit, and then the RAM counter is within the limit, while replacing the value
  under an existing key always succeeds. After a success the key reads the value at every time up to its
  expiry and nothing later; a refusal or a panic leaves the store as it was.\<close>

theorem insert_capacity_gate:
  fixes total :: nat
  assumes call: "store_insert base now key v ttl lim s = (res, s')"
    and total: "total = unat (ram_bytes s) + unat (entry_size base v)"
    and over: "over \<longleftrightarrow> (\<exists>t. ttl = Some t \<and> instant_checked_add now (unat t) = None)"
  shows "(res = Panic \<longleftrightarrow> over \<or> inner s key = None \<and> 2 ^ 64 \<le> total) \<and>
    (res = Ok () \<longleftrightarrow> \<not> over \<and> (inner s key = None \<longrightarrow> total < 2 ^ 64 \<and> total \<le> unat lim)) \<and>
    (res = Ok () \<longrightarrow> inner s key = None \<longrightarrow> ram_bytes s' \<le> lim) \<and>
    (res = Ok () \<longrightarrow> (\<forall>at. store_get at key s' =
       (case ttl of None \<Rightarrow> Some v | Some t \<Rightarrow> if at \<le> now + unat t * ns_per_sec then Some v else None))) \<and>
    (res \<noteq> Ok () \<longrightarrow> s' = s)"
proof (cases over)
  case True
  then obtain t where "ttl = Some t" "instant_checked_add now (unat t) = None" using over by blast
  then show ?thesis using call True by (auto simp: store_insert_def)
next
  case False
  define x where "x = (case ttl of None \<Rightarrow> None | Some t \<Rightarrow> Some (now + unat t * ns_per_sec))"
  have x: "(case ttl of None \<Rightarrow> Some None | Some t \<Rightarrow> map_option Some (instant_checked_add now (unat t))) = Some x"
    using False over by (auto simp: x_def instant_checked_add_def Let_def split: option.splits if_splits)
  have get: "(if is_expired at \<lparr>entry_value = v, expires_at = x\<rparr> then None else Some v) =
      (case ttl of None \<Rightarrow> Some v | Some t \<Rightarrow> if at \<le> now + unat t * ns_per_sec then Some v else None)" for at
    by (simp add: is_expired_def x_def not_less split: option.split)
  show ?thesis
  proof (cases "inner s key")
    case (Some old)
    then have e: "res = Ok ()" "s' = insert_occupied base key old \<lparr>entry_value = v, expires_at = x\<rparr> s"
      using call by (simp_all add: store_insert_def x)
    have "store_get at key s' = (if is_expired at \<lparr>entry_value = v, expires_at = x\<rparr> then None else Some v)" for at
      unfolding e by (simp add: insert_occupied_def Let_def store_get_def)
    then show ?thesis using e(1) Some False get by simp
  next
    case None
    let ?n = "entry_size base v"
    have eq: "insert_vacant base key \<lparr>entry_value = v, expires_at = x\<rparr> lim s = (res, s')"
      using call by (simp add: store_insert_def x None)
    show ?thesis
    proof (cases "total < 2 ^ 64")
      case big: False
      then show ?thesis using eq None False total by (auto simp: insert_vacant_def reserve_def checked_add_def)
    next
      case fits: True
      then have u: "unat (ram_bytes s + ?n) = total" using total by (simp add: unat_add_small)
      show ?thesis
      proof (cases "ram_bytes s + ?n \<le> lim")
        case le: True
        then have "reserve ?n lim s = Ok (s\<lparr>ram_bytes := ram_bytes s + ?n\<rparr>)" using fits total by (simp add: reserve_Ok)
        then have e: "res = Ok ()" "inner s' key = Some \<lparr>entry_value = v, expires_at = x\<rparr>" "ram_bytes s' = ram_bytes s + ?n"
          using eq by (auto simp: insert_vacant_def Let_def)
        have "store_get at key s' = (if is_expired at \<lparr>entry_value = v, expires_at = x\<rparr> then None else Some v)" for at
          using e(2) by (simp add: store_get_def)
        then show ?thesis using e(1,3) None False fits le u get by (simp add: word_le_nat_alt)
      next
        case gt: False
        then have "reserve ?n lim s = Err (CapacityExceeded (lim div (1024 * 1024)))"
          using fits total by (simp add: reserve_def checked_add_def)
        then show ?thesis using eq None False fits gt u by (auto simp: insert_vacant_def word_le_nat_alt)
      qed
    qed
  qed
qed

theorem insert_capacity_gate_witness:
  "fst (store_insert 100 0 (V4 1) (Blob [1, 2]) (Some 3) 101 store_new) \<noteq> Ok () \<and>
   fst (store_insert 100 0 (V4 1) (Blob [1, 2]) (Some 3) 102 store_new) = Ok () \<and>
   fst (store_insert 100 0 (V4 1) (Blob [1, 2]) (Some (- 1)) 102 store_new) = Panic"
proof -
  have n: "inner store_new (V4 1) = None" "ram_bytes store_new = 0" "entry_size 100 (Blob [1, 2]) = 102"
    by (simp_all add: store_new_def entry_size_def)
  have t: "(\<exists>t. Some (3 :: u64) = Some t \<and> instant_checked_add 0 (unat t) = None) = False"
    "(\<exists>t. Some (- 1 :: u64) = Some t \<and> instant_checked_add 0 (unat t) = None) = True"
    by (simp_all add: instant_checked_add_def ns_per_sec_def Let_def unsigned_minus_1_eq_mask mask_eq_exp_minus_1)
  note gate = insert_capacity_gate [OF surjective_pairing refl refl, of 100 0 "V4 1" "Blob [1, 2]" _ _ store_new]
  show ?thesis
    using gate [of "Some 3" 101] gate [of "Some 3" 102] gate [of "Some (- 1)" 102] unfolding n t by simp
qed

lemma evict_one_inner:
  "inner (evict_one base now key s) =
     (\<lambda>k. if k = key then (case inner s k of Some e \<Rightarrow> if is_expired now e then None else Some e
                                             | None \<Rightarrow> None)
          else inner s k)"
  by (auto simp: evict_one_def drop_entry_fields split: option.split)

lemma evict_batch_inner:
  "inner (evict_batch base now keys s) =
     (\<lambda>k. case inner s k of Some e \<Rightarrow> if k \<in> set keys \<and> is_expired now e then None else Some e
                          | None \<Rightarrow> None)"
  unfolding evict_batch_def
proof (induction keys arbitrary: s)
  case Nil
  show ?case by (auto split: option.split)
next
  case (Cons key keys)
  show ?case
    by (simp add: Cons.IH evict_one_inner) (auto split: option.split)
qed

text \<open>C26: The janitor's sweep is exact. With the key list the iteration collects, \<^verbatim>\<open>evict_expired\<close>
  removes the expired entries and only those, returns their number, and changes no lookup; its
  constant-time exit when no entry carries a TTL is therefore sound (the store holding fewer than
  \<open>2 ^ 64\<close> entries).\<close>

theorem evict_expired_exact:
  assumes inv: "store_inv base s" and small: "card (dom (inner s)) < 2 ^ 64"
    and keys: "set keys = dom (inner s)"
    and call: "evict_expired base now keys s = (n, s')"
  shows "inner s' = inner s |` {k. \<exists>e. inner s k = Some e \<and> \<not> is_expired now e} \<and>
    n = card {k. \<exists>e. inner s k = Some e \<and> is_expired now e} \<and>
    (\<forall>k. store_get now k s' = store_get now k s)"
proof -
  have fin: "finite (dom (inner s))" using inv by (simp add: store_inv_def)
  let ?dead = "{k. \<exists>e. inner s k = Some e \<and> is_expired now e}"
  have sub: "?dead \<subseteq> dom (inner s)" by auto
  let ?live = "{k. \<exists>e. inner s k = Some e \<and> \<not> is_expired now e}"
  have both: "inner s' = inner s |` ?live \<and> n = card ?dead"
  proof (cases "ttl_entries s = 0")
    case True
    let ?ttl = "keys_where (\<lambda>e. expires_at e \<noteq> None) (inner s)"
    have "(of_nat (card ?ttl) :: u64) = 0"
      using store_inv_ttl [OF inv] True by simp
    moreover have "card ?ttl < 2 ^ 64"
      using card_mono [OF fin keys_where_dom] small by (rule le_less_trans)
    ultimately have "card ?ttl = 0"
      using unat_of_nat_small [of "card ?ttl", where 'a = 64] by simp
    then have "?ttl = {}" using finite_subset [OF keys_where_dom fin] by simp
    then have alive: "\<And>k e. inner s k = Some e \<Longrightarrow> \<not> is_expired now e"
      by (auto simp: keys_where_def is_expired_def split: option.splits)
    have stay: "n = 0" "s' = s" using call True by (auto simp: evict_expired_def)
    have "?dead = {}" using alive by auto
    then have "n = card ?dead" using stay(1) by (simp only: card.empty)
    moreover have "inner s k = (inner s |` ?live) k" for k
      using alive [of k] by (cases "inner s k") (simp_all add: restrict_map_def)
    then have "inner s' = inner s |` ?live" unfolding stay(2) by (rule ext)
    ultimately show ?thesis by blast
  next
    case False
    then have s': "s' = evict_batch base now keys s"
      and nn: "n = card (dom (inner s)) - card (dom (inner s'))"
      using call by (auto simp: evict_expired_def Let_def)
    have i: "inner s' = inner s |` ?live"
      by (auto simp: s' evict_batch_inner restrict_map_def keys fun_eq_iff split: option.splits)
    have "dom (inner s') = dom (inner s) - ?dead"
      unfolding i by (auto simp: restrict_map_def split: if_splits)
    then have "n = card ?dead"
      using nn card_Diff_subset [OF finite_subset [OF sub fin] sub] card_mono [OF fin sub] by simp
    with i show ?thesis by blast
  qed
  then have "store_get now k s' = store_get now k s" for k
    by (auto simp: store_get_def restrict_map_def split: option.splits)
  with both show ?thesis by blast
qed

theorem evict_expired_exact_witness:
  "fst (evict_expired 100 (5 * ns_per_sec) [V4 1, V4 2]
     (snd (store_insert 100 0 (V4 2) (Counter 1) None 1000
       (snd (store_insert 100 0 (V4 1) (Counter 5) (Some 3) 1000 store_new))))) = 1"
proof -
  define s1 where "s1 = snd (store_insert 100 0 (V4 1) (Counter 5) (Some 3) 1000 store_new)"
  define s where "s = snd (store_insert 100 0 (V4 2) (Counter 1) None 1000 s1)"
  have inv: "store_inv 100 s" by (simp add: s_def s1_def store_insert_inv)
  have i: "inner s = [V4 1 \<mapsto> \<lparr>entry_value = Counter 5, expires_at = Some (3 * ns_per_sec)\<rparr>,
      V4 2 \<mapsto> \<lparr>entry_value = Counter 1, expires_at = None\<rparr>]"
    by (simp add: s_def s1_def store_insert_def insert_vacant_def reserve_def checked_add_def
        instant_checked_add_def ns_per_sec_def entry_size_def store_new_def Let_def)
  have small: "card (dom (inner s)) < 2 ^ 64" and keys: "set [V4 1, V4 2] = dom (inner s)"
    by (auto simp: i)
  have "{k. \<exists>e. inner s k = Some e \<and> is_expired (5 * ns_per_sec) e} = {V4 1}"
    by (auto simp: i is_expired_def ns_per_sec_def split: if_splits)
  with evict_expired_exact [OF inv small keys surjective_pairing, of "5 * ns_per_sec"]
  show ?thesis by (simp add: s_def s1_def)
qed

end
