(* ===== verification/Expiry_Ring.thy ===== *)
theory Expiry_Ring
  imports Types
begin

text \<open>
  The TTL ring of the enforcement actor: \<^verbatim>\<open>crates/ramshield-enforcement/src/service/expiry.rs\<close>. An
  address with a lease sits in the bucket of the whole second at which its lease ends, and
  \<^verbatim>\<open>expirations\<close> remembers the bucket and the position inside it, so that a lease is replaced in
  constant time by a swap-remove.

  The theory models the two structures and the operations on them, proves the invariant that the
  source asserts in its tests (\<^verbatim>\<open>check_ring_invariant\<close>), and shows that the ring refines the plain
  map from address to bucket (interface \<open>lease_queue\<close>).

  Times are natural numbers of nanoseconds. A \<^verbatim>\<open>BTreeMap\<close> is a map with a finite domain; its first
  key is the minimum of the domain.
\<close>

section \<open>State and operations\<close>

record ring =
  expirations :: "ipaddr \<rightharpoonup> nat \<times> nat"
  buckets :: "nat \<rightharpoonup> ipaddr list"
  epoch :: instant

definition ring_new :: "instant \<Rightarrow> ring" where
  "ring_new t = \<lparr>expirations = Map.empty, buckets = Map.empty, epoch = t\<rparr>"

definition bucket_of :: "ring \<Rightarrow> instant \<Rightarrow> nat" where
  "bucket_of r at =
     (let d = at - epoch r in d div ns_per_sec + of_bool (d mod ns_per_sec > 0))"

text \<open>\<^verbatim>\<open>iter().position(..)\<close>: the index of the first occurrence.\<close>

fun position_of :: "'a \<Rightarrow> 'a list \<Rightarrow> nat option" where
  "position_of x [] = None"
| "position_of x (y # ys) = (if y = x then Some 0 else map_option Suc (position_of x ys))"

text \<open>The fix-up of the neighbour that the swap-remove moved to position \<open>p\<close>.\<close>

definition fix_moved :: "nat \<Rightarrow> ipaddr list \<Rightarrow> (ipaddr \<rightharpoonup> nat \<times> nat) \<Rightarrow> (ipaddr \<rightharpoonup> nat \<times> nat)" where
  "fix_moved p vec ex =
     (if p < length vec then
        (case ex (vec ! p) of
           None \<Rightarrow> ex
         | Some (b, _) \<Rightarrow> ex(vec ! p \<mapsto> (b, p)))
      else ex)"

definition put_bucket :: "nat \<Rightarrow> ipaddr list \<Rightarrow> (nat \<rightharpoonup> ipaddr list) \<Rightarrow> (nat \<rightharpoonup> ipaddr list)" where
  "put_bucket b vec bs = bs(b := (if vec = [] then None else Some vec))"

definition detach_expiration :: "ipaddr \<Rightarrow> ring \<Rightarrow> ring" where
  "detach_expiration ip r =
     (case expirations r ip of
        None \<Rightarrow> r
      | Some (b, pos) \<Rightarrow>
          let ex = (expirations r)(ip := None) in
          case buckets r b of
            None \<Rightarrow> r\<lparr>expirations := ex\<rparr>
          | Some vec \<Rightarrow>
              if pos < length vec then
                (case (if vec ! pos = ip then Some pos else position_of ip vec) of
                   Some p \<Rightarrow>
                     let vec' = swap_remove p vec
                     in r\<lparr>expirations := fix_moved p vec' ex, buckets := put_bucket b vec' (buckets r)\<rparr>
                 | None \<Rightarrow> r\<lparr>expirations := ex, buckets := put_bucket b vec (buckets r)\<rparr>)
              else r\<lparr>expirations := ex, buckets := put_bucket b vec (buckets r)\<rparr>)"

definition schedule_expiration :: "ipaddr \<Rightarrow> instant \<Rightarrow> ring \<Rightarrow> ring" where
  "schedule_expiration ip at r =
     (let r1 = detach_expiration ip r;
          b = bucket_of r1 at;
          vec = (case buckets r1 b of None \<Rightarrow> [] | Some v \<Rightarrow> v) @ [ip]
      in r1\<lparr>buckets := (buckets r1)(b \<mapsto> vec),
            expirations := (expirations r1)(ip \<mapsto> (b, length vec - 1))\<rparr>)"

text \<open>The loop at the head of \<^verbatim>\<open>expire_due\<close>: pop buckets from the front while their second has
  passed, dropping their addresses from the index and collecting them.\<close>

function drain_due :: "nat \<Rightarrow> ring \<Rightarrow> ipaddr list \<times> ring" where
  "drain_due now_ts r =
     (if infinite (dom (buckets r)) \<or> dom (buckets r) = {} then ([], r)
      else let b = Min (dom (buckets r)) in
           if now_ts < b then ([], r)
           else let vec = the (buckets r b);
                    r1 = r\<lparr>buckets := (buckets r)(b := None),
                           expirations := fold (\<lambda>ip ex. ex(ip := None)) vec (expirations r)\<rparr>;
                    (due, r2) = drain_due now_ts r1
                in (vec @ due, r2))"
  by pat_completeness auto
termination
proof (relation "measure (\<lambda>(t, r). card (dom (buckets r)))", goal_cases)
  case 1
  show ?case by simp
next
  case (2 now_ts r b vec r1)
  then have "Min (dom (buckets r)) \<in> dom (buckets r)" by (intro Min_in) auto
  with 2 show ?case
    by (simp add: card_gt_0_iff del: domIff)
qed

declare drain_due.simps [simp del]

text \<open>\<^verbatim>\<open>restore_expirations\<close>: re-arm the leases that recovery found, relative to \<open>now\<close>.\<close>

definition restore_expirations :: "instant \<Rightarrow> (ipaddr \<times> u64) list \<Rightarrow> ring \<Rightarrow> ring" where
  "restore_expirations now pairs r =
     fold (\<lambda>(ip, remaining) r.
             if remaining = 0 then r
             else schedule_expiration ip (now + unat remaining * ns_per_sec) r) pairs r"

section \<open>The ring invariant\<close>

text \<open>The index and the buckets describe the same positions, and no bucket is empty.\<close>

definition ring_inv :: "ring \<Rightarrow> bool" where
  "ring_inv r \<longleftrightarrow>
     finite (dom (buckets r)) \<and>
     (\<forall>b vec. buckets r b = Some vec \<longrightarrow> vec \<noteq> []) \<and>
     (\<forall>ip b pos. expirations r ip = Some (b, pos) \<longleftrightarrow>
        (\<exists>vec. buckets r b = Some vec \<and> pos < length vec \<and> vec ! pos = ip))"

lemma ring_invD:
  assumes "ring_inv r"
  shows "finite (dom (buckets r))"
    and "buckets r b = Some vec \<Longrightarrow> vec \<noteq> []"
    and "expirations r ip = Some (b, pos) \<longleftrightarrow>
      (\<exists>vec. buckets r b = Some vec \<and> pos < length vec \<and> vec ! pos = ip)"
  using assms by (auto simp: ring_inv_def)

lemma ring_inv_new [simp]: "ring_inv (ring_new t)"
  by (simp add: ring_inv_def ring_new_def)

lemma ring_inv_at:
  "ring_inv r \<Longrightarrow> buckets r b = Some vec \<Longrightarrow> i < length vec \<Longrightarrow> expirations r (vec ! i) = Some (b, i)"
  using ring_invD(3) by blast

lemma ring_inv_distinct:
  assumes "ring_inv r" "buckets r b = Some vec"
  shows "distinct vec"
  unfolding distinct_conv_nth
proof (intro allI impI)
  fix i j
  assume "i < length vec" "j < length vec" "i \<noteq> j"
  with ring_inv_at [OF assms, of i] ring_inv_at [OF assms, of j] show "vec ! i \<noteq> vec ! j" by auto
qed

lemma ring_inv_member:
  assumes "ring_inv r" "buckets r b = Some vec"
  shows "ip \<in> set vec \<longleftrightarrow> (\<exists>pos. expirations r ip = Some (b, pos))"
  using assms ring_invD(3) [OF assms(1)] by (auto simp: in_set_conv_nth)

subsection \<open>Detaching\<close>

lemma detach_present:
  assumes inv: "ring_inv r" and ip: "expirations r ip = Some (b, pos)" and vec: "buckets r b = Some vec"
  shows "expirations (detach_expiration ip r) =
      (if pos < length vec - 1 then (expirations r)(ip := None, last vec \<mapsto> (b, pos))
       else (expirations r)(ip := None)) \<and>
    buckets (detach_expiration ip r) = put_bucket b (swap_remove pos vec) (buckets r) \<and>
    epoch (detach_expiration ip r) = epoch r"
proof -
  from ring_invD(3) [OF inv, of ip b pos] ip vec have p: "pos < length vec" "vec ! pos = ip" by auto
  then have ne: "vec \<noteq> []" by auto
  have "fix_moved pos (swap_remove pos vec) ((expirations r)(ip := None)) =
      (if pos < length vec - 1 then (expirations r)(ip := None, last vec \<mapsto> (b, pos))
       else (expirations r)(ip := None))"
  proof (cases "pos < length vec - 1")
    case True
    have "last vec = vec ! (length vec - 1)" using ne by (simp add: last_conv_nth)
    then have l: "expirations r (last vec) = Some (b, length vec - 1)"
      using ring_inv_at [OF inv vec, of "length vec - 1"] ne by simp
    with ip True have "last vec \<noteq> ip" by auto
    with True l p(1) ne show ?thesis
      by (simp add: fix_moved_def length_swap_remove nth_swap_remove)
  next
    case False
    then show ?thesis using ne by (simp add: fix_moved_def length_swap_remove)
  qed
  then show ?thesis
    using ip vec p by (simp add: detach_expiration_def Let_def)
qed

lemma detach_absent: "expirations r ip = None \<Longrightarrow> detach_expiration ip r = r"
  by (simp add: detach_expiration_def)

lemma detach_inv:
  assumes inv: "ring_inv r"
  shows "ring_inv (detach_expiration ip r)"
proof (cases "expirations r ip")
  case None
  then show ?thesis using inv by (simp add: detach_absent)
next
  case (Some bp)
  obtain b pos where bp: "bp = (b, pos)" by (cases bp)
  from ring_invD(3) [OF inv, of ip b pos] Some bp obtain vec
    where vec: "buckets r b = Some vec" and p: "pos < length vec" "vec ! pos = ip" by auto
  define vec' where "vec' = swap_remove pos vec"
  define n where "n = length vec - 1"
  have ne: "vec \<noteq> []" using p by auto
  have ln: "length vec = Suc n" using ne by (simp add: n_def)
  have lst: "last vec = vec ! n" using ne by (simp add: last_conv_nth n_def)
  have len': "length vec' = n" and nth': "\<And>i. i < n \<Longrightarrow> vec' ! i = (if i = pos then vec ! n else vec ! i)"
    using ne p lst by (simp_all add: vec'_def n_def length_swap_remove nth_swap_remove)
  note d = detach_present [OF inv Some [unfolded bp] vec]
  have ex: "expirations (detach_expiration ip r) =
      (if pos < n then (expirations r)(ip := None, vec ! n \<mapsto> (b, pos)) else (expirations r)(ip := None))"
    using d by (simp add: n_def lst [unfolded n_def])
  have bu: "buckets (detach_expiration ip r) = put_bucket b vec' (buckets r)"
    using d by (simp add: vec'_def)
  have at: "\<And>i. i < Suc n \<Longrightarrow> expirations r (vec ! i) = Some (b, i)"
    using ring_inv_at [OF inv vec] ln by simp
  have inj: "\<And>i j. i < Suc n \<Longrightarrow> j < Suc n \<Longrightarrow> vec ! i = vec ! j \<Longrightarrow> i = j"
    using ring_inv_distinct [OF inv vec] ln by (simp add: nth_eq_iff_index_eq)
  have "expirations (detach_expiration ip r) ip' = Some (b', pos') \<longleftrightarrow>
      (\<exists>v. put_bucket b vec' (buckets r) b' = Some v \<and> pos' < length v \<and> v ! pos' = ip')"
    for ip' b' pos'
  proof (cases "b' = b")
    case False
    then have "expirations (detach_expiration ip r) ip' = Some (b', pos') \<longleftrightarrow>
        expirations r ip' = Some (b', pos')"
      unfolding ex using Some [unfolded bp] at [of n] by auto
    then show ?thesis
      using False ring_invD(3) [OF inv, of ip' b' pos'] by (simp add: put_bucket_def)
  next
    case True
    have old: "expirations r ip' = Some (b, pos') \<longleftrightarrow> pos' < Suc n \<and> vec ! pos' = ip'"
      using ring_invD(3) [OF inv, of ip' b pos'] vec ln by auto
    have "expirations (detach_expiration ip r) ip' = Some (b, pos') \<longleftrightarrow> pos' < n \<and> vec' ! pos' = ip'"
    proof (cases "pos' < n \<and> pos' \<noteq> pos")
      case True
      then have "vec' ! pos' = vec ! pos'" "vec ! pos' \<noteq> vec ! n" "vec ! pos' \<noteq> ip"
        using nth' [of pos'] inj [of pos' n] inj [of pos' pos] p ln by auto
      then show ?thesis using True old unfolding ex by (auto simp: fun_upd_def)
    next
      case other: False
      show ?thesis
      proof (cases "pos' = pos \<and> pos < n")
        case True
        then have v: "vec' ! pos' = vec ! n" using nth' [of pos] by simp
        have "ip' \<noteq> ip \<Longrightarrow> expirations r ip' \<noteq> Some (b, pos')" using old True p by auto
        then show ?thesis using True v unfolding ex by (auto simp: fun_upd_def)
      next
        case False
        then have ge: "\<not> pos' < n" using other by auto
        have "expirations (detach_expiration ip r) ip' \<noteq> Some (b, pos')"
          using old ge False p ln unfolding ex by (auto simp: fun_upd_def less_Suc_eq)
        then show ?thesis using ge by blast
      qed
    qed
    then show ?thesis using True len' by (auto simp: put_bucket_def)
  qed
  moreover have "finite (dom (put_bucket b vec' (buckets r)))"
    using ring_invD(1) [OF inv] by (simp add: put_bucket_def)
  moreover have "put_bucket b vec' (buckets r) b' = Some v \<Longrightarrow> v \<noteq> []" for b' v
    using ring_invD(2) [OF inv] by (auto simp: put_bucket_def split: if_splits)
  ultimately show ?thesis unfolding ring_inv_def bu by blast
qed

section \<open>The ring as a map from address to bucket\<close>

definition lease :: "ring \<Rightarrow> ipaddr \<rightharpoonup> nat" where
  "lease r = (\<lambda>ip. map_option fst (expirations r ip))"

lemma lease_new [simp]: "lease (ring_new t) = Map.empty"
  by (simp add: lease_def ring_new_def)

lemma detach_lease:
  assumes inv: "ring_inv r"
  shows "lease (detach_expiration ip r) = (lease r)(ip := None)"
proof (cases "expirations r ip")
  case None
  then show ?thesis by (auto simp: detach_absent lease_def)
next
  case (Some bp)
  obtain b pos where bp: "bp = (b, pos)" by (cases bp)
  from ring_invD(3) [OF inv, of ip b pos] Some bp obtain vec
    where vec: "buckets r b = Some vec" and p: "pos < length vec" "vec ! pos = ip" by auto
  have "expirations r (last vec) = Some (b, length vec - 1)"
    using ring_inv_at [OF inv vec, of "length vec - 1"] p by (cases vec rule: rev_cases) simp_all
  moreover from this have "pos < length vec - 1 \<Longrightarrow> last vec \<noteq> ip" using Some bp by auto
  ultimately show ?thesis
    using detach_present [OF inv Some [unfolded bp] vec] by (auto simp: lease_def)
qed

lemma detach_epoch [simp]: "epoch (detach_expiration ip r) = epoch r"
  by (simp add: detach_expiration_def Let_def split: option.split prod.split)

lemma detach_none: "ring_inv r \<Longrightarrow> expirations (detach_expiration ip r) ip = None"
  using detach_lease [of r ip] by (metis fun_upd_same lease_def option.map_disc_iff)

lemma append_inv:
  assumes inv: "ring_inv r" and fresh: "expirations r ip = None"
    and vec: "vec = (case buckets r b of None \<Rightarrow> [] | Some v \<Rightarrow> v)"
  shows "ring_inv (r\<lparr>buckets := (buckets r)(b \<mapsto> vec @ [ip]),
                     expirations := (expirations r)(ip \<mapsto> (b, length vec))\<rparr>)"
proof -
  have "((expirations r)(ip \<mapsto> (b, length vec))) ip' = Some (b', pos') \<longleftrightarrow>
      (\<exists>v. ((buckets r)(b \<mapsto> vec @ [ip])) b' = Some v \<and> pos' < length v \<and> v ! pos' = ip')"
    for ip' b' pos'
  proof (cases "b' = b")
    case True
    have old: "expirations r x = Some (b, pos') \<longleftrightarrow> pos' < length vec \<and> vec ! pos' = x" for x
      using ring_invD(3) [OF inv, of x b pos'] vec by (cases "buckets r b") auto
    from old [of ip] fresh have "pos' < length vec \<Longrightarrow> vec ! pos' \<noteq> ip" by auto
    then show ?thesis
      using True old [of ip'] by (auto simp: nth_append less_Suc_eq)
  next
    case False
    then have "ip' = ip \<Longrightarrow> \<not> (\<exists>v. buckets r b' = Some v \<and> pos' < length v \<and> v ! pos' = ip')"
      using fresh ring_invD(3) [OF inv, of ip b' pos'] by auto
    then show ?thesis
      using False ring_invD(3) [OF inv, of ip' b' pos'] by auto
  qed
  moreover have "finite (dom ((buckets r)(b \<mapsto> vec @ [ip])))"
    using ring_invD(1) [OF inv] by simp
  moreover have "((buckets r)(b \<mapsto> vec @ [ip])) b' = Some v \<Longrightarrow> v \<noteq> []" for b' v
    using ring_invD(2) [OF inv] by (auto split: if_splits)
  ultimately show ?thesis by (simp add: ring_inv_def del: fun_upd_apply) 
qed

lemma schedule_inv:
  assumes "ring_inv r"
  shows "ring_inv (schedule_expiration ip at r)"
  using append_inv [OF detach_inv [OF assms] detach_none [OF assms] refl, of ip "bucket_of (detach_expiration ip r) at"]
  by (simp add: schedule_expiration_def Let_def)

lemma schedule_lease:
  assumes "ring_inv r"
  shows "lease (schedule_expiration ip at r) = (lease r)(ip \<mapsto> bucket_of r at)"
  using detach_lease [OF assms, of ip]
  by (auto simp: schedule_expiration_def Let_def lease_def bucket_of_def fun_eq_iff split: if_splits)

lemma schedule_epoch [simp]: "epoch (schedule_expiration ip at r) = epoch r"
  by (simp add: schedule_expiration_def Let_def)

subsection \<open>Draining\<close>

lemma fold_delete: "fold (\<lambda>k m. m(k := None)) ks m = (\<lambda>x. if x \<in> set ks then None else m x)"
  by (induction ks arbitrary: m) auto

definition pop_bucket :: "nat \<Rightarrow> ring \<Rightarrow> ring" where
  "pop_bucket b r =
     r\<lparr>buckets := (buckets r)(b := None),
       expirations := fold (\<lambda>ip ex. ex(ip := None)) (the (buckets r b)) (expirations r)\<rparr>"

lemma pop_bucket_inv:
  assumes inv: "ring_inv r" and vec: "buckets r b = Some vec"
  shows "ring_inv (pop_bucket b r)"
    and "lease (pop_bucket b r) = (\<lambda>ip. if lease r ip = Some b then None else lease r ip)"
    and "set vec = {ip. lease r ip = Some b}"
proof -
  show mem: "set vec = {ip. lease r ip = Some b}"
    using ring_inv_member [OF inv vec] by (auto simp: lease_def)
  have ex: "expirations (pop_bucket b r) = (\<lambda>ip. if ip \<in> set vec then None else expirations r ip)"
    by (simp add: pop_bucket_def vec fold_delete)
  then show "lease (pop_bucket b r) = (\<lambda>ip. if lease r ip = Some b then None else lease r ip)"
    unfolding mem by (auto simp: lease_def)
  have "(if ip \<in> set vec then None else expirations r ip) = Some (b', pos) \<longleftrightarrow>
      (\<exists>v. ((buckets r)(b := None)) b' = Some v \<and> pos < length v \<and> v ! pos = ip)" for ip b' pos
    using ring_invD(3) [OF inv, of ip b' pos] ring_inv_member [OF inv vec, of ip] by auto
  moreover have "finite (dom ((buckets r)(b := None)))" using ring_invD(1) [OF inv] by simp
  ultimately show "ring_inv (pop_bucket b r)"
    using ring_invD(2) [OF inv] unfolding ring_inv_def ex by (simp add: pop_bucket_def)
qed

lemma drain_unfold:
  "drain_due now r =
     (if infinite (dom (buckets r)) \<or> dom (buckets r) = {} then ([], r)
      else let b = Min (dom (buckets r)) in
           if now < b then ([], r)
           else (the (buckets r b) @ fst (drain_due now (pop_bucket b r)), snd (drain_due now (pop_bucket b r))))"
  by (subst drain_due.simps) (simp add: pop_bucket_def Let_def case_prod_unfold)

lemma lease_bucket:
  assumes "ring_inv r" "lease r ip = Some b"
  shows "b \<in> dom (buckets r)"
  using assms ring_invD(3) [OF assms(1)] by (fastforce simp: lease_def)

lemma drain_spec:
  assumes "ring_inv r"
  shows "ring_inv (snd (drain_due now r)) \<and> epoch (snd (drain_due now r)) = epoch r \<and>
    distinct (fst (drain_due now r)) \<and>
    set (fst (drain_due now r)) = {ip. \<exists>b. lease r ip = Some b \<and> b \<le> now} \<and>
    lease (snd (drain_due now r)) = (\<lambda>ip. case lease r ip of None \<Rightarrow> None
                                     | Some b \<Rightarrow> if b \<le> now then None else Some b)"
  using assms
proof (induction "card (dom (buckets r))" arbitrary: r rule: less_induct)
  case less
  have fin: "finite (dom (buckets r))" by (rule ring_invD(1) [OF less.prems])
  define b where "b = Min (dom (buckets r))"
  show ?case
  proof (cases "dom (buckets r) = {} \<or> now < b")
    case True
    have late: "now < b'" if "lease r ip = Some b'" for ip b'
    proof -
      have "b' \<in> dom (buckets r)" by (rule lease_bucket [OF less.prems that])
      then have "b \<le> b'" "dom (buckets r) \<noteq> {}" unfolding b_def using fin by (blast intro: Min_le)+
      then show ?thesis using True by auto
    qed
    have "drain_due now r = ([], r)"
      using True fin by (subst drain_unfold) (auto simp: b_def)
    moreover have "{ip. \<exists>b. lease r ip = Some b \<and> b \<le> now} = {}"
      using late by fastforce
    moreover have "lease r ip = (case lease r ip of None \<Rightarrow> None | Some b \<Rightarrow> if b \<le> now then None else Some b)"
      for ip
      using late [of ip] by (cases "lease r ip") (simp_all add: not_le)
    then have "lease r = (\<lambda>ip. case lease r ip of None \<Rightarrow> None | Some b \<Rightarrow> if b \<le> now then None else Some b)"
      by (rule ext)
    ultimately show ?thesis using less.prems by (simp only: fst_conv snd_conv set_simps distinct.simps simp_thms)
  next
    case False
    then have b: "b \<in> dom (buckets r)" "b \<le> now" using fin by (auto simp: b_def)
    then obtain vec where vec: "buckets r b = Some vec" by auto
    note pop = pop_bucket_inv [OF less.prems vec]
    have "dom (buckets (pop_bucket b r)) = dom (buckets r) - {b}" by (simp add: pop_bucket_def)
    then have "card (dom (buckets (pop_bucket b r))) < card (dom (buckets r))"
      using fin b(1) by (metis card_Diff1_less)
    note IH = less.hyps [OF this pop(1)]
    have eq: "drain_due now r =
        (vec @ fst (drain_due now (pop_bucket b r)), snd (drain_due now (pop_bucket b r)))"
      using False fin vec b_def by (subst drain_unfold) (simp add: Let_def)
    have ep: "epoch (pop_bucket b r) = epoch r" by (simp add: pop_bucket_def)
    have "distinct vec" by (rule ring_inv_distinct [OF less.prems vec])
    moreover have "set vec \<inter> set (fst (drain_due now (pop_bucket b r))) = {}"
      using IH pop(2,3) by auto
    moreover have "set vec \<union> set (fst (drain_due now (pop_bucket b r))) =
        {ip. \<exists>b. lease r ip = Some b \<and> b \<le> now}"
      using IH pop(2,3) b(2) by auto
    moreover have "(\<lambda>ip. case lease (pop_bucket b r) ip of None \<Rightarrow> None
          | Some b \<Rightarrow> if b \<le> now then None else Some b) =
        (\<lambda>ip. case lease r ip of None \<Rightarrow> None | Some b \<Rightarrow> if b \<le> now then None else Some b)"
      using pop(2) b(2) by (auto split: option.split)
    ultimately show ?thesis using IH eq ep by simp
  qed
qed

section \<open>The interface to the enforcement actor\<close>

text \<open>
  What the actor relies on: a queue of leases behaves as a map from key to the second of its
  lease, and draining yields every lease that has ended, once. \<open>run\<close> is the abstract map after a
  sequence of requests.
\<close>

datatype 'k lease_op = Schedule 'k instant | Detach 'k | Drain nat

locale lease_queue =
  fixes detach :: "'k \<Rightarrow> 'q \<Rightarrow> 'q"
    and schedule :: "'k \<Rightarrow> instant \<Rightarrow> 'q \<Rightarrow> 'q"
    and drain :: "nat \<Rightarrow> 'q \<Rightarrow> 'k list \<times> 'q"
    and inv :: "'q \<Rightarrow> bool"
    and abs :: "'q \<Rightarrow> 'k \<rightharpoonup> nat"
    and tick :: "instant \<Rightarrow> nat"
  assumes detach_ok: "inv q \<Longrightarrow> inv (detach k q) \<and> abs (detach k q) = (abs q)(k := None)"
    and schedule_ok: "inv q \<Longrightarrow> inv (schedule k at q) \<and> abs (schedule k at q) = (abs q)(k \<mapsto> tick at)"
    and drain_ok: "inv q \<Longrightarrow> inv (snd (drain now q)) \<and> distinct (fst (drain now q)) \<and>
      set (fst (drain now q)) = {k. \<exists>b. abs q k = Some b \<and> b \<le> now} \<and>
      abs (snd (drain now q)) = (\<lambda>k. case abs q k of None \<Rightarrow> None | Some b \<Rightarrow> if b \<le> now then None else Some b)"
begin

fun step :: "'k lease_op \<Rightarrow> 'q \<Rightarrow> 'q" where
  "step (Schedule k at) q = schedule k at q"
| "step (Detach k) q = detach k q"
| "step (Drain now) q = snd (drain now q)"

fun spec :: "'k lease_op \<Rightarrow> ('k \<rightharpoonup> instant) \<Rightarrow> ('k \<rightharpoonup> instant)" where
  "spec (Schedule k at) m = m(k \<mapsto> at)"
| "spec (Detach k) m = m(k := None)"
| "spec (Drain now) m = (\<lambda>k. case m k of None \<Rightarrow> None | Some at \<Rightarrow> if tick at \<le> now then None else Some at)"

lemma step_refines:
  assumes "inv q" "abs q = (\<lambda>k. map_option tick (m k))"
  shows "inv (step op q) \<and> abs (step op q) = (\<lambda>k. map_option tick (spec op m k))"
  using assms detach_ok [OF assms(1)] schedule_ok [OF assms(1)] drain_ok [OF assms(1)]
  by (cases op) (auto split: option.split)

lemma run_refines:
  assumes "inv q" "abs q = (\<lambda>k. map_option tick (m k))"
  shows "inv (fold step ops q) \<and> abs (fold step ops q) = (\<lambda>k. map_option tick (fold spec ops m k))"
  using assms by (induction ops arbitrary: q m) (simp_all add: step_refines)

lemma drained:
  assumes "inv q" "abs q = (\<lambda>k. map_option tick (m k))"
  shows "distinct (fst (drain now (fold step ops q))) \<and>
    set (fst (drain now (fold step ops q))) = {k. \<exists>at. fold spec ops m k = Some at \<and> tick at \<le> now}"
  using run_refines [OF assms, of ops] drain_ok [of "fold step ops q" now] by auto

end

definition ring_ok :: "instant \<Rightarrow> ring \<Rightarrow> bool" where
  "ring_ok t r \<longleftrightarrow> ring_inv r \<and> epoch r = t"

definition second_of :: "instant \<Rightarrow> instant \<Rightarrow> nat" where
  "second_of t at = bucket_of (ring_new t) at"

interpretation ring_queue: lease_queue detach_expiration schedule_expiration drain_due
  "ring_ok t" lease "second_of t" for t
proof
  fix q k at now
  assume "ring_ok t q"
  then have q: "ring_inv q" "epoch q = t" by (simp_all add: ring_ok_def)
  have "bucket_of q at = second_of t at"
    using q(2) by (simp add: second_of_def bucket_of_def ring_new_def)
  then show "ring_ok t (schedule_expiration k at q) \<and>
      lease (schedule_expiration k at q) = (lease q)(k \<mapsto> second_of t at)"
    using q by (simp add: ring_ok_def schedule_inv schedule_lease)
  show "ring_ok t (detach_expiration k q) \<and> lease (detach_expiration k q) = (lease q)(k := None)"
    using q by (simp add: ring_ok_def detach_inv detach_lease)
  show "ring_ok t (snd (drain_due now q)) \<and> distinct (fst (drain_due now q)) \<and>
      set (fst (drain_due now q)) = {k. \<exists>b. lease q k = Some b \<and> b \<le> now} \<and>
      lease (snd (drain_due now q)) = (\<lambda>k. case lease q k of None \<Rightarrow> None
        | Some b \<Rightarrow> if b \<le> now then None else Some b)"
    using drain_spec [OF q(1), of now] q(2) by (simp add: ring_ok_def)
qed

section \<open>Properties\<close>

text \<open>The requests on the ring and on the plain map of deadlines.\<close>

fun ring_step :: "ipaddr lease_op \<Rightarrow> ring \<Rightarrow> ring" where
  "ring_step (Schedule ip at) r = schedule_expiration ip at r"
| "ring_step (Detach ip) r = detach_expiration ip r"
| "ring_step (Drain now_ts) r = snd (drain_due now_ts r)"

text \<open>A deadline has passed at \<open>now_ts\<close> whole seconds after the start \<open>t\<close>.\<close>

definition due_at :: "instant \<Rightarrow> nat \<Rightarrow> instant \<Rightarrow> bool" where
  "due_at t now_ts at \<longleftrightarrow> at \<le> t + now_ts * ns_per_sec"

fun deadline_step :: "instant \<Rightarrow> ipaddr lease_op \<Rightarrow> (ipaddr \<rightharpoonup> instant) \<Rightarrow> (ipaddr \<rightharpoonup> instant)" where
  "deadline_step t (Schedule ip at) m = m(ip \<mapsto> at)"
| "deadline_step t (Detach ip) m = m(ip := None)"
| "deadline_step t (Drain now_ts) m =
     (\<lambda>ip. case m ip of None \<Rightarrow> None | Some at \<Rightarrow> if due_at t now_ts at then None else Some at)"

lemma ceil_div_le:
  fixes d k n :: nat
  assumes "0 < k"
  shows "d div k + of_bool (d mod k > 0) \<le> n \<longleftrightarrow> d \<le> n * k"
proof -
  define q r where "q = d div k" and "r = d mod k"
  have d: "d = q * k + r" and r: "r < k" using assms by (simp_all add: q_def r_def)
  have "q + of_bool (r > 0) \<le> n \<longleftrightarrow> q * k + r \<le> n * k"
  proof (cases "r = 0")
    case True
    then show ?thesis using assms by simp
  next
    case False
    have "Suc q \<le> n \<longleftrightarrow> q * k + r \<le> n * k"
    proof
      assume "Suc q \<le> n"
      then have "Suc q * k \<le> n * k" by (rule mult_le_mono1)
      with r show "q * k + r \<le> n * k" by simp
    next
      assume "q * k + r \<le> n * k"
      with False have "q * k < n * k" by linarith
      then show "Suc q \<le> n" by simp
    qed
    then show ?thesis using False by simp
  qed
  then show ?thesis unfolding q_def [symmetric] r_def [symmetric] by (simp only: d [symmetric])
qed

lemma bucket_due: "second_of t at \<le> now \<longleftrightarrow> due_at t now at"
proof -
  have "0 < ns_per_sec" by (simp add: ns_per_sec_def)
  then have "second_of t at \<le> now \<longleftrightarrow> at - t \<le> now * ns_per_sec"
    unfolding second_of_def bucket_of_def Let_def by (simp only: ceil_div_le ring_new_def ring.simps)
  then show ?thesis by (auto simp: due_at_def)
qed

lemma ring_step_eq: "ring_step = ring_queue.step"
proof (intro ext)
  fix op r
  show "ring_step op r = ring_queue.step op r" by (cases op) simp_all
qed

lemma deadline_step_eq: "deadline_step t = ring_queue.spec t"
proof (intro ext)
  fix op m ip
  show "deadline_step t op m ip = ring_queue.spec t op m ip"
    by (cases op) (simp_all add: bucket_due split: option.split)
qed

lemma ring_run:
  "ring_ok t (fold ring_step ops (ring_new t)) \<and>
   lease (fold ring_step ops (ring_new t)) =
     (\<lambda>ip. map_option (second_of t) (fold (deadline_step t) ops Map.empty ip))"
  unfolding ring_step_eq deadline_step_eq
  by (rule ring_queue.run_refines) (simp_all add: ring_ok_def, simp add: ring_new_def)

text \<open>C7: The TTL ring refines the map of deadlines. After any sequence of schedules, refreshes,
  detaches and drains, one more drain at \<open>now_ts\<close> whole seconds after the start returns exactly the
  addresses whose current deadline has passed, each once: never an address whose deadline lies
  ahead, and never a stale deadline that was refreshed or withdrawn.\<close>

theorem expire_due_exact:
  "distinct (fst (drain_due now_ts (fold ring_step ops (ring_new t)))) \<and>
   set (fst (drain_due now_ts (fold ring_step ops (ring_new t)))) =
     {ip. \<exists>at. fold (deadline_step t) ops Map.empty ip = Some at \<and> at \<le> t + now_ts * ns_per_sec}"
  using ring_run [of t ops] ring_queue.drain_ok [of t "fold ring_step ops (ring_new t)" now_ts]
  by (auto simp: bucket_due due_at_def)

text \<open>The consistency assertion of the tests (\<^verbatim>\<open>check_ring_invariant\<close>) holds after every
  sequence of requests: each indexed address is found at its recorded position, and the index has
  as many entries as the buckets together.\<close>

theorem check_ring_invariant_holds:
  assumes "r = fold ring_step ops (ring_new t)"
  shows "(\<forall>ip b pos. expirations r ip = Some (b, pos) \<longrightarrow>
      (\<exists>vec. buckets r b = Some vec \<and> pos < length vec \<and> vec ! pos = ip)) \<and>
    card (dom (expirations r)) = (\<Sum>b\<in>dom (buckets r). length (the (buckets r b)))"
proof -
  have inv: "ring_inv r" using ring_run [of t ops] assms by (simp add: ring_ok_def)
  have mem: "ip \<in> set (the (buckets r b)) \<longleftrightarrow> (\<exists>pos. expirations r ip = Some (b, pos))"
    if "b \<in> dom (buckets r)" for ip b
    using ring_inv_member [OF inv] that by auto
  have "dom (expirations r) = (\<Union>b\<in>dom (buckets r). set (the (buckets r b)))"
  proof (intro set_eqI iffI)
    fix ip
    assume "ip \<in> dom (expirations r)"
    then obtain b pos where ip: "expirations r ip = Some (b, pos)" by auto
    then have b: "b \<in> dom (buckets r)" using ring_invD(3) [OF inv] by blast
    with mem [OF b, of ip] ip show "ip \<in> (\<Union>b\<in>dom (buckets r). set (the (buckets r b)))" by blast
  next
    fix ip
    assume "ip \<in> (\<Union>b\<in>dom (buckets r). set (the (buckets r b)))"
    then show "ip \<in> dom (expirations r)" using mem by blast
  qed
  moreover have "card (\<Union>b\<in>dom (buckets r). set (the (buckets r b))) =
      (\<Sum>b\<in>dom (buckets r). card (set (the (buckets r b))))"
  proof (rule card_UN_disjoint)
    show "finite (dom (buckets r))" by (rule ring_invD(1) [OF inv])
    show "\<forall>b\<in>dom (buckets r). finite (set (the (buckets r b)))" by simp
    show "\<forall>b\<in>dom (buckets r). \<forall>c\<in>dom (buckets r). b \<noteq> c \<longrightarrow>
        set (the (buckets r b)) \<inter> set (the (buckets r c)) = {}"
    proof (intro ballI impI)
      fix b c
      assume b: "b \<in> dom (buckets r)" and c: "c \<in> dom (buckets r)" and "b \<noteq> c"
      then show "set (the (buckets r b)) \<inter> set (the (buckets r c)) = {}"
        using mem [OF b] mem [OF c] by (auto simp: set_eq_iff)
    qed
  qed
  moreover have "(\<Sum>b\<in>dom (buckets r). card (set (the (buckets r b)))) =
      (\<Sum>b\<in>dom (buckets r). length (the (buckets r b)))"
  proof (rule sum.cong [OF refl])
    fix b
    assume "b \<in> dom (buckets r)"
    then show "card (set (the (buckets r b))) = length (the (buckets r b))"
      using ring_inv_distinct [OF inv, of b] by (auto simp: distinct_card)
  qed
  ultimately have "card (dom (expirations r)) = (\<Sum>b\<in>dom (buckets r). length (the (buckets r b)))"
    by (simp only:)
  then show ?thesis using ring_invD(3) [OF inv] by blast
qed

theorem check_ring_invariant_holds_witness:
  "card (dom (expirations (fold ring_step [Schedule (V4 1) 5, Schedule (V4 2) 6, Schedule (V4 1) 7,
     Detach (V4 2)] (ring_new 0)))) = 1"
proof -
  let ?r = "fold ring_step [Schedule (V4 1) 5, Schedule (V4 2) 6, Schedule (V4 1) 7, Detach (V4 2)] (ring_new 0)"
  have "buckets ?r = [1 \<mapsto> [V4 1]]"
    by (simp add: schedule_expiration_def detach_expiration_def ring_new_def bucket_of_def
        ns_per_sec_def Let_def swap_remove_def fix_moved_def put_bucket_def)
  with check_ring_invariant_holds [OF refl, of "[Schedule (V4 1) 5, Schedule (V4 2) 6,
      Schedule (V4 1) 7, Detach (V4 2)]" 0]
  show ?thesis by simp
qed

end
