(* ===== verification/Hlc.thy ===== *)
theory Hlc
  imports Types "HOL-Library.Product_Lexorder"
begin

text \<open>
  The hybrid logical clock of the mesh: \<^verbatim>\<open>crates/ramshield-mesh/src/hlc.rs\<close>. The mutex makes a tick
  one atomic step on the pair of physical milliseconds and logical counter; the wall clock reading
  is an argument.
\<close>

record hlc =
  hlc_state :: "u64 \<times> u32"
  tick_count :: u64

definition hlc_new :: hlc where
  "hlc_new = \<lparr>hlc_state = (0, 0), tick_count = 0\<rparr>"

definition tick :: "u64 \<Rightarrow> u64 \<Rightarrow> u32 \<Rightarrow> hlc \<Rightarrow> (u64 \<times> u32) \<times> hlc" where
  "tick wall_ms remote_ms remote_seq h =
     (let (cur_phys, cur_seq) = hlc_state h;
          next_phys = max (max wall_ms remote_ms) cur_phys;
          next_seq = (if next_phys = cur_phys \<and> next_phys = remote_ms
                      then sat_add (max cur_seq remote_seq) 1
                      else if next_phys = cur_phys then sat_add cur_seq 1
                      else 0)
      in ((next_phys, next_seq), h\<lparr>hlc_state := (next_phys, next_seq), tick_count := tick_count h + 1\<rparr>))"

definition hlc_now :: "u64 \<Rightarrow> hlc \<Rightarrow> u128 \<times> hlc" where
  "hlc_now wall_ms h =
     (let ((phys, sq), h') = tick wall_ms 0 0 h
      in (push_bit 32 (ucast phys) OR ucast sq, h'))"

section \<open>Properties\<close>

lemma tick_state: "hlc_state (snd (tick w m q h)) = fst (tick w m q h)"
  by (simp add: tick_def Let_def split: prod.split)

lemma sat_add_one_gt:
  fixes b :: "'a::len word"
  assumes "b \<noteq> - 1"
  shows "b < sat_add b 1"
proof -
  have "unat b \<noteq> 2 ^ LENGTH('a) - 1"
    using assms by (simp add: word_eq_iff_unat unat_max_word)
  then have small: "unat b + 1 < 2 ^ LENGTH('a)"
    using unat_lt2p [of b] by linarith
  then have "sat_add b 1 = b + 1" by (simp add: sat_add_def)
  moreover have "unat (b + 1) = unat b + 1" using small by (simp add: unat_add_small)
  ultimately show ?thesis by (simp add: word_less_nat_alt)
qed

text \<open>C39: The hybrid logical clock is monotone. A tick never moves the clock back, its physical part
  is at least the wall clock, the remote time and the previous one, and the pair grows strictly
  unless physical time stands still with the logical counter saturated. Against a remote pair it
  only guarantees the physical part: when the remote clock is ahead the result restarts at logical
  counter 0, which is not past the remote pair.\<close>

theorem tick_monotone:
  "hlc_state h \<le> fst (tick w m q h) \<and>
   w \<le> fst (fst (tick w m q h)) \<and> m \<le> fst (fst (tick w m q h)) \<and>
   hlc_state (snd (tick w m q h)) = fst (tick w m q h) \<and>
   (snd (hlc_state h) \<noteq> - 1 \<longrightarrow> hlc_state h < fst (tick w m q h)) \<and>
   (fst (hlc_state h) < m \<and> w \<le> m \<longrightarrow> fst (tick w m q h) = (m, 0))"
proof -
  obtain p s where st: "hlc_state h = (p, s)" by (cases "hlc_state h")
  have g: "s \<noteq> - 1 \<Longrightarrow> s < sat_add s 1" by (rule sat_add_one_gt)
  have ge: "s \<le> sat_add s 1" by (rule sat_add_ge)
  have ge2: "s \<le> sat_add (max s q) 1"
    using sat_add_ge [of "max s q" 1] by (rule order_trans [OF max.cobounded1])
  have g2: "s < sat_add (max s q) 1" if "s \<noteq> - 1"
  proof (cases "max s q = - 1")
    case True
    then have "sat_add (max s q) 1 = - 1" by (simp add: sat_add_def unat_max_word)
    then show ?thesis using that by (simp add: word_order.not_eq_extremum)
  next
    case False
    then show ?thesis
      using le_less_trans [OF max.cobounded1 sat_add_one_gt [OF False]] by simp
  qed
  have m: "p \<le> max (max w m) p" by simp
  consider "max (max w m) p = p" | "p < max (max w m) p" by (metis m order_le_less)
  then show ?thesis
  proof cases
    case 1
    then show ?thesis
      using g ge g2 ge2 by (auto simp: tick_def st Let_def max_def split: if_splits)
  next
    case 2
    then show ?thesis
      by (auto simp: tick_def st Let_def less_max_iff_disj intro: max.absorb2)
  qed
qed

theorem tick_monotone_witness:
  "hlc_state hlc_new < fst (tick 5 0 0 hlc_new) \<and> fst (tick 5 9 7 hlc_new) = (9, 0)"
  using tick_monotone [of hlc_new 5 0 0] tick_monotone [of hlc_new 5 9 7] by (simp add: hlc_new_def)

end
