(* ===== verification/Aworset.thy ===== *)
theory Aworset
  imports Hlc
begin

text \<open>
  The replicated blocklist of the mesh: \<^verbatim>\<open>crates/ramshield-mesh/src/aworset.rs\<close>. Each node keeps,
  per (address, origin node, origin incarnation), the newest ban dot it has seen and the highest
  removed dot. Deltas travel by gossip, in any order and any number of times.

  Each method is one step. In the code a mutation holds the read side of the snapshot barrier, which makes it one step
  against the export of a snapshot (the write side) only, and locks the shards of the tombstone map and the entry map one
  after the other; two mutations of one key from different threads could interleave between the check of the tombstone
  and the update of the entry. The enforcement actor makes all mutations, one at a time. Random
  incarnations and wall clock readings are arguments. Iteration over a \<^verbatim>\<open>DashMap\<close> followed by a sort on a unique key is
  the sorted list of the domain.
\<close>

section \<open>Data\<close>

record peer_epoch =
  peer_node_id :: u32
  pe_incarnation :: uuid
  ack_epoch :: u64
  last_acknowledged_lsn :: u64
  tombstone_expiry_epoch :: u64

type_synonym block_key = "ipaddr \<times> u32 \<times> uuid"
type_synonym block_st = "u64 \<times> u64 \<times> u64 \<times> u8"

record tombstone_state =
  ts_counter :: u64
  created_at_epoch :: u64

record cluster_dot =
  dot_node :: u32
  dot_incarnation :: uuid
  dot_counter :: u64

record cluster_block_delta =
  bd_ip :: ipaddr
  bd_dot :: cluster_dot
  created_at_ms :: u64
  expires_at_ms :: u64
  tier :: u8

record cluster_unblock_delta =
  ud_ip :: ipaddr
  ud_dot :: cluster_dot

record aworset_snapshot =
  snap_blocks :: "cluster_block_delta list"
  snap_unblocks :: "cluster_unblock_delta list"

record blocklist =
  bl_node_id :: u32
  bl_incarnation :: uuid
  bl_hlc :: hlc
  entries :: "block_key \<rightharpoonup> block_st"
  tombstones :: "block_key \<rightharpoonup> tombstone_state"
  peer_acks :: "u32 \<rightharpoonup> peer_epoch"
  expected_peers :: "u32 set"
  next_dot_counter :: u64

definition blocklist_new :: "u32 \<Rightarrow> uuid \<Rightarrow> blocklist" where
  "blocklist_new node inc =
     \<lparr>bl_node_id = node, bl_incarnation = inc, bl_hlc = hlc_new, entries = Map.empty,
      tombstones = Map.empty, peer_acks = Map.empty, expected_peers = {}, next_dot_counter = 1\<rparr>"

definition dot_invalid :: "cluster_dot \<Rightarrow> bool" where
  "dot_invalid d \<longleftrightarrow> dot_node d = 0 \<or> dot_incarnation d = nil_uuid"

definition bd_key :: "cluster_block_delta \<Rightarrow> block_key" where
  "bd_key d = (bd_ip d, dot_node (bd_dot d), dot_incarnation (bd_dot d))"

definition ud_key :: "cluster_unblock_delta \<Rightarrow> block_key" where
  "ud_key d = (ud_ip d, dot_node (ud_dot d), dot_incarnation (ud_dot d))"

definition bd_state :: "cluster_block_delta \<Rightarrow> block_st" where
  "bd_state d = (dot_counter (bd_dot d), created_at_ms d, expires_at_ms d, tier d)"

definition bl_tick :: "u64 \<Rightarrow> u64 \<Rightarrow> blocklist \<Rightarrow> blocklist" where
  "bl_tick wall remote s = s\<lparr>bl_hlc := snd (tick wall remote 0 (bl_hlc s))\<rparr>"

section \<open>Local decisions\<close>

definition prepare_ban ::
  "u64 \<Rightarrow> ipaddr \<Rightarrow> u64 \<Rightarrow> u8 \<Rightarrow> blocklist \<Rightarrow> cluster_block_delta \<times> blocklist" where
  "prepare_ban wall ip ttl_ms t s =
     (let ((created, _), h) = tick wall 0 0 (bl_hlc s);
          cnt = next_dot_counter s;
          expires = (if ttl_ms = 0 then - 1 else sat_add created ttl_ms)
      in (\<lparr>bd_ip = ip,
           bd_dot = \<lparr>dot_node = bl_node_id s, dot_incarnation = bl_incarnation s, dot_counter = cnt\<rparr>,
           created_at_ms = created, expires_at_ms = expires, tier = t\<rparr>,
          s\<lparr>bl_hlc := h, next_dot_counter := sat_add cnt 1\<rparr>))"

text \<open>The tombstones for the dots of an address, listed in key order (the source leaves the
  iteration order of the map open).\<close>

definition unban_of :: "block_key \<Rightarrow> block_st \<Rightarrow> cluster_unblock_delta" where
  "unban_of k st = (case k of (ip, node, inc) \<Rightarrow>
     \<lparr>ud_ip = ip, ud_dot = \<lparr>dot_node = node, dot_incarnation = inc, dot_counter = fst st\<rparr>\<rparr>)"

definition prepare_unban :: "ipaddr \<Rightarrow> blocklist \<Rightarrow> cluster_unblock_delta list" where
  "prepare_unban ip s =
     map (\<lambda>k. unban_of k (the (entries s k)))
       (sorted_list_of_set {k \<in> dom (entries s). fst k = ip})"

section \<open>Merging\<close>

definition needs_merge_delta :: "cluster_block_delta \<Rightarrow> blocklist \<Rightarrow> bool" where
  "needs_merge_delta d s =
     (if dot_invalid (bd_dot d) then False
      else if (case tombstones s (bd_key d) of
                 Some t \<Rightarrow> dot_counter (bd_dot d) \<le> ts_counter t | None \<Rightarrow> False) then False
      else (case entries s (bd_key d) of
              None \<Rightarrow> True | Some e \<Rightarrow> dot_counter (bd_dot d) > fst e))"

definition merge_delta :: "u64 \<Rightarrow> cluster_block_delta \<Rightarrow> blocklist \<Rightarrow> bool \<times> blocklist" where
  "merge_delta wall d s =
     (if dot_invalid (bd_dot d) then (False, s)
      else
        let s1 = bl_tick wall (created_at_ms d) s;
            key = bd_key d
        in if (case tombstones s1 key of
                 Some t \<Rightarrow> dot_counter (bd_dot d) \<le> ts_counter t | None \<Rightarrow> False) then (False, s1)
           else (case entries s1 key of
                   Some e \<Rightarrow>
                     if dot_counter (bd_dot d) > fst e
                     then (True, s1\<lparr>entries := (entries s1)(key \<mapsto> bd_state d)\<rparr>)
                     else (False, s1)
                 | None \<Rightarrow> (True, s1\<lparr>entries := (entries s1)(key \<mapsto> bd_state d)\<rparr>)))"

definition record_ban ::
  "u64 \<Rightarrow> u64 \<Rightarrow> ipaddr \<Rightarrow> u64 \<Rightarrow> u8 \<Rightarrow> blocklist \<Rightarrow> cluster_block_delta \<times> blocklist" where
  "record_ban wall wall' ip ttl_ms t s =
     (let (d, s1) = prepare_ban wall ip ttl_ms t s in (d, snd (merge_delta wall' d s1)))"

text \<open>The highest acknowledgment epoch, 0 without peers.\<close>

definition current_ack_epoch :: "blocklist \<Rightarrow> u64" where
  "current_ack_epoch s =
     (if dom (peer_acks s) = {} then 0
      else Max ((\<lambda>p. ack_epoch (the (peer_acks s p))) ` dom (peer_acks s)))"

definition needs_merge_unblock :: "cluster_unblock_delta \<Rightarrow> blocklist \<Rightarrow> bool" where
  "needs_merge_unblock u s =
     (if dot_invalid (ud_dot u) then False
      else
        let tombstone_is_newer =
              (case tombstones s (ud_key u) of None \<Rightarrow> True | Some t \<Rightarrow> dot_counter (ud_dot u) > ts_counter t);
            removes_live_dot =
              (case entries s (ud_key u) of None \<Rightarrow> False | Some e \<Rightarrow> fst e \<le> dot_counter (ud_dot u))
        in tombstone_is_newer \<or> removes_live_dot)"

definition merge_unblock_delta :: "u64 \<Rightarrow> cluster_unblock_delta \<Rightarrow> blocklist \<Rightarrow> bool \<times> blocklist" where
  "merge_unblock_delta wall u s =
     (if dot_invalid (ud_dot u) then (False, s)
      else
        let s1 = bl_tick wall 0 s;
            key = ud_key u;
            cnt = dot_counter (ud_dot u);
            (changed, s2) =
              (case tombstones s1 key of
                 Some t \<Rightarrow>
                   if cnt > ts_counter t
                   then (True, s1\<lparr>tombstones := (tombstones s1)(key \<mapsto> t\<lparr>ts_counter := cnt\<rparr>)\<rparr>)
                   else (False, s1)
               | None \<Rightarrow>
                   (True, s1\<lparr>tombstones := (tombstones s1)
                      (key \<mapsto> \<lparr>ts_counter = cnt, created_at_epoch = current_ack_epoch s1\<rparr>)\<rparr>))
        in (case entries s2 key of
              Some e \<Rightarrow>
                if fst e \<le> cnt then (True, s2\<lparr>entries := (entries s2)(key := None)\<rparr>)
                else (changed, s2)
            | None \<Rightarrow> (changed, s2)))"

definition record_unban ::
  "u64 \<Rightarrow> ipaddr \<Rightarrow> blocklist \<Rightarrow> cluster_unblock_delta list \<times> blocklist" where
  "record_unban wall ip s =
     (let us = prepare_unban ip s
      in (us, fold (\<lambda>u s. snd (merge_unblock_delta wall u s)) us s))"

section \<open>Queries\<close>

definition bl_is_blocked :: "ipaddr \<Rightarrow> u64 \<Rightarrow> blocklist \<Rightarrow> bool" where
  "bl_is_blocked ip now_ms s \<longleftrightarrow>
     (\<exists>k \<in> dom (entries s). fst k = ip \<and> fst (snd (snd (the (entries s k)))) > now_ms)"

definition would_be_blocked_after_unblock ::
  "cluster_unblock_delta \<Rightarrow> u64 \<Rightarrow> blocklist \<Rightarrow> bool" where
  "would_be_blocked_after_unblock u now_ms s \<longleftrightarrow>
     (\<exists>k \<in> dom (entries s).
        let e = the (entries s k) in
        \<not> (fst k \<noteq> ud_ip u \<or> fst (snd (snd e)) \<le> now_ms) \<and>
        \<not> (fst (snd k) = dot_node (ud_dot u) \<and> snd (snd k) = dot_incarnation (ud_dot u) \<and>
           fst e \<le> dot_counter (ud_dot u)))"

definition active_ips :: "u64 \<Rightarrow> blocklist \<Rightarrow> ipaddr set" where
  "active_ips now_ms s =
     fst ` {k \<in> dom (entries s). fst (snd (snd (the (entries s k)))) > now_ms}"

definition ip_deadline :: "u64 \<Rightarrow> ipaddr \<Rightarrow> blocklist \<Rightarrow> u64" where
  "ip_deadline now_ms ip s =
     Max ((\<lambda>k. fst (snd (snd (the (entries s k))))) `
       {k \<in> dom (entries s). fst k = ip \<and> fst (snd (snd (the (entries s k)))) > now_ms})"

definition active_block_ttls :: "u64 \<Rightarrow> blocklist \<Rightarrow> (ipaddr \<times> u64) list" where
  "active_block_ttls now_ms s =
     map (\<lambda>ip. let deadline = ip_deadline now_ms ip s
               in (ip, if deadline = - 1 then 0
                       else sat_add (sat_sub deadline now_ms) 999 div 1000))
       (sorted_list_of_set (active_ips now_ms s))"

section \<open>Checkpoint\<close>

definition delta_of :: "block_key \<Rightarrow> block_st \<Rightarrow> cluster_block_delta" where
  "delta_of k st = (case (k, st) of ((ip, node, inc), (cnt, created, expires, t)) \<Rightarrow>
     \<lparr>bd_ip = ip, bd_dot = \<lparr>dot_node = node, dot_incarnation = inc, dot_counter = cnt\<rparr>,
      created_at_ms = created, expires_at_ms = expires, tier = t\<rparr>)"

definition export_snapshot :: "blocklist \<Rightarrow> aworset_snapshot" where
  "export_snapshot s =
     \<lparr>snap_blocks = map (\<lambda>k. delta_of k (the (entries s k))) (sorted_list_of_set (dom (entries s))),
      snap_unblocks = map (\<lambda>k. unban_of k (ts_counter (the (tombstones s k)), 0, 0, 0))
        (sorted_list_of_set (dom (tombstones s)))\<rparr>"

definition restore_snapshot :: "u64 \<Rightarrow> aworset_snapshot \<Rightarrow> blocklist \<Rightarrow> blocklist" where
  "restore_snapshot wall snap s =
     fold (\<lambda>d s. snd (merge_delta wall d s)) (snap_blocks snap)
       (fold (\<lambda>u s. snd (merge_unblock_delta wall u s)) (snap_unblocks snap) s)"

definition block_malformed :: "cluster_block_delta \<Rightarrow> bool" where
  "block_malformed d \<longleftrightarrow>
     is_unspecified (bd_ip d) \<or> dot_node (bd_dot d) = 0 \<or> dot_counter (bd_dot d) = 0 \<or>
     dot_incarnation (bd_dot d) = nil_uuid \<or>
     (expires_at_ms d \<noteq> - 1 \<and> expires_at_ms d < created_at_ms d)"

definition unblock_malformed :: "cluster_unblock_delta \<Rightarrow> bool" where
  "unblock_malformed d \<longleftrightarrow>
     is_unspecified (ud_ip d) \<or> dot_node (ud_dot d) = 0 \<or> dot_counter (ud_dot d) = 0 \<or>
     dot_incarnation (ud_dot d) = nil_uuid"

fun validate_blocks :: "block_key set \<Rightarrow> cluster_block_delta list \<Rightarrow> (unit, string) outcome" where
  "validate_blocks seen [] = Ok ()"
| "validate_blocks seen (d # ds) =
     (if block_malformed d then Err ''invalid active mesh dot in checkpoint''
      else if bd_key d \<in> seen then Err ''duplicate active mesh key in checkpoint''
      else validate_blocks (insert (bd_key d) seen) ds)"

fun validate_unblocks :: "block_key set \<Rightarrow> cluster_unblock_delta list \<Rightarrow> (unit, string) outcome" where
  "validate_unblocks seen [] = Ok ()"
| "validate_unblocks seen (d # ds) =
     (if unblock_malformed d then Err ''invalid mesh tombstone in checkpoint''
      else if ud_key d \<in> seen then Err ''duplicate mesh tombstone key in checkpoint''
      else validate_unblocks (insert (ud_key d) seen) ds)"

definition snapshot_validate :: "aworset_snapshot \<Rightarrow> (unit, string) outcome" where
  "snapshot_validate snap =
     obind (validate_blocks {} (snap_blocks snap)) (\<lambda>_. validate_unblocks {} (snap_unblocks snap))"

section \<open>Expiry, acknowledgment and collection\<close>

definition tombstone_horizon_ms :: u64 where
  "tombstone_horizon_ms = 86400000"

definition raise_tombstone :: "u64 \<Rightarrow> block_key \<Rightarrow> u64 \<Rightarrow> blocklist \<Rightarrow> blocklist" where
  "raise_tombstone epoch key cnt s =
     s\<lparr>entries := (entries s)(key := None),
       tombstones := (tombstones s)(key \<mapsto>
         (case tombstones s key of
            Some t \<Rightarrow> t\<lparr>ts_counter := max (ts_counter t) cnt\<rparr>
          | None \<Rightarrow> \<lparr>ts_counter = cnt, created_at_epoch = epoch\<rparr>))\<rparr>"

definition purge_expired :: "u64 \<Rightarrow> blocklist \<Rightarrow> blocklist" where
  "purge_expired now_ms s =
     (let expired = sorted_list_of_set
            {k \<in> dom (entries s). sat_sub now_ms (fst (snd (snd (the (entries s k))))) \<ge> tombstone_horizon_ms};
          epoch = current_ack_epoch s
      in fold (\<lambda>k s'. raise_tombstone epoch k (fst (the (entries s k))) s') expired s)"

text \<open>\<^verbatim>\<open>peer_acknowledged\<close>; \<open>inc\<close> is the random incarnation of a new row. \<^verbatim>\<open>epoch.epoch + 1\<close> is a
  checked addition.\<close>

definition peer_acknowledged :: "uuid \<Rightarrow> u32 \<Rightarrow> u64 \<Rightarrow> blocklist \<Rightarrow> (unit, unit) outcome \<times> blocklist" where
  "peer_acknowledged inc peer acked_lsn s =
     (let row = (case peer_acks s peer of
                   Some e \<Rightarrow> e
                 | None \<Rightarrow> \<lparr>peer_node_id = peer, pe_incarnation = inc, ack_epoch = 0,
                            last_acknowledged_lsn = 0, tombstone_expiry_epoch = - 1\<rparr>)
      in if acked_lsn > last_acknowledged_lsn row then
           let ep = sat_add (ack_epoch row) 1;
               row1 = row\<lparr>last_acknowledged_lsn := acked_lsn, ack_epoch := ep\<rparr>
           in (case checked_add ep 1 of
                 None \<Rightarrow> (Panic, s\<lparr>peer_acks := (peer_acks s)(peer \<mapsto> row1)\<rparr>)
               | Some next \<Rightarrow>
                   (Ok (), s\<lparr>peer_acks := (peer_acks s)(peer \<mapsto> row1\<lparr>tombstone_expiry_epoch := next\<rparr>)\<rparr>))
         else (Ok (), s\<lparr>peer_acks := (peer_acks s)(peer \<mapsto> row)\<rparr>))"

definition set_expected_peers :: "u32 list \<Rightarrow> blocklist \<Rightarrow> blocklist" where
  "set_expected_peers peers s = s\<lparr>expected_peers := set peers\<rparr>"

definition acked_past :: "u32 \<Rightarrow> u64 \<Rightarrow> blocklist \<Rightarrow> bool" where
  "acked_past peer epoch s \<longleftrightarrow>
     (case peer_acks s peer of None \<Rightarrow> False | Some e \<Rightarrow> ack_epoch e > epoch)"

text \<open>The closure of \<^verbatim>\<open>retain\<close>: true keeps the tombstone.\<close>

definition retain_tombstone :: "blocklist \<Rightarrow> block_key \<Rightarrow> tombstone_state \<Rightarrow> bool" where
  "retain_tombstone s key t \<longleftrightarrow>
     (\<exists>peer \<in> expected_peers s. \<not> acked_past peer (created_at_epoch t) s) \<or>
     (fst (snd key) \<noteq> bl_node_id s \<and> fst (snd key) \<notin> expected_peers s \<and>
      \<not> acked_past (fst (snd key)) (created_at_epoch t) s)"

definition gc_tombstones :: "blocklist \<Rightarrow> blocklist" where
  "gc_tombstones s =
     (if expected_peers s = {} then s
      else if \<exists>peer \<in> expected_peers s. \<not> acked_past peer 0 s then s
      else s\<lparr>tombstones := (\<lambda>k. case tombstones s k of
               None \<Rightarrow> None
             | Some t \<Rightarrow> if retain_tombstone s k t then Some t else None)\<rparr>)"

section \<open>The string-keyed set\<close>

text \<open>The generic \<^verbatim>\<open>Aworset\<close> of the same file.\<close>

record sset =
  ss_elements :: "string set"
  ss_tombstones :: "string set"

definition ss_add :: "string \<Rightarrow> sset \<Rightarrow> sset" where
  "ss_add key s = s\<lparr>ss_tombstones := ss_tombstones s - {key}, ss_elements := insert key (ss_elements s)\<rparr>"

definition ss_remove :: "string \<Rightarrow> sset \<Rightarrow> sset" where
  "ss_remove key s = s\<lparr>ss_elements := ss_elements s - {key}, ss_tombstones := insert key (ss_tombstones s)\<rparr>"

definition ss_contains :: "string \<Rightarrow> sset \<Rightarrow> bool" where
  "ss_contains key s \<longleftrightarrow> key \<in> ss_elements s \<and> key \<notin> ss_tombstones s"

definition ss_merge :: "sset \<Rightarrow> sset \<Rightarrow> sset" where
  "ss_merge other s =
     s\<lparr>ss_elements := ss_elements s \<union> ss_elements other,
       ss_tombstones := ss_tombstones s \<union> ss_tombstones other\<rparr>"

end
