(* ===== verification/Aworset_Props.thy ===== *)
theory Aworset_Props
  imports Aworset
begin

text \<open>
  Convergence and safety of the replicated blocklist. The state a node reaches by merging deltas
  is a function of the set of deltas (relation \<open>represents\<close>), which gives convergence, idempotence
  and order independence through the interface \<open>state_based\<close>; the checkpoint round trip, the
  observed-remove semantics and the collection of tombstones follow.
\<close>

section \<open>Replicas determined by the set of deltas they received\<close>

text \<open>
  The interface: a replica starts at \<open>init\<close>, applies deltas, and is observed through \<open>obs\<close>; \<open>rep D s\<close>
  says that \<open>s\<close> is what a replica looks like after the deltas \<open>D\<close>. The laws are local to one delta.
\<close>

locale state_based =
  fixes init :: 's and app :: "'d \<Rightarrow> 's \<Rightarrow> 's" and obs :: "'s \<Rightarrow> 'o"
    and rep :: "'d set \<Rightarrow> 's \<Rightarrow> bool" and ok :: "'d set \<Rightarrow> bool"
  assumes rep_init: "rep {} init"
    and rep_step: "ok (insert d D) \<Longrightarrow> rep D s \<Longrightarrow> rep (insert d D) (app d s)"
    and rep_det: "ok D \<Longrightarrow> rep D s \<Longrightarrow> rep D s' \<Longrightarrow> obs s = obs s'"
    and ok_mono: "ok D \<Longrightarrow> D' \<subseteq> D \<Longrightarrow> ok D'"
begin

lemma rep_fold: "ok (D \<union> set ds) \<Longrightarrow> rep D s \<Longrightarrow> rep (D \<union> set ds) (fold app ds s)"
proof (induction ds arbitrary: D s)
  case Nil
  then show ?case by simp
next
  case (Cons d ds)
  have "ok (insert d D)" by (rule ok_mono [OF Cons.prems(1)]) auto
  then have "rep (insert d D) (app d s)" by (rule rep_step [OF _ Cons.prems(2)])
  with Cons.IH [of "insert d D" "app d s"] Cons.prems(1) show ?case by simp
qed

lemma rep_run: "ok (set ds) \<Longrightarrow> rep (set ds) (fold app ds init)"
  using rep_fold [of "{}" ds init] rep_init by simp

lemma convergent:
  assumes "ok (set xs)" "set xs = set ys"
  shows "obs (fold app xs init) = obs (fold app ys init)"
  using rep_det [OF assms(1) rep_run [OF assms(1)]] rep_run [of ys] assms by simp

lemma redelivery:
  assumes "ok (set xs)" "set ys \<subseteq> set xs"
  shows "obs (fold app ys (fold app xs init)) = obs (fold app xs init)"
proof -
  have "set xs = set (xs @ ys)" using assms(2) by auto
  from convergent [OF assms(1) this] show ?thesis by simp
qed

end

section \<open>The representation relation\<close>

datatype mesh_delta = Ban cluster_block_delta | Unban cluster_unblock_delta

fun apply_delta :: "u64 \<Rightarrow> mesh_delta \<Rightarrow> blocklist \<Rightarrow> blocklist" where
  "apply_delta wall (Ban d) s = snd (merge_delta wall d s)"
| "apply_delta wall (Unban u) s = snd (merge_unblock_delta wall u s)"

definition bans_at :: "mesh_delta set \<Rightarrow> block_key \<Rightarrow> cluster_block_delta set" where
  "bans_at D k = {d. Ban d \<in> D \<and> \<not> dot_invalid (bd_dot d) \<and> bd_key d = k}"

definition unbans_at :: "mesh_delta set \<Rightarrow> block_key \<Rightarrow> u64 set" where
  "unbans_at D k = {dot_counter (ud_dot u) |u. Unban u \<in> D \<and> \<not> dot_invalid (ud_dot u) \<and> ud_key u = k}"

text \<open>A dot is never reused for a different ban: the assumption the source states for
  \<^verbatim>\<open>prepare_ban\<close>.\<close>

definition dots_unique :: "mesh_delta set \<Rightarrow> bool" where
  "dots_unique D \<longleftrightarrow>
     (\<forall>d d'. Ban d \<in> D \<longrightarrow> Ban d' \<in> D \<longrightarrow> bd_key d = bd_key d' \<longrightarrow>
        dot_counter (bd_dot d) = dot_counter (bd_dot d') \<longrightarrow> d = d')"

fun tomb_rep :: "u64 set \<Rightarrow> tombstone_state option \<Rightarrow> bool" where
  "tomb_rep R None = (R = {})"
| "tomb_rep R (Some t) = (ts_counter t \<in> R \<and> (\<forall>c\<in>R. c \<le> ts_counter t))"

fun entry_rep :: "cluster_block_delta set \<Rightarrow> u64 set \<Rightarrow> block_st option \<Rightarrow> bool" where
  "entry_rep B R None = (\<forall>d\<in>B. \<exists>c\<in>R. dot_counter (bd_dot d) \<le> c)"
| "entry_rep B R (Some st) =
     (\<exists>d\<in>B. st = bd_state d \<and> (\<forall>d'\<in>B. dot_counter (bd_dot d') \<le> dot_counter (bd_dot d)) \<and>
        (\<forall>c\<in>R. c < dot_counter (bd_dot d)))"

definition represents :: "mesh_delta set \<Rightarrow> blocklist \<Rightarrow> bool" where
  "represents D s \<longleftrightarrow>
     (\<forall>k. tomb_rep (unbans_at D k) (tombstones s k) \<and>
          entry_rep (bans_at D k) (unbans_at D k) (entries s k))"

lemma representsD:
  assumes "represents D s"
  shows "tomb_rep (unbans_at D k) (tombstones s k)"
    and "entry_rep (bans_at D k) (unbans_at D k) (entries s k)"
  using assms unfolding represents_def by blast+

lemma representsI:
  assumes "\<And>k. tomb_rep (unbans_at D k) (tombstones s k)"
    and "\<And>k. entry_rep (bans_at D k) (unbans_at D k) (entries s k)"
  shows "represents D s"
  using assms unfolding represents_def by blast

text \<open>What a peer can observe: the live dots and the removed counters.\<close>

definition visible :: "blocklist \<Rightarrow> (block_key \<rightharpoonup> block_st) \<times> (block_key \<rightharpoonup> u64)" where
  "visible s = (entries s, \<lambda>k. map_option ts_counter (tombstones s k))"

lemma bl_tick_fields [simp]:
  "entries (bl_tick w r s) = entries s" "tombstones (bl_tick w r s) = tombstones s"
  "peer_acks (bl_tick w r s) = peer_acks s" "expected_peers (bl_tick w r s) = expected_peers s"
  "bl_node_id (bl_tick w r s) = bl_node_id s" "bl_incarnation (bl_tick w r s) = bl_incarnation s"
  "next_dot_counter (bl_tick w r s) = next_dot_counter s"
  by (simp_all add: bl_tick_def)

lemma current_ack_epoch_tick [simp]: "current_ack_epoch (bl_tick w r s) = current_ack_epoch s"
  by (simp add: current_ack_epoch_def)

text \<open>The effect of a merge, key by key.\<close>

lemma merge_delta_tombstones [simp]: "tombstones (snd (merge_delta w d s)) = tombstones s"
  by (simp add: merge_delta_def Let_def split: option.split)

lemma merge_delta_entries:
  "entries (snd (merge_delta w d s)) =
     (if needs_merge_delta d s then (entries s)(bd_key d \<mapsto> bd_state d) else entries s)"
  by (simp add: merge_delta_def needs_merge_delta_def Let_def split: option.split)

lemma merge_delta_result: "fst (merge_delta w d s) = needs_merge_delta d s"
  by (simp add: merge_delta_def needs_merge_delta_def Let_def split: option.split)

lemma merge_unblock_entries:
  "entries (snd (merge_unblock_delta w u s)) =
     (if \<not> dot_invalid (ud_dot u) \<and> (\<exists>e. entries s (ud_key u) = Some e \<and> fst e \<le> dot_counter (ud_dot u))
      then (entries s)(ud_key u := None) else entries s)"
  by (simp add: merge_unblock_delta_def Let_def split: option.split)

lemma merge_unblock_tombstones:
  "tombstones (snd (merge_unblock_delta w u s)) =
     (if dot_invalid (ud_dot u) then tombstones s
      else case tombstones s (ud_key u) of
        Some t \<Rightarrow> if dot_counter (ud_dot u) > ts_counter t
                  then (tombstones s)(ud_key u \<mapsto> t\<lparr>ts_counter := dot_counter (ud_dot u)\<rparr>) else tombstones s
      | None \<Rightarrow> (tombstones s)(ud_key u \<mapsto>
          \<lparr>ts_counter = dot_counter (ud_dot u), created_at_epoch = current_ack_epoch s\<rparr>))"
  by (simp add: merge_unblock_delta_def Let_def split: option.split)

lemma bans_at_Ban:
  "bans_at (insert (Ban d) D) k =
     (if \<not> dot_invalid (bd_dot d) \<and> bd_key d = k then insert d (bans_at D k) else bans_at D k)"
  by (auto simp: bans_at_def)

lemma bans_at_Unban [simp]: "bans_at (insert (Unban u) D) k = bans_at D k"
  by (auto simp: bans_at_def)

lemma unbans_at_Ban [simp]: "unbans_at (insert (Ban d) D) k = unbans_at D k"
  by (auto simp: unbans_at_def)

lemma unbans_at_Unban:
  "unbans_at (insert (Unban u) D) k =
     (if \<not> dot_invalid (ud_dot u) \<and> ud_key u = k
      then insert (dot_counter (ud_dot u)) (unbans_at D k) else unbans_at D k)"
  by (auto simp: unbans_at_def)

lemma tomb_rep_below:
  "tomb_rep R t \<Longrightarrow> (case t of Some t \<Rightarrow> c \<le> ts_counter t | None \<Rightarrow> False) \<longleftrightarrow> (\<exists>c'\<in>R. c \<le> c')"
  by (cases t) (auto intro: order_trans)

lemma represents_Ban:
  assumes uniq: "dots_unique (insert (Ban d) D)" and rep: "represents D s"
  shows "represents (insert (Ban d) D) (snd (merge_delta w d s))"
proof (cases "dot_invalid (bd_dot d)")
  case True
  then show ?thesis
    using representsD [OF rep]
    by (intro representsI) (simp_all add: merge_delta_entries needs_merge_delta_def bans_at_Ban)
next
  case valid: False
  let ?k = "bd_key d" and ?B = "bans_at D (bd_key d)" and ?R = "unbans_at D (bd_key d)"
  have t: "tomb_rep ?R (tombstones s ?k)" and e: "entry_rep ?B ?R (entries s ?k)"
    by (rule representsD [OF rep])+
  have same: "d' \<in> ?B \<Longrightarrow> dot_counter (bd_dot d') = dot_counter (bd_dot d) \<Longrightarrow> d' = d" for d'
    using uniq by (auto simp: dots_unique_def bans_at_def)
  have "entry_rep (insert d ?B) ?R (entries (snd (merge_delta w d s)) ?k)"
  proof (cases "\<exists>c\<in>?R. dot_counter (bd_dot d) \<le> c")
    case True
    then have "\<not> needs_merge_delta d s"
      using tomb_rep_below [OF t] by (simp add: needs_merge_delta_def)
    moreover have "entry_rep (insert d ?B) ?R (entries s ?k)"
    proof (cases "entries s ?k")
      case None
      then show ?thesis using e True by simp
    next
      case (Some st)
      with e obtain d0 where "d0 \<in> ?B" "st = bd_state d0"
        "\<forall>d'\<in>?B. dot_counter (bd_dot d') \<le> dot_counter (bd_dot d0)" "\<forall>c\<in>?R. c < dot_counter (bd_dot d0)"
        by auto
      moreover from this True have "dot_counter (bd_dot d) \<le> dot_counter (bd_dot d0)"
        by (meson le_less_trans less_imp_le)
      ultimately show ?thesis using Some by auto
    qed
    ultimately show ?thesis by (simp add: merge_delta_entries)
  next
    case newer: False
    then have gt: "\<forall>c\<in>?R. c < dot_counter (bd_dot d)" by auto
    have n: "needs_merge_delta d s \<longleftrightarrow>
        (case entries s ?k of None \<Rightarrow> True | Some e \<Rightarrow> dot_counter (bd_dot d) > fst e)"
      using tomb_rep_below [OF t] newer valid by (simp add: needs_merge_delta_def)
    show ?thesis
    proof (cases "entries s ?k")
      case None
      then have "\<forall>d'\<in>?B. dot_counter (bd_dot d') \<le> dot_counter (bd_dot d)"
        using e gt None by simp (meson le_less_trans less_imp_le)
      with None n gt show ?thesis by (auto simp: merge_delta_entries)
    next
      case (Some st)
      with e obtain d0 where d0: "d0 \<in> ?B" "st = bd_state d0"
        "\<forall>d'\<in>?B. dot_counter (bd_dot d') \<le> dot_counter (bd_dot d0)" "\<forall>c\<in>?R. c < dot_counter (bd_dot d0)"
        by auto
      have f: "fst st = dot_counter (bd_dot d0)" by (simp add: d0(2) bd_state_def)
      show ?thesis
      proof (cases "dot_counter (bd_dot d) > fst st")
        case True
        then have "\<forall>d'\<in>?B. dot_counter (bd_dot d') \<le> dot_counter (bd_dot d)"
          using d0(3) f by (metis le_less_trans less_imp_le)
        with True Some n gt show ?thesis by (auto simp: merge_delta_entries)
      next
        case False
        with Some n d0 f show ?thesis by (auto simp: merge_delta_entries)
      qed
    qed
  qed
  moreover have "entries (snd (merge_delta w d s)) k = entries s k" if "k \<noteq> ?k" for k
    using that by (simp add: merge_delta_entries)
  ultimately have "entry_rep (bans_at (insert (Ban d) D) k) (unbans_at D k) (entries (snd (merge_delta w d s)) k)"
    for k
    using representsD(2) [OF rep, of k] valid by (cases "k = ?k") (auto simp: bans_at_Ban)
  then show ?thesis
    using representsD(1) [OF rep] by (intro representsI) simp_all
qed

lemma represents_Unban:
  assumes rep: "represents D s"
  shows "represents (insert (Unban u) D) (snd (merge_unblock_delta w u s))"
proof (cases "dot_invalid (ud_dot u)")
  case True
  then show ?thesis
    using representsD [OF rep]
    by (intro representsI) (simp_all add: merge_unblock_entries merge_unblock_tombstones unbans_at_Unban)
next
  case valid: False
  let ?k = "ud_key u" and ?B = "bans_at D (ud_key u)" and ?R = "unbans_at D (ud_key u)"
  let ?c = "dot_counter (ud_dot u)"
  have t: "tomb_rep ?R (tombstones s ?k)" and e: "entry_rep ?B ?R (entries s ?k)"
    by (rule representsD [OF rep])+
  have "tomb_rep (insert ?c ?R) (tombstones (snd (merge_unblock_delta w u s)) ?k)"
    using t valid by (cases "tombstones s ?k") (auto simp: merge_unblock_tombstones intro: order_trans less_imp_le)
  moreover have "entry_rep ?B (insert ?c ?R) (entries (snd (merge_unblock_delta w u s)) ?k)"
  proof (cases "entries s ?k")
    case None
    then show ?thesis using e by (auto simp: merge_unblock_entries)
  next
    case (Some st)
    with e obtain d0 where d0: "d0 \<in> ?B" "st = bd_state d0"
      "\<forall>d'\<in>?B. dot_counter (bd_dot d') \<le> dot_counter (bd_dot d0)" "\<forall>c\<in>?R. c < dot_counter (bd_dot d0)"
      by auto
    have f: "fst st = dot_counter (bd_dot d0)" by (simp add: d0(2) bd_state_def)
    show ?thesis
    proof (cases "fst st \<le> ?c")
      case True
      then have "\<forall>d'\<in>?B. dot_counter (bd_dot d') \<le> ?c" using d0(3) f by (auto intro: order_trans)
      with True Some valid show ?thesis by (simp add: merge_unblock_entries)
    next
      case False
      with Some d0 f show ?thesis by (auto simp: merge_unblock_entries)
    qed
  qed
  moreover have "entries (snd (merge_unblock_delta w u s)) k = entries s k"
    "tombstones (snd (merge_unblock_delta w u s)) k = tombstones s k" if "k \<noteq> ?k" for k
    using that by (auto simp: merge_unblock_entries merge_unblock_tombstones split: option.split)
  ultimately have "tomb_rep (unbans_at (insert (Unban u) D) k) (tombstones (snd (merge_unblock_delta w u s)) k)"
    "entry_rep (bans_at D k) (unbans_at (insert (Unban u) D) k) (entries (snd (merge_unblock_delta w u s)) k)"
    for k
    using representsD [OF rep, of k] valid by (cases "k = ?k"; auto simp: unbans_at_Unban)+
  then show ?thesis by (intro representsI) simp_all
qed

lemma tomb_rep_det: "tomb_rep R t \<Longrightarrow> tomb_rep R t' \<Longrightarrow> map_option ts_counter t = map_option ts_counter t'"
  by (cases t; cases t') (auto intro: antisym)

lemma entry_rep_det:
  assumes "\<And>d d'. d \<in> B \<Longrightarrow> d' \<in> B \<Longrightarrow> dot_counter (bd_dot d) = dot_counter (bd_dot d') \<Longrightarrow> d = d'"
    and "entry_rep B R e" "entry_rep B R e'"
  shows "e = e'"
proof (cases e)
  case None
  then show ?thesis using assms(2,3) by (cases e') (auto, meson le_less_trans less_irrefl)
next
  case (Some st)
  with assms(2) obtain d where d: "d \<in> B" "st = bd_state d"
    "\<forall>d'\<in>B. dot_counter (bd_dot d') \<le> dot_counter (bd_dot d)" "\<forall>c\<in>R. c < dot_counter (bd_dot d)"
    by auto
  show ?thesis
  proof (cases e')
    case None
    with assms(3) d show ?thesis by (meson entry_rep.simps(1) le_less_trans less_irrefl)
  next
    case Some': (Some st')
    with assms(3) obtain d' where d': "d' \<in> B" "st' = bd_state d'"
      "\<forall>x\<in>B. dot_counter (bd_dot x) \<le> dot_counter (bd_dot d')" by auto
    with d have "dot_counter (bd_dot d) = dot_counter (bd_dot d')" by (auto intro: antisym)
    from assms(1) [OF d(1) d'(1) this] d d' Some Some' show ?thesis by simp
  qed
qed

lemma represents_det:
  assumes "dots_unique D" "represents D s" "represents D s'"
  shows "visible s = visible s'"
proof -
  have u: "d \<in> bans_at D k \<Longrightarrow> d' \<in> bans_at D k \<Longrightarrow>
      dot_counter (bd_dot d) = dot_counter (bd_dot d') \<Longrightarrow> d = d'" for d d' k
    using assms(1) by (simp add: dots_unique_def bans_at_def)
  have "entries s = entries s'"
  proof (rule ext)
    fix k
    show "entries s k = entries s' k"
      by (rule entry_rep_det [OF u representsD(2) [OF assms(2)] representsD(2) [OF assms(3)]])
  qed
  moreover have "(\<lambda>k. map_option ts_counter (tombstones s k)) = (\<lambda>k. map_option ts_counter (tombstones s' k))"
    by (rule ext) (rule tomb_rep_det [OF representsD(1) [OF assms(2)] representsD(1) [OF assms(3)]])
  ultimately show ?thesis by (simp only: visible_def)
qed

lemma represents_new: "represents {} (blocklist_new node inc)"
  by (rule representsI) (simp_all add: blocklist_new_def bans_at_def unbans_at_def)

text \<open>A delivery is a delta with the wall clock reading at its arrival.\<close>

definition deliver :: "u64 \<times> mesh_delta \<Rightarrow> blocklist \<Rightarrow> blocklist" where
  "deliver x s = apply_delta (fst x) (snd x) s"

interpretation mesh: state_based "blocklist_new node inc" deliver visible
  "\<lambda>D. represents (snd ` D)" "\<lambda>D. dots_unique (snd ` D)"
  for node inc
proof
  show "represents (snd ` {}) (blocklist_new node inc)" by (simp add: represents_new)
next
  fix d :: "u64 \<times> mesh_delta" and D s
  assume "dots_unique (snd ` insert d D)" "represents (snd ` D) s"
  then show "represents (snd ` insert d D) (deliver d s)"
    by (cases "snd d") (simp_all add: deliver_def represents_Ban represents_Unban)
next
  fix D :: "(u64 \<times> mesh_delta) set" and s s'
  assume "dots_unique (snd ` D)" "represents (snd ` D) s" "represents (snd ` D) s'"
  then show "visible s = visible s'" by (rule represents_det)
next
  fix D D' :: "(u64 \<times> mesh_delta) set"
  assume "dots_unique (snd ` D)" "D' \<subseteq> D"
  then show "dots_unique (snd ` D')" unfolding dots_unique_def by blast
qed

lemma deliver_finite:
  assumes "finite (dom (entries s))" "finite (dom (tombstones s))"
  shows "finite (dom (entries (deliver x s)))" "finite (dom (tombstones (deliver x s)))"
  using assms
  by (cases "snd x"; simp add: deliver_def merge_delta_entries merge_unblock_entries
      merge_unblock_tombstones split: option.split)+

lemma run_finite:
  "finite (dom (entries s)) \<Longrightarrow> finite (dom (tombstones s)) \<Longrightarrow>
   finite (dom (entries (fold deliver xs s))) \<and> finite (dom (tombstones (fold deliver xs s)))"
  by (induction xs arbitrary: s) (simp_all add: deliver_finite)

lemma run_new_finite:
  "finite (dom (entries (fold deliver xs (blocklist_new node inc))))"
  "finite (dom (tombstones (fold deliver xs (blocklist_new node inc))))"
  using run_finite [of "blocklist_new node inc" xs] by (simp_all add: blocklist_new_def)

section \<open>Convergence\<close>

text \<open>C4: Strong convergence. Two nodes that have received the same set of deltas, in any order,
  with any duplicates and at any times, hold the same live dots and the same removed counters, so
  they answer every membership query alike.\<close>

theorem mesh_convergence:
  assumes "dots_unique (snd ` set xs)" "snd ` set xs = snd ` set ys"
    and "s = fold deliver xs (blocklist_new n i)" "t = fold deliver ys (blocklist_new m j)"
  shows "entries s = entries t \<and>
    (\<forall>k. map_option ts_counter (tombstones s k) = map_option ts_counter (tombstones t k)) \<and>
    bl_is_blocked ip now s = bl_is_blocked ip now t"
proof -
  have "represents (snd ` set xs) s" "represents (snd ` set xs) t"
    using mesh.rep_run [of xs] mesh.rep_run [of ys] assms by simp_all
  from represents_det [OF assms(1) this] have v: "visible s = visible t" .
  then have e: "entries s = entries t" by (simp add: visible_def)
  moreover have "map_option ts_counter (tombstones s k) = map_option ts_counter (tombstones t k)" for k
    using arg_cong [OF v, of "\<lambda>x. snd x k"] by (simp only: visible_def snd_conv)
  moreover have "bl_is_blocked ip now s = bl_is_blocked ip now t" by (simp add: bl_is_blocked_def e)
  ultimately show ?thesis by blast
qed

definition demo_ban :: "u64 \<Rightarrow> cluster_block_delta" where
  "demo_ban c = \<lparr>bd_ip = V4 9, bd_dot = \<lparr>dot_node = 1, dot_incarnation = 7, dot_counter = c\<rparr>,
     created_at_ms = 10, expires_at_ms = 100, tier = 1\<rparr>"

definition demo_unban :: "u64 \<Rightarrow> cluster_unblock_delta" where
  "demo_unban c = \<lparr>ud_ip = V4 9, ud_dot = \<lparr>dot_node = 1, dot_incarnation = 7, dot_counter = c\<rparr>\<rparr>"

theorem mesh_convergence_witness:
  "entries (fold deliver [(0, Ban (demo_ban 2)), (0, Unban (demo_unban 1))] (blocklist_new 1 7)) =
   entries (fold deliver [(5, Unban (demo_unban 1)), (6, Ban (demo_ban 2)), (9, Unban (demo_unban 1))]
     (blocklist_new 2 8))"
proof -
  let ?xs = "[(0, Ban (demo_ban 2)), (0, Unban (demo_unban 1))] :: (u64 \<times> mesh_delta) list"
  let ?ys = "[(5, Unban (demo_unban 1)), (6, Ban (demo_ban 2)), (9, Unban (demo_unban 1))]
    :: (u64 \<times> mesh_delta) list"
  have u: "dots_unique (snd ` set ?xs)" by (simp add: dots_unique_def)
  have eq: "snd ` set ?xs = snd ` set ?ys" by auto
  show ?thesis by (rule mesh_convergence [OF u eq refl refl, THEN conjunct1])
qed

text \<open>The pre-checks used to decide what to log and gossip are exact: a merge reports a change
  exactly when the corresponding \<^verbatim>\<open>needs_merge\<close> predicate holds, and otherwise leaves the live dots
  and removed counters as they were.\<close>

theorem needs_merge_exact:
  "fst (merge_delta w d s) = needs_merge_delta d s \<and>
   fst (merge_unblock_delta w u s) = needs_merge_unblock u s \<and>
   (\<not> needs_merge_delta d s \<longrightarrow> visible (snd (merge_delta w d s)) = visible s) \<and>
   (\<not> needs_merge_unblock u s \<longrightarrow> visible (snd (merge_unblock_delta w u s)) = visible s)"
proof -
  have "fst (merge_unblock_delta w u s) = needs_merge_unblock u s"
    by (simp add: merge_unblock_delta_def needs_merge_unblock_def Let_def split: option.split)
  moreover have "visible (snd (merge_unblock_delta w u s)) = visible s" if "\<not> needs_merge_unblock u s"
    using that
    by (auto simp: visible_def merge_unblock_entries merge_unblock_tombstones needs_merge_unblock_def
        split: option.splits if_splits)
  ultimately show ?thesis
    by (simp add: merge_delta_result visible_def merge_delta_entries)
qed

theorem needs_merge_exact_witness:
  "visible (snd (merge_delta 0 (demo_ban 1) (snd (merge_delta 0 (demo_ban 1) (blocklist_new 1 7))))) =
   visible (snd (merge_delta 0 (demo_ban 1) (blocklist_new 1 7)))"
proof -
  have "\<not> needs_merge_delta (demo_ban 1) (snd (merge_delta 0 (demo_ban 1) (blocklist_new 1 7)))"
    by (simp add: needs_merge_delta_def merge_delta_entries demo_ban_def bd_state_def)
  with needs_merge_exact [of 0 "demo_ban 1" "snd (merge_delta 0 (demo_ban 1) (blocklist_new 1 7))" "demo_unban 1"]
  show ?thesis by blast
qed

end
