(* ===== verification/Aworset_Safety.thy ===== *)
theory Aworset_Safety
  imports Aworset_Props
begin

text \<open>
  Safety of the replicated blocklist: the checkpoint round trip, observed-remove and add-wins
  semantics, fresh dots, expiry, and the collection of tombstones.
\<close>

text \<open>Keys are triples that the proofs treat as one value.\<close>

declare split_paired_All [simp del] split_paired_Ex [simp del]

section \<open>Checkpoint round trip\<close>

lemma represents_valid_entry:
  assumes "represents D s" "entries s k = Some st"
  shows "fst (snd k) \<noteq> 0 \<and> snd (snd k) \<noteq> nil_uuid \<and>
    (\<forall>t. tombstones s k = Some t \<longrightarrow> ts_counter t < fst st)"
proof -
  obtain d where d: "d \<in> bans_at D k" "st = bd_state d" "\<forall>c\<in>unbans_at D k. c < dot_counter (bd_dot d)"
    using representsD(2) [OF assms(1), of k] assms(2) by auto
  have "\<forall>t. tombstones s k = Some t \<longrightarrow> ts_counter t < fst st"
    using representsD(1) [OF assms(1), of k] d by (auto simp: bd_state_def)
  with d(1) show ?thesis by (auto simp: bans_at_def bd_key_def dot_invalid_def)
qed

lemma represents_valid_tombstone:
  assumes "represents D s" "tombstones s k = Some t"
  shows "fst (snd k) \<noteq> 0 \<and> snd (snd k) \<noteq> nil_uuid"
  using representsD(1) [OF assms(1), of k] assms(2)
  by (auto simp: unbans_at_def ud_key_def dot_invalid_def)

lemma delta_of_simps [simp]:
  "bd_key (delta_of k st) = k" "bd_state (delta_of k st) = st"
  "dot_counter (bd_dot (delta_of k st)) = fst st"
  "dot_invalid (bd_dot (delta_of k st)) \<longleftrightarrow> fst (snd k) = 0 \<or> snd (snd k) = nil_uuid"
  by (simp_all add: delta_of_def bd_key_def bd_state_def dot_invalid_def split: prod.split)

lemma unban_of_simps [simp]:
  "ud_key (unban_of k st) = k" "dot_counter (ud_dot (unban_of k st)) = fst st"
  "dot_invalid (ud_dot (unban_of k st)) \<longleftrightarrow> fst (snd k) = 0 \<or> snd (snd k) = nil_uuid"
  "ud_ip (unban_of k st) = fst k"
  by (simp_all add: unban_of_def ud_key_def dot_invalid_def split: prod.split)

text \<open>The deltas a snapshot holds, and that a state represents the deltas it exports.\<close>

definition snapshot_deltas :: "aworset_snapshot \<Rightarrow> mesh_delta list" where
  "snapshot_deltas snap = map Unban (snap_unblocks snap) @ map Ban (snap_blocks snap)"

lemma deliver_fun:
  "deliver (w, Ban d) = (\<lambda>s. snd (merge_delta w d s))"
  "deliver (w, Unban u) = (\<lambda>s. snd (merge_unblock_delta w u s))"
  by (simp_all add: fun_eq_iff deliver_def)

lemma restore_snapshot_fold:
  "restore_snapshot w snap s = fold deliver (map (Pair w) (snapshot_deltas snap)) s"
  by (simp add: restore_snapshot_def snapshot_deltas_def fold_map comp_def deliver_fun)

lemma mem_image_dom: "d \<in> (\<lambda>k. f k (the (m k))) ` dom m \<longleftrightarrow> (\<exists>k v. m k = Some v \<and> d = f k v)"
  by force

lemma export_mem:
  assumes "finite (dom (entries s))" "finite (dom (tombstones s))"
  shows "Ban d \<in> set (snapshot_deltas (export_snapshot s)) \<longleftrightarrow>
      (\<exists>k st. entries s k = Some st \<and> d = delta_of k st)"
    and "Unban u \<in> set (snapshot_deltas (export_snapshot s)) \<longleftrightarrow>
      (\<exists>k t. tombstones s k = Some t \<and> u = unban_of k (ts_counter t, 0, 0, 0))"
proof -
  have "Ban d \<in> set (snapshot_deltas (export_snapshot s)) \<longleftrightarrow>
      d \<in> (\<lambda>k. delta_of k (the (entries s k))) ` dom (entries s)"
    using assms by (auto simp: snapshot_deltas_def export_snapshot_def)
  also have "\<dots> \<longleftrightarrow> (\<exists>k st. entries s k = Some st \<and> d = delta_of k st)"
    by (rule mem_image_dom)
  finally show "Ban d \<in> set (snapshot_deltas (export_snapshot s)) \<longleftrightarrow>
      (\<exists>k st. entries s k = Some st \<and> d = delta_of k st)" .
  have "Unban u \<in> set (snapshot_deltas (export_snapshot s)) \<longleftrightarrow>
      u \<in> (\<lambda>k. unban_of k (ts_counter (the (tombstones s k)), 0, 0, 0)) ` dom (tombstones s)"
    using assms by (auto simp: snapshot_deltas_def export_snapshot_def)
  also have "\<dots> \<longleftrightarrow> (\<exists>k t. tombstones s k = Some t \<and> u = unban_of k (ts_counter t, 0, 0, 0))"
    by (rule mem_image_dom)
  finally show "Unban u \<in> set (snapshot_deltas (export_snapshot s)) \<longleftrightarrow>
      (\<exists>k t. tombstones s k = Some t \<and> u = unban_of k (ts_counter t, 0, 0, 0))" .
qed

lemma export_bans_at:
  assumes "represents D s" "finite (dom (entries s))" "finite (dom (tombstones s))"
  shows "bans_at (set (snapshot_deltas (export_snapshot s))) k =
    (case entries s k of None \<Rightarrow> {} | Some st \<Rightarrow> {delta_of k st})"
  unfolding bans_at_def export_mem [OF assms(2,3)]
  using represents_valid_entry [OF assms(1), of k]
  by (auto split: option.split)

lemma export_unbans_at:
  assumes "represents D s" "finite (dom (entries s))" "finite (dom (tombstones s))"
  shows "unbans_at (set (snapshot_deltas (export_snapshot s))) k =
    (case tombstones s k of None \<Rightarrow> {} | Some t \<Rightarrow> {ts_counter t})"
  unfolding unbans_at_def export_mem [OF assms(2,3)]
  using represents_valid_tombstone [OF assms(1), of k]
  by (auto split: option.split) (metis fst_conv unban_of_simps)+

lemma export_represents:
  assumes "represents D s" "finite (dom (entries s))" "finite (dom (tombstones s))"
  shows "represents (set (snapshot_deltas (export_snapshot s))) s"
proof (rule representsI)
  fix k
  show "tomb_rep (unbans_at (set (snapshot_deltas (export_snapshot s))) k) (tombstones s k)"
    unfolding export_unbans_at [OF assms] by (cases "tombstones s k") simp_all
  show "entry_rep (bans_at (set (snapshot_deltas (export_snapshot s))) k)
      (unbans_at (set (snapshot_deltas (export_snapshot s))) k) (entries s k)"
    unfolding export_unbans_at [OF assms] export_bans_at [OF assms]
    using represents_valid_entry [OF assms(1), of k]
    by (cases "entries s k"; cases "tombstones s k") simp_all
qed

lemma export_dots_unique:
  assumes "finite (dom (entries s))" "finite (dom (tombstones s))"
  shows "dots_unique (set (snapshot_deltas (export_snapshot s)))"
  unfolding dots_unique_def export_mem [OF assms] by auto

text \<open>C25: Checkpoint round trip. Exporting the blocklist of a node and restoring it into a fresh
  node (any identity, any clock) reproduces every live dot and every removed counter, so no ban is
  lost and no removed ban comes back after the WAL it came from is gone.\<close>

theorem snapshot_roundtrip:
  assumes "dots_unique (snd ` set xs)" "s = fold deliver xs (blocklist_new n i)"
    and "t = restore_snapshot wall (export_snapshot s) (blocklist_new m j)"
  shows "entries t = entries s \<and>
    (\<forall>k. map_option ts_counter (tombstones t k) = map_option ts_counter (tombstones s k))"
proof -
  have rep: "represents (snd ` set xs) s" using mesh.rep_run [of xs] assms by simp
  have fin: "finite (dom (entries s))" "finite (dom (tombstones s))"
    unfolding assms(2) by (rule run_new_finite)+
  let ?E = "set (snapshot_deltas (export_snapshot s))"
  have img: "snd ` set (map (Pair wall) (snapshot_deltas (export_snapshot s))) = ?E"
    by (simp add: image_image)
  have u: "dots_unique ?E" by (rule export_dots_unique [OF fin])
  have "represents ?E t"
    using mesh.rep_run [of "map (Pair wall) (snapshot_deltas (export_snapshot s))"] u
    unfolding assms(3) restore_snapshot_fold img by blast
  from represents_det [OF u this export_represents [OF rep fin]] have v: "visible t = visible s" .
  have "map_option ts_counter (tombstones t k) = map_option ts_counter (tombstones s k)" for k
    using arg_cong [OF v, of "\<lambda>x. snd x k"] by (simp only: visible_def snd_conv)
  moreover have "entries t = entries s" using v by (simp add: visible_def)
  ultimately show ?thesis by blast
qed

theorem snapshot_roundtrip_witness:
  "entries (restore_snapshot 3 (export_snapshot (fold deliver [(0, Unban (demo_unban 1)), (0, Ban (demo_ban 2))]
     (blocklist_new 1 7))) (blocklist_new 2 8)) = [(V4 9, 1, 7) \<mapsto> (2, 10, 100, 1)]"
proof -
  let ?xs = "[(0, Unban (demo_unban 1)), (0, Ban (demo_ban 2))] :: (u64 \<times> mesh_delta) list"
  have u: "dots_unique (snd ` set ?xs)" by (simp add: dots_unique_def)
  have "entries (fold deliver ?xs (blocklist_new 1 7)) = [(V4 9, 1, 7) \<mapsto> (2, 10, 100, 1)]"
    by (simp add: deliver_def merge_delta_entries merge_unblock_entries merge_unblock_tombstones
        needs_merge_delta_def blocklist_new_def demo_ban_def demo_unban_def bd_key_def ud_key_def
        bd_state_def dot_invalid_def word_le_nat_alt)
  with snapshot_roundtrip [OF u refl refl, of 3 1 7 2 8] show ?thesis by metis
qed

section \<open>Removal and addition\<close>

lemma merge_unbans_entries:
  "entries (fold (\<lambda>u s. snd (merge_unblock_delta w u s)) us s) =
     (\<lambda>k. case entries s k of None \<Rightarrow> None
        | Some e \<Rightarrow> if \<exists>u\<in>set us. \<not> dot_invalid (ud_dot u) \<and> ud_key u = k \<and> fst e \<le> dot_counter (ud_dot u)
                    then None else Some e)"
proof (induction us arbitrary: s)
  case Nil
  show ?case by (rule ext) (simp split: option.split)
next
  case (Cons u us)
  show ?case
    unfolding fold.simps comp_def Cons.IH
    by (rule ext) (auto simp: merge_unblock_entries split: option.split)
qed

lemma prepare_unban_set:
  assumes "finite (dom (entries s))"
  shows "set (prepare_unban ip s) = {unban_of k st |k st. entries s k = Some st \<and> fst k = ip}"
proof -
  have "finite {k \<in> dom (entries s). fst k = ip}" using assms by simp
  then show ?thesis unfolding prepare_unban_def by (force simp: set_sorted_list_of_set)
qed

text \<open>Observed remove. Unbanning an address on a node removes every dot the node has observed
  for it, so the address is unblocked at every time, and touches no other address; merging the
  returned tombstones into any node removes there exactly the dots that were observed.\<close>

theorem record_unban_effect:
  assumes "dots_unique (snd ` set xs)" "s = fold deliver xs (blocklist_new n i)"
    and "record_unban w ip s = (us, s')"
  shows "\<not> bl_is_blocked ip now s' \<and>
    (\<forall>k. entries s' k = (if fst k = ip then None else entries s k)) \<and>
    (\<forall>k e. entries t k = Some e \<longrightarrow>
       (entries (fold (\<lambda>u s. snd (merge_unblock_delta w' u s)) us t) k = None \<longleftrightarrow>
        fst k = ip \<and> (\<exists>e0. entries s k = Some e0 \<and> fst e \<le> fst e0)))"
proof -
  have rep: "represents (snd ` set xs) s" using mesh.rep_run [of xs] assms by simp
  have fin: "finite (dom (entries s))" unfolding assms(2) by (rule run_new_finite)
  have us: "us = prepare_unban ip s" and s': "s' = fold (\<lambda>u s. snd (merge_unblock_delta w u s)) us s"
    using assms(3) by (auto simp: record_unban_def Let_def)
  have hit: "(\<exists>u\<in>set us. \<not> dot_invalid (ud_dot u) \<and> ud_key u = k \<and> c \<le> dot_counter (ud_dot u)) \<longleftrightarrow>
      fst k = ip \<and> (\<exists>e0. entries s k = Some e0 \<and> c \<le> fst e0)" for k c
  proof
    assume "\<exists>u\<in>set us. \<not> dot_invalid (ud_dot u) \<and> ud_key u = k \<and> c \<le> dot_counter (ud_dot u)"
    then show "fst k = ip \<and> (\<exists>e0. entries s k = Some e0 \<and> c \<le> fst e0)"
      unfolding us prepare_unban_set [OF fin] by auto
  next
    assume "fst k = ip \<and> (\<exists>e0. entries s k = Some e0 \<and> c \<le> fst e0)"
    then obtain e0 where e0: "fst k = ip" "entries s k = Some e0" "c \<le> fst e0" by blast
    then have "unban_of k e0 \<in> set us" unfolding us prepare_unban_set [OF fin] by blast
    moreover have "\<not> dot_invalid (ud_dot (unban_of k e0))"
      using represents_valid_entry [OF rep e0(2)] by simp
    ultimately show "\<exists>u\<in>set us. \<not> dot_invalid (ud_dot u) \<and> ud_key u = k \<and> c \<le> dot_counter (ud_dot u)"
      using e0(3) by (intro bexI [of _ "unban_of k e0"]) simp_all
  qed
  have e: "entries s' k = (if fst k = ip then None else entries s k)" for k
    unfolding s' merge_unbans_entries hit by (cases "entries s k") auto
  moreover from e have "\<not> bl_is_blocked ip now s'"
    by (auto simp: bl_is_blocked_def)
  moreover have "entries t k = Some e \<Longrightarrow>
      (entries (fold (\<lambda>u s. snd (merge_unblock_delta w' u s)) us t) k = None \<longleftrightarrow>
        fst k = ip \<and> (\<exists>e0. entries s k = Some e0 \<and> fst e \<le> fst e0))" for k e
    unfolding merge_unbans_entries hit by simp
  ultimately show ?thesis by blast
qed

theorem record_unban_effect_witness:
  "\<not> bl_is_blocked (V4 9) 50 (snd (record_unban 0 (V4 9) (fold deliver [(0, Ban (demo_ban 2))] (blocklist_new 1 7))))"
proof -
  have u: "dots_unique (snd ` set ([(0, Ban (demo_ban 2))] :: (u64 \<times> mesh_delta) list))"
    by (simp add: dots_unique_def)
  show ?thesis
    by (rule record_unban_effect [OF u refl surjective_pairing, THEN conjunct1])
qed

text \<open>C13: Add wins. A ban whose dot is newer than what a node had observed survives that node's
  concurrent unban of the address: whatever the order and number of deliveries of the ban and of
  the unban's tombstones, the receiving node reports the address blocked until the ban expires.\<close>

theorem concurrent_ban_survives:
  assumes "dots_unique (snd ` set xs)" "s = fold deliver xs (blocklist_new n i)"
    and d: "\<not> dot_invalid (bd_dot d)" "bd_ip d = ip"
    and newer: "\<forall>e. entries s (bd_key d) = Some e \<longrightarrow> fst e < dot_counter (bd_dot d)"
    and ys: "snd ` set ys = insert (Ban d) (Unban ` set (prepare_unban ip s))"
    and now: "now < expires_at_ms d"
  shows "bl_is_blocked ip now (fold deliver ys (blocklist_new m j))"
proof -
  let ?D = "snd ` set ys" and ?t = "fold deliver ys (blocklist_new m j)"
  have fin: "finite (dom (entries s))" unfolding assms(2) by (rule run_new_finite)
  have "dots_unique ?D" unfolding ys by (auto simp: dots_unique_def)
  then have rep: "represents ?D ?t" by (rule mesh.rep_run)
  have b: "bans_at ?D (bd_key d) = {d}" unfolding ys using d(1) by (auto simp: bans_at_def)
  have r: "\<forall>c\<in>unbans_at ?D (bd_key d). c < dot_counter (bd_dot d)"
    unfolding ys unbans_at_def prepare_unban_set [OF fin] using newer by auto
  have "entries ?t (bd_key d) = Some (bd_state d)"
    using representsD(2) [OF rep, of "bd_key d"] r unfolding b
    by (cases "entries ?t (bd_key d)") (auto simp: not_less)
  then show ?thesis
    unfolding bl_is_blocked_def using d(2) now
    by (intro bexI [of _ "bd_key d"]) (auto simp: bd_key_def bd_state_def)
qed

theorem concurrent_ban_survives_witness:
  "bl_is_blocked (V4 9) 50 (fold deliver [(0, Ban (demo_ban 3)), (0, Unban (demo_unban 2))] (blocklist_new 4 4))"
proof -
  let ?s = "fold deliver [(0, Ban (demo_ban 2))] (blocklist_new 1 7)"
  let ?ys = "[(0, Ban (demo_ban 3)), (0, Unban (demo_unban 2))] :: (u64 \<times> mesh_delta) list"
  have u: "dots_unique (snd ` set ([(0, Ban (demo_ban 2))] :: (u64 \<times> mesh_delta) list))"
    by (simp add: dots_unique_def)
  have e: "entries ?s = [(V4 9, 1, 7) \<mapsto> (2, 10, 100, 1)]"
    by (simp add: deliver_def merge_delta_entries needs_merge_delta_def blocklist_new_def
        demo_ban_def bd_key_def bd_state_def dot_invalid_def)
  have us: "prepare_unban (V4 9) ?s = [demo_unban 2]"
  proof -
    have "{k \<in> dom [(V4 9, 1 :: u32, 7 :: uuid) \<mapsto> (2, 10, 100, 1) :: block_st]. fst k = V4 9} = {(V4 9, 1, 7)}"
      by auto
    then show ?thesis unfolding prepare_unban_def e by (simp add: unban_of_def demo_unban_def)
  qed
  have ys: "snd ` set ?ys = insert (Ban (demo_ban 3)) (Unban ` set (prepare_unban (V4 9) ?s))"
    unfolding us by simp
  show ?thesis
  proof (rule concurrent_ban_survives [OF u refl _ _ _ ys])
    show "\<forall>st. entries ?s (bd_key (demo_ban 3)) = Some st \<longrightarrow> fst st < dot_counter (bd_dot (demo_ban 3))"
      unfolding e by (simp add: demo_ban_def bd_key_def)
  qed (simp_all add: demo_ban_def dot_invalid_def)
qed

text \<open>Local dots are fresh. The counter of a prepared ban is the node's next counter, which moves
  on by one (until it saturates), is never 0, and carries the node's identity; the delta never
  expires before it was created, so it passes the checkpoint validation for a real address.\<close>

theorem prepare_ban_fresh:
  assumes "next_dot_counter s \<noteq> 0" "prepare_ban wall ip ttl t s = (d, s')"
  shows "dot_counter (bd_dot d) = next_dot_counter s \<and> next_dot_counter s' \<noteq> 0 \<and>
    (dot_counter (bd_dot d) \<noteq> - 1 \<longrightarrow> dot_counter (bd_dot d) < next_dot_counter s') \<and>
    dot_node (bd_dot d) = bl_node_id s \<and> dot_incarnation (bd_dot d) = bl_incarnation s \<and>
    created_at_ms d \<le> expires_at_ms d \<and> wall \<le> created_at_ms d \<and>
    entries s' = entries s \<and> tombstones s' = tombstones s \<and>
    (\<not> is_unspecified ip \<and> bl_node_id s \<noteq> 0 \<and> bl_incarnation s \<noteq> nil_uuid \<longrightarrow> \<not> block_malformed d)"
proof -
  define c where "c = fst (fst (tick wall 0 0 (bl_hlc s)))"
  have w: "wall \<le> c" by (simp add: c_def tick_def Let_def split: prod.split)
  have d: "d = \<lparr>bd_ip = ip,
      bd_dot = \<lparr>dot_node = bl_node_id s, dot_incarnation = bl_incarnation s, dot_counter = next_dot_counter s\<rparr>,
      created_at_ms = c, expires_at_ms = (if ttl = 0 then - 1 else sat_add c ttl), tier = t\<rparr>"
    and s': "entries s' = entries s" "tombstones s' = tombstones s"
      "next_dot_counter s' = sat_add (next_dot_counter s) 1"
    using assms(2) by (auto simp: prepare_ban_def Let_def c_def split: prod.splits)
  have ex: "c \<le> expires_at_ms d" by (simp add: d sat_add_ge)
  have ge: "next_dot_counter s \<le> sat_add (next_dot_counter s) 1" by (rule sat_add_ge)
  have n0: "next_dot_counter s' \<noteq> 0"
    unfolding s'(3) using ge assms(1) by (metis word_le_0_iff)
  show ?thesis
    using w ex n0 assms(1) sat_add_one_gt [of "next_dot_counter s"] s'
    by (auto simp: d block_malformed_def)
qed

theorem prepare_ban_fresh_witness:
  "dot_counter (bd_dot (fst (prepare_ban 5 (V4 9) 60 1 (blocklist_new 3 4)))) = 1 \<and>
   next_dot_counter (snd (prepare_ban 5 (V4 9) 60 1 (blocklist_new 3 4))) \<noteq> 0"
proof -
  have "next_dot_counter (blocklist_new 3 4) \<noteq> 0" by (simp add: blocklist_new_def)
  from prepare_ban_fresh [OF this surjective_pairing, of 5 "V4 9" 60 1] show ?thesis
    by (simp add: blocklist_new_def)
qed

section \<open>Expiry\<close>

lemma raise_tombstones:
  assumes "distinct ks"
  shows "entries (fold (\<lambda>k s'. raise_tombstone ep k (f k) s') ks s) =
      (\<lambda>k. if k \<in> set ks then None else entries s k) \<and>
    (\<forall>k. map_option ts_counter (tombstones (fold (\<lambda>k s'. raise_tombstone ep k (f k) s') ks s) k) =
       (if k \<in> set ks then Some (case tombstones s k of None \<Rightarrow> f k | Some t \<Rightarrow> max (ts_counter t) (f k))
        else map_option ts_counter (tombstones s k)))"
  using assms
proof (induction ks arbitrary: s)
  case Nil
  show ?case by simp
next
  case (Cons k ks)
  then have k: "k \<notin> set ks" "distinct ks" by simp_all
  have e: "entries (raise_tombstone ep k (f k) s) = (entries s)(k := None)"
    and t: "map_option ts_counter (tombstones (raise_tombstone ep k (f k) s) k') =
      (if k' = k then Some (case tombstones s k of None \<Rightarrow> f k | Some t \<Rightarrow> max (ts_counter t) (f k))
       else map_option ts_counter (tombstones s k'))" for k'
    by (simp_all add: raise_tombstone_def split: option.split)
  have t': "tombstones (raise_tombstone ep k (f k) s) k' = tombstones s k'" if "k' \<noteq> k" for k'
    using that by (simp add: raise_tombstone_def)
  note IH = Cons.IH [OF k(2), of "raise_tombstone ep k (f k) s"]
  have "entries (fold (\<lambda>k s'. raise_tombstone ep k (f k) s') (k # ks) s) =
      (\<lambda>k'. if k' \<in> set (k # ks) then None else entries s k')"
    using conjunct1 [OF IH] e by (simp add: fun_eq_iff)
  moreover have "map_option ts_counter (tombstones (fold (\<lambda>k s'. raise_tombstone ep k (f k) s') (k # ks) s) k') =
      (if k' \<in> set (k # ks) then Some (case tombstones s k' of None \<Rightarrow> f k' | Some t \<Rightarrow> max (ts_counter t) (f k'))
       else map_option ts_counter (tombstones s k'))" for k'
  proof (cases "k' = k")
    case True
    then show ?thesis using spec [OF conjunct2 [OF IH], of k] k(1) t [of k] by auto
  next
    case False
    then show ?thesis using spec [OF conjunct2 [OF IH], of k'] t' [OF False] by simp
  qed
  ultimately show ?case by blast
qed

text \<open>C38: Purging is safe. It drops only dots that expired at least a day before, so every membership
  query from that day on is unaffected, and it leaves a removed counter at or above each dropped
  dot, so no late or replayed delta of such a dot is merged again.\<close>

theorem purge_expired_safe:
  assumes fin: "finite (dom (entries s))"
  shows "(\<forall>k e. entries s k = Some e \<longrightarrow>
      (entries (purge_expired now s) k = None \<longleftrightarrow>
         unat (fst (snd (snd e))) + unat tombstone_horizon_ms \<le> unat now)) \<and>
    (\<forall>now'. now \<le> now' \<longrightarrow> bl_is_blocked ip now' (purge_expired now s) = bl_is_blocked ip now' s) \<and>
    (\<forall>d e. entries s (bd_key d) = Some e \<and> entries (purge_expired now s) (bd_key d) = None \<and>
       dot_counter (bd_dot d) \<le> fst e \<longrightarrow> \<not> needs_merge_delta d (purge_expired now s))"
proof -
  let ?X = "{k \<in> dom (entries s). sat_sub now (fst (snd (snd (the (entries s k))))) \<ge> tombstone_horizon_ms}"
  let ?ks = "sorted_list_of_set ?X"
  have fX: "finite ?X" using fin by simp
  have p: "purge_expired now s = fold (\<lambda>k s'. raise_tombstone (current_ack_epoch s) k
      (fst (the (entries s k))) s') ?ks s"
    by (simp add: purge_expired_def Let_def)
  have dk: "distinct ?ks" by simp
  note r = raise_tombstones [OF dk, of "current_ack_epoch s" "\<lambda>k. fst (the (entries s k))" s, folded p]
  have e: "entries (purge_expired now s) k = (if k \<in> ?X then None else entries s k)" for k
    using r fX by (simp del: sorted_list_of_set_nonempty)
  have late: "sat_sub now x \<ge> tombstone_horizon_ms \<longleftrightarrow> unat x + unat tombstone_horizon_ms \<le> unat now"
    for x :: u64
    unfolding word_le_nat_alt unat_sat_sub by (simp add: tombstone_horizon_ms_def) linarith
  have "entries s k = Some st \<Longrightarrow> (entries (purge_expired now s) k = None \<longleftrightarrow>
      unat (fst (snd (snd st))) + unat tombstone_horizon_ms \<le> unat now)" for k st
    by (auto simp: e late)
  moreover have "bl_is_blocked ip now' (purge_expired now s) = bl_is_blocked ip now' s" if "now \<le> now'" for now'
  proof -
    have "\<not> now' < x" if "sat_sub now x \<ge> tombstone_horizon_ms" for x
      using that [unfolded late] \<open>now \<le> now'\<close> unfolding word_less_nat_alt word_le_nat_alt by linarith
    then have gone: "k \<in> ?X \<Longrightarrow> \<not> now' < fst (snd (snd (the (entries s k))))" for k by blast
    have "(k \<in> dom (entries (purge_expired now s)) \<and> fst k = ip \<and>
          now' < fst (snd (snd (the (entries (purge_expired now s) k))))) \<longleftrightarrow>
        (k \<in> dom (entries s) \<and> fst k = ip \<and> now' < fst (snd (snd (the (entries s k)))))" for k
      using gone [of k] by (cases "k \<in> ?X") (auto simp: e dom_def)
    then show ?thesis unfolding bl_is_blocked_def by blast
  qed
  moreover have "\<not> needs_merge_delta d (purge_expired now s)"
    if "entries s (bd_key d) = Some st" "entries (purge_expired now s) (bd_key d) = None"
      "dot_counter (bd_dot d) \<le> fst st" for d st
  proof -
    have "bd_key d \<in> set ?ks" using that(1,2) fX e [of "bd_key d"] by (auto split: if_splits)
    then have "map_option ts_counter (tombstones (purge_expired now s) (bd_key d)) =
        Some (case tombstones s (bd_key d) of None \<Rightarrow> fst st | Some t \<Rightarrow> max (ts_counter t) (fst st))"
      using spec [OF conjunct2 [OF r], of "bd_key d"] by (simp only: that(1) option.sel if_True)
    then obtain tb where "tombstones (purge_expired now s) (bd_key d) = Some tb" "fst st \<le> ts_counter tb"
      by (auto split: option.splits)
    then show ?thesis using that(3) by (auto simp: needs_merge_delta_def)
  qed
  ultimately show ?thesis by blast
qed

theorem purge_expired_safe_witness:
  "\<not> needs_merge_delta (demo_ban 2) (purge_expired 86400100
     (fold deliver [(0, Ban (demo_ban 2))] (blocklist_new 1 7)))"
proof -
  let ?s = "fold deliver [(0, Ban (demo_ban 2))] (blocklist_new 1 7)"
  have e: "entries ?s (bd_key (demo_ban 2)) = Some (2, 10, 100, 1)"
    by (simp add: deliver_def merge_delta_entries needs_merge_delta_def blocklist_new_def
        demo_ban_def bd_key_def bd_state_def dot_invalid_def)
  note p = purge_expired_safe [OF run_new_finite(1), of "[(0, Ban (demo_ban 2))]" 1 7 86400100]
  have "entries (purge_expired 86400100 ?s) (bd_key (demo_ban 2)) = None"
    using p e by (simp add: tombstone_horizon_ms_def)
  moreover have "dot_counter (bd_dot (demo_ban 2)) \<le> fst (2 :: u64, 10 :: u64, 100 :: u64, 1 :: u8)"
    by (simp add: demo_ban_def)
  ultimately show ?thesis using p e by blast
qed

section \<open>Collection of tombstones\<close>

lemma ack_epoch_le_current:
  assumes "finite (dom (peer_acks s))" "peer_acks s p = Some e"
  shows "ack_epoch e \<le> current_ack_epoch s"
proof -
  have "p \<in> dom (peer_acks s)" using assms(2) by blast
  then have "ack_epoch (the (peer_acks s p)) \<in> (\<lambda>p. ack_epoch (the (peer_acks s p))) ` dom (peer_acks s)"
    by (rule imageI)
  moreover have "dom (peer_acks s) \<noteq> {}" using assms(2) by blast
  ultimately show ?thesis
    using Max_ge [OF finite_imageI [OF assms(1)]] assms(2) by (simp add: current_ack_epoch_def)
qed

lemma gc_removed:
  assumes "tombstones s k = Some t" "tombstones (gc_tombstones s) k = None"
  shows "expected_peers s \<noteq> {} \<and> (\<forall>p\<in>expected_peers s. acked_past p (created_at_epoch t) s) \<and>
    (fst (snd k) = bl_node_id s \<or> acked_past (fst (snd k)) (created_at_epoch t) s)"
  using assms by (auto simp: gc_tombstones_def retain_tombstone_def split: if_splits)

text \<open>C33: What collection guarantees for a first removal. If a tombstone was created on a key that had
  none, and a later collection drops it while its stamp is unchanged, then every declared peer has
  acknowledged since: its acknowledgment epoch is strictly above the one it had when the removal
  was recorded.\<close>

theorem gc_waits_for_acknowledgment:
  assumes fin: "finite (dom (peer_acks s0))"
    and first: "tombstones s0 (ud_key u) = None" "\<not> dot_invalid (ud_dot u)"
    and t0: "tombstones (snd (merge_unblock_delta w u s0)) (ud_key u) = Some t0"
    and later: "tombstones s (ud_key u) = Some t" "created_at_epoch t = created_at_epoch t0"
    and dropped: "tombstones (gc_tombstones s) (ud_key u) = None"
    and p: "p \<in> expected_peers s"
  shows "\<exists>e. peer_acks s p = Some e \<and>
    (\<forall>e0. peer_acks s0 p = Some e0 \<longrightarrow> ack_epoch e0 < ack_epoch e)"
proof -
  have c: "created_at_epoch t = current_ack_epoch s0"
    using t0 first later(2) by (auto simp: merge_unblock_tombstones)
  have "acked_past p (created_at_epoch t) s" using gc_removed [OF later(1) dropped] p by blast
  then obtain e where "peer_acks s p = Some e" "current_ack_epoch s0 < ack_epoch e"
    unfolding c by (auto simp: acked_past_def split: option.splits)
  then show ?thesis
    using ack_epoch_le_current [OF fin] le_less_trans by blast
qed

definition gc_demo :: blocklist where
  "gc_demo = set_expected_peers [2] (blocklist_new 1 7)"

definition ack2 :: "u64 \<Rightarrow> blocklist \<Rightarrow> blocklist" where
  "ack2 lsn s = snd (peer_acknowledged 5 2 lsn s)"

lemmas gc_demo_simps =
  gc_demo_def ack2_def set_expected_peers_def blocklist_new_def peer_acknowledged_def
  checked_add_def sat_add_def merge_unblock_tombstones merge_unblock_entries merge_delta_entries
  demo_unban_def demo_ban_def ud_key_def bd_key_def dot_invalid_def current_ack_epoch_def
  gc_tombstones_def retain_tombstone_def acked_past_def needs_merge_delta_def bd_state_def

lemma merge_peer_fields [simp]:
  "peer_acks (snd (merge_unblock_delta w u s)) = peer_acks s"
  "expected_peers (snd (merge_unblock_delta w u s)) = expected_peers s"
  "bl_node_id (snd (merge_unblock_delta w u s)) = bl_node_id s"
  "peer_acks (snd (merge_delta w d s)) = peer_acks s"
  "expected_peers (snd (merge_delta w d s)) = expected_peers s"
  "bl_node_id (snd (merge_delta w d s)) = bl_node_id s"
  by (simp_all add: merge_unblock_delta_def merge_delta_def Let_def split: option.split)

theorem gc_waits_for_acknowledgment_witness:
  "\<exists>e. peer_acks (ack2 4 (snd (merge_unblock_delta 0 (demo_unban 1) gc_demo))) 2 = Some e \<and>
     (\<forall>e0. peer_acks gc_demo 2 = Some e0 \<longrightarrow> ack_epoch e0 < ack_epoch e)"
proof (rule gc_waits_for_acknowledgment [where u = "demo_unban 1" and w = 0
      and ?t0.0 = "\<lparr>ts_counter = 1, created_at_epoch = 0\<rparr>" and t = "\<lparr>ts_counter = 1, created_at_epoch = 0\<rparr>"])
  show "finite (dom (peer_acks gc_demo))" by (simp add: gc_demo_simps)
  show "tombstones gc_demo (ud_key (demo_unban 1)) = None" by (simp add: gc_demo_simps)
  show "\<not> dot_invalid (ud_dot (demo_unban 1))" by (simp add: gc_demo_simps)
  show "tombstones (snd (merge_unblock_delta 0 (demo_unban 1) gc_demo)) (ud_key (demo_unban 1)) =
      Some \<lparr>ts_counter = 1, created_at_epoch = 0\<rparr>"
    by (simp add: gc_demo_simps)
  show "tombstones (ack2 4 (snd (merge_unblock_delta 0 (demo_unban 1) gc_demo))) (ud_key (demo_unban 1)) =
      Some \<lparr>ts_counter = 1, created_at_epoch = 0\<rparr>"
    by (simp add: gc_demo_simps)
  show "tombstones (gc_tombstones (ack2 4 (snd (merge_unblock_delta 0 (demo_unban 1) gc_demo))))
      (ud_key (demo_unban 1)) = None"
    by (simp add: gc_demo_simps)
  show "2 \<in> expected_peers (ack2 4 (snd (merge_unblock_delta 0 (demo_unban 1) gc_demo)))"
    by (simp add: gc_demo_simps)
qed simp_all

text \<open>C32: Collection does not wait for a repeated removal. When a removal raises an existing tombstone,
  the tombstone keeps the stamp of the first removal; once all declared peers have acknowledged
  that one, the next collection drops the raised tombstone although no peer has acknowledged
  anything since the new removal, and a peer that still gossips the removed ban brings it back.\<close>

theorem gc_drops_unacknowledged_removal:
  assumes "tombstones s k = Some t" "ud_key u = k" "\<not> dot_invalid (ud_dot u)"
    and "ts_counter t < dot_counter (ud_dot u)"
    and "expected_peers s \<noteq> {}" "\<forall>p\<in>expected_peers s. acked_past p (created_at_epoch t) s"
    and "fst (snd k) = bl_node_id s \<or> fst (snd k) \<in> expected_peers s"
    and "s' = gc_tombstones (snd (merge_unblock_delta w u s))"
    and "bd_key d = k" "\<not> dot_invalid (bd_dot d)" "dot_counter (bd_dot d) = dot_counter (ud_dot u)"
    and "\<forall>e. entries s k = Some e \<longrightarrow> fst e \<le> dot_counter (ud_dot u)"
  shows "peer_acks s' = peer_acks s \<and> tombstones s' k = None \<and>
    \<not> needs_merge_delta d (snd (merge_unblock_delta w u s)) \<and>
    needs_merge_delta d s' \<and> entries (snd (merge_delta w d s')) k = Some (bd_state d)"
proof -
  let ?m = "snd (merge_unblock_delta w u s)"
  have t: "tombstones ?m k = Some (t\<lparr>ts_counter := dot_counter (ud_dot u)\<rparr>)"
    using assms(1-4) by (simp add: merge_unblock_tombstones)
  have en: "entries ?m k = None"
    using assms(2,3,12) by (cases "entries s k") (auto simp: merge_unblock_entries)
  have past: "acked_past p 0 s" if "acked_past p c s" for p c
    using that by (auto simp: acked_past_def split: option.splits) (metis le_less_trans word_coorder.extremum)
  have ap: "acked_past p c ?m = acked_past p c s" for p c by (simp add: acked_past_def)
  have "tombstones s' k = None" and es: "entries s' = entries ?m" and "peer_acks s' = peer_acks s"
    using assms(5,6,7) t past unfolding assms(8)
    by (auto simp: gc_tombstones_def retain_tombstone_def ap)
  moreover have "\<not> needs_merge_delta d ?m" using t assms(9,11) by (simp add: needs_merge_delta_def)
  ultimately show ?thesis
    using en assms(9,10) by (simp add: needs_merge_delta_def merge_delta_entries)
qed

theorem gc_drops_unacknowledged_removal_witness:
  "needs_merge_delta (demo_ban 5) (gc_tombstones (snd (merge_unblock_delta 0 (demo_unban 5)
     (snd (merge_delta 0 (demo_ban 5) (ack2 4 (snd (merge_unblock_delta 0 (demo_unban 1) gc_demo))))))))"
proof -
  let ?s = "snd (merge_delta 0 (demo_ban 5) (ack2 4 (snd (merge_unblock_delta 0 (demo_unban 1) gc_demo))))"
  have t: "tombstones ?s (V4 9, 1, 7) = Some \<lparr>ts_counter = 1, created_at_epoch = 0\<rparr>"
    by (simp add: gc_demo_simps)
  have e: "entries ?s (V4 9, 1, 7) = Some (5, 10, 100, 1)"
    by (simp add: gc_demo_simps word_le_nat_alt)
  have x: "expected_peers ?s = {2}" "bl_node_id ?s = 1" "acked_past 2 0 ?s"
    by (simp_all add: gc_demo_simps)
  show ?thesis
    using gc_drops_unacknowledged_removal [OF t, of "demo_unban 5" _ 0 "demo_ban 5"] e x
    by (simp add: demo_unban_def demo_ban_def ud_key_def bd_key_def dot_invalid_def)
qed

section \<open>The string-keyed set\<close>

text \<open>The generic string set is remove-wins, not add-wins. After a merge a key is contained exactly
  if one side has it and no side holds a tombstone for it; in particular a key that one replica
  re-added after removing it is lost when merged with a replica that only knows the removal.\<close>

theorem ss_merge_remove_wins:
  "(ss_contains key (ss_merge b a) \<longleftrightarrow>
     (key \<in> ss_elements a \<or> key \<in> ss_elements b) \<and> key \<notin> ss_tombstones a \<and> key \<notin> ss_tombstones b) \<and>
   ss_contains key (ss_add key (ss_remove key a)) \<and>
   \<not> ss_contains key (ss_merge (ss_remove key b) (ss_add key (ss_remove key a)))"
  by (auto simp: ss_contains_def ss_merge_def ss_add_def ss_remove_def)

end
