(* ===== verification/Storage_Wal.thy ===== *)
theory Storage_Wal
  imports Types Ramwal_Props
begin

text \<open>
  The adapter between RamShield and the write-ahead log: \<^verbatim>\<open>crates/ramshield-storage/src/wal.rs\<close>.

  An adapter holds the open log (always present once opened) and the configuration it was opened
  with; the directory is the \<open>disk\<close> of the log. The JSON coding of entries (crate \<^verbatim>\<open>serde_json\<close>) is a pair
  of parameters \<open>enc\<close>/\<open>dec\<close> whose failure is a text, and \<open>serde_ok\<close> is what the adapter relies on: decoding
  inverts encoding. The methods that take the adapter's mutex block when a call that holds it never
  returned. Tracing is not modelled.
\<close>

section \<open>Entries\<close>

datatype mesh_action = MeshBlock | MeshUnblock

record mesh_mutation =
  schema_version :: u16
  origin_node_id :: u32
  origin_incarnation :: string
  origin_counter :: u64
  mm_ip :: string
  mm_action :: mesh_action
  mm_created_at_ms :: u64
  mm_expires_at_ms :: "u64 option"
  mm_tier :: u8
  mm_signature :: "string option"
  mm_ts_ns :: u64

datatype wal_entry =
    EBlockIp string string "u64 option" u64
  | EUnblockIp string u64
  | EBlockCidr ip_network string "u64 option" u64
  | EUnblockCidr ip_network u64
  | EInsert string string "u64 option" u64
  | EDelete string u64
  | EMeshMutation mesh_mutation
  | ECheckpoint string u64

type_synonym enc = "wal_entry \<Rightarrow> string + bytes"
type_synonym dec = "bytes \<Rightarrow> string + wal_entry"

definition serde_ok :: "enc \<Rightarrow> dec \<Rightarrow> bool" where
  "serde_ok enc dec \<longleftrightarrow> (\<forall>e b. enc e = Inr b \<longrightarrow> dec b = Inr e)"

definition encode_entry :: "enc \<Rightarrow> wal_entry \<Rightarrow> rs_error + bytes" where
  "encode_entry enc e = (case enc e of Inl m \<Rightarrow> Inl (Serde m) | Inr b \<Rightarrow> Inr b)"

fun decode_records :: "dec \<Rightarrow> recovered list \<Rightarrow> rs_error + wal_entry list" where
  "decode_records dec [] = Inr []"
| "decode_records dec (r # rs) =
     (case dec (snd r) of
        Inl m \<Rightarrow> Inl (Serde m)
      | Inr e \<Rightarrow> (case decode_records dec rs of Inl x \<Rightarrow> Inl x | Inr es \<Rightarrow> Inr (e # es)))"

definition decode_all :: "dec \<Rightarrow> recovery_report \<Rightarrow> rs_error + wal_entry list" where
  "decode_all dec rep = decode_records dec (rr_records rep)"

text \<open>The same with the sequence number of each record.\<close>

fun decode_lsn_records :: "dec \<Rightarrow> recovered list \<Rightarrow> rs_error + (u64 \<times> wal_entry) list" where
  "decode_lsn_records dec [] = Inr []"
| "decode_lsn_records dec (r # rs) =
     (case dec (snd r) of
        Inl m \<Rightarrow> Inl (Serde m)
      | Inr e \<Rightarrow> (case decode_lsn_records dec rs of Inl x \<Rightarrow> Inl x | Inr es \<Rightarrow> Inr ((fst r, e) # es)))"

section \<open>Errors\<close>

definition lsn_debug :: "u64 \<Rightarrow> string" where
  "lsn_debug l = ''Lsn('' @ dec_string (unat l) @ '')''"

fun tail_debug :: "tail_state \<Rightarrow> string" where
  "tail_debug TailClean = ''Clean''"
| "tail_debug (PartialHeader off) = ''PartialHeader { offset: '' @ dec_string off @ '' }''"
| "tail_debug (PartialPayload off ex av) =
     ''PartialPayload { offset: '' @ dec_string off @ '', expected: '' @ dec_string (unat ex) @
     '', available: '' @ dec_string (unat av) @ '' }''"

fun io_text :: "io_error \<Rightarrow> string" where
  "io_text StorageFull = ''No space left on device (os error 28)''"
| "io_text (OtherIo m) = m"

definition map_durability :: "Types.durability \<Rightarrow> Ramwal_Wal.durability" where
  "map_durability d =
     (case d of DurNone \<Rightarrow> Buffered | DurFlush \<Rightarrow> Explicit | DurFsync \<Rightarrow> SyncEach | DurGroupCommit \<Rightarrow> GroupCommit)"

fun map_error :: "wal_error \<Rightarrow> rs_error" where
  "map_error (Io e) = IoError (io_text e)"
| "map_error Poisoned = IoError ''WAL poisoned''"
| "map_error DiskFull = IoError ''disk full''"
| "map_error Closed = IoError ''WAL closed''"
| "map_error (InvalidConfiguration m) = IoError m"
| "map_error LsnExhausted = IoError ''LSN sequence exhausted''"
| "map_error (Corruption s off r) = CorruptWal (of_nat off)"
| "map_error (Tail s t) = IoError (''WAL tail state in segment '' @ dec_string (unat s) @ '': '' @ tail_debug t)"
| "map_error (Manifest m) = IoError (''manifest: '' @ m)"
| "map_error (CheckpointRequired r c) =
     IoError (''checkpoint required: requested='' @ lsn_debug r @ '' checkpoint='' @ lsn_debug c)"
| "map_error (CheckpointNotDurable r d) =
     IoError (''checkpoint not durable: requested='' @ lsn_debug r @ '' durable='' @ lsn_debug d)"
| "map_error (CheckpointRegression c r) =
     IoError (''checkpoint regression: current='' @ lsn_debug c @ '' requested='' @ lsn_debug r)"

definition map_err :: "('a, wal_error) outcome \<Rightarrow> ('a, rs_error) outcome" where
  "map_err r = map_outcome id map_error r"

fun contains_str :: "string \<Rightarrow> string \<Rightarrow> bool" where
  "contains_str p [] = (p = [])"
| "contains_str p (c # cs) = (take (length p) (c # cs) = p \<or> contains_str p cs)"

section \<open>The adapter\<close>

record adapter =
  ad_inner :: "wal option"
  ad_cfg :: config

type_synonym 'a ad_run = "('a, rs_error) outcome \<times> adapter \<times> disk"

text \<open>A call blocked inside the log still holds the adapter's mutex.\<close>

definition ad_blocked :: "adapter \<Rightarrow> bool" where
  "ad_blocked a = (case ad_inner a of None \<Rightarrow> False | Some g \<Rightarrow> locked g)"

text \<open>\<^verbatim>\<open>match guard.as_ref()\<close>: run a method of the log, or report the missing handle.\<close>

definition with_log :: "(wal \<Rightarrow> disk \<Rightarrow> ('a, rs_error) outcome \<times> wal \<times> disk) \<Rightarrow> adapter \<Rightarrow> disk \<Rightarrow> 'a ad_run" where
  "with_log f a w =
     (case ad_inner a of
        None \<Rightarrow> (Err (IoError ''WAL poisoned''), a, w)
      | Some g \<Rightarrow>
          if locked g then (Deadlock, a, w)
          else (case f g w of (r, g, w) \<Rightarrow> (r, a\<lparr>ad_inner := Some g\<rparr>, w)))"

definition wal_config :: "bool \<Rightarrow> Types.durability \<Rightarrow> nat \<Rightarrow> nat \<Rightarrow> config" where
  "wal_config cmp d seg_bytes retention =
     config_new\<lparr>c_durability := map_durability d, c_compression := (if cmp then Lz4 else NoCompression),
       seg_max_bytes := seg_bytes, retention_max_bytes := retention\<rparr>"

definition guard_new ::
  "(bytes \<Rightarrow> u32) \<Rightarrow> (bytes \<Rightarrow> string + bytes) \<Rightarrow> config \<Rightarrow> disk \<Rightarrow> (rs_error + adapter) \<times> disk" where
  "guard_new crc dz c w =
     (case open_log crc dz c w of
        (Inl e, w) \<Rightarrow> (Inl (map_error e), w)
      | (Inr g, w) \<Rightarrow> (Inr \<lparr>ad_inner = Some g, ad_cfg = c\<rparr>, w))"

definition ad_open ::
  "(bytes \<Rightarrow> u32) \<Rightarrow> (bytes \<Rightarrow> string + bytes) \<Rightarrow> bool \<Rightarrow> Types.durability \<Rightarrow> nat \<Rightarrow> nat \<Rightarrow> disk \<Rightarrow> (rs_error + adapter) \<times> disk" where
  "ad_open crc dz cmp d seg_bytes retention w = guard_new crc dz (wal_config cmp d seg_bytes retention) w"

text \<open>Replacing the handle drops the old log; its \<^verbatim>\<open>BufWriter\<close> then writes what is still buffered to the segment it has
  open, which is after the new log scanned it, and ignores a failure.\<close>

definition drop_log :: "adapter \<Rightarrow> disk \<Rightarrow> disk" where
  "drop_log a w = (case ad_inner a of None \<Rightarrow> w | Some g \<Rightarrow> snd (snd (flush_buf g w)))"

definition reopen :: "(bytes \<Rightarrow> u32) \<Rightarrow> (bytes \<Rightarrow> string + bytes) \<Rightarrow> adapter \<Rightarrow> disk \<Rightarrow> unit ad_run" where
  "reopen crc dz a w =
     (case open_log crc dz (ad_cfg a) w of
        (Inl e, w) \<Rightarrow> (Err (map_error e), a, w)
      | (Inr g, w) \<Rightarrow> if ad_blocked a then (Deadlock, a, w) else (Ok (), a\<lparr>ad_inner := Some g\<rparr>, drop_log a w))"

definition ad_is_poisoned :: "adapter \<Rightarrow> (bool, rs_error) outcome" where
  "ad_is_poisoned a = (if ad_blocked a then Deadlock else Ok (ad_inner a = None))"

definition append_error :: "wal_error \<Rightarrow> rs_error" where
  "append_error e =
     (case e of
        InvalidConfiguration m \<Rightarrow> if contains_str ''exceeds max'' m then IoError m else map_error e
      | _ \<Rightarrow> map_error e)"

definition ad_append ::
  "(bytes \<Rightarrow> u32) \<Rightarrow> (bytes \<Rightarrow> bytes) \<Rightarrow> enc \<Rightarrow> u64 \<Rightarrow> wal_entry \<Rightarrow> adapter \<Rightarrow> disk \<Rightarrow> u64 ad_run" where
  "ad_append crc compress enc now e a w =
     (case encode_entry enc e of
        Inl x \<Rightarrow> (Err x, a, w)
      | Inr payload \<Rightarrow>
          with_log (\<lambda>g w. case wal_append crc compress now payload g w of
                       (Err x, g, w) \<Rightarrow> (Err (append_error x), g, w)
                     | (r, g, w) \<Rightarrow> (map_err r, g, w)) a w)"

definition ad_flush :: "adapter \<Rightarrow> disk \<Rightarrow> unit ad_run" where
  "ad_flush a w = with_log (\<lambda>g w. case flush g w of (r, g, w) \<Rightarrow> (map_err r, g, w)) a w"

definition ad_sync :: "adapter \<Rightarrow> disk \<Rightarrow> unit ad_run" where
  "ad_sync a w = with_log (\<lambda>g w. case sync g w of (r, g, w) \<Rightarrow> (map_err r, g, w)) a w"

definition append_is_durable :: "adapter \<Rightarrow> bool" where
  "append_is_durable a = (c_durability (ad_cfg a) = SyncEach)"

definition ad_durable_lsn :: "adapter \<Rightarrow> (u64, rs_error) outcome" where
  "ad_durable_lsn a = (case ad_inner a of None \<Rightarrow> Ok 0 | Some g \<Rightarrow> map_err (durable_lsn g))"

section \<open>Replay\<close>

definition ad_report ::
  "recovery_report io \<Rightarrow> (recovery_report \<Rightarrow> rs_error + 'a) \<Rightarrow> (rs_error + 'a) \<times> disk" where
  "ad_report m k = (case m of (Inl e, w) \<Rightarrow> (Inl (map_error e), w) | (Inr rep, w) \<Rightarrow> (k rep, w))"

definition replay :: "(bytes \<Rightarrow> u32) \<Rightarrow> (bytes \<Rightarrow> string + bytes) \<Rightarrow> dec \<Rightarrow> disk \<Rightarrow> (rs_error + wal_entry list) \<times> disk" where
  "replay crc dz dec w = ad_report (verify_dir crc dz w) (decode_all dec)"

definition replay_dir :: "(bytes \<Rightarrow> u32) \<Rightarrow> (bytes \<Rightarrow> string + bytes) \<Rightarrow> dec \<Rightarrow> disk \<Rightarrow> (rs_error + wal_entry list) \<times> disk" where
  "replay_dir crc dz dec w = ad_report (recover_dir crc dz w) (decode_all dec)"

definition newer :: "u64 \<Rightarrow> recovery_report \<Rightarrow> recovered list" where
  "newer l rep = filter (\<lambda>r. fst r > l) (rr_records rep)"

definition replay_from ::
  "(bytes \<Rightarrow> u32) \<Rightarrow> (bytes \<Rightarrow> string + bytes) \<Rightarrow> dec \<Rightarrow> u64 \<Rightarrow> disk \<Rightarrow> (rs_error + wal_entry list) \<times> disk" where
  "replay_from crc dz dec l w =
     (if l = 0 then replay crc dz dec w
      else ad_report (verify_dir crc dz w) (\<lambda>rep. decode_records dec (newer l rep)))"

definition replay_with_lsn_page ::
  "(bytes \<Rightarrow> u32) \<Rightarrow> (bytes \<Rightarrow> string + bytes) \<Rightarrow> dec \<Rightarrow> u64 \<Rightarrow> usize \<Rightarrow> disk \<Rightarrow>
   (rs_error + (u64 \<times> wal_entry) list \<times> bool) \<times> disk" where
  "replay_with_lsn_page crc dz dec l limit w =
     (if limit = 0 then (Inl (IoError ''WAL replay page limit must be non-zero''), w)
      else ad_report (verify_dir crc dz w) (\<lambda>rep.
        let selected = take (unat (sat_add limit 1)) (newer l rep);
            has_more = length selected > unat limit;
            selected = (if has_more then butlast selected else selected)
        in case decode_lsn_records dec selected of Inl e \<Rightarrow> Inl e | Inr es \<Rightarrow> Inr (es, has_more)))"

definition replay_with_lsn_from ::
  "(bytes \<Rightarrow> u32) \<Rightarrow> (bytes \<Rightarrow> string + bytes) \<Rightarrow> dec \<Rightarrow> u64 \<Rightarrow> disk \<Rightarrow> (rs_error + (u64 \<times> wal_entry) list) \<times> disk" where
  "replay_with_lsn_from crc dz dec l w =
     ad_report (verify_dir crc dz w) (\<lambda>rep. decode_lsn_records dec (newer l rep))"

section \<open>Checkpoints\<close>

definition begin_checkpoint :: "adapter \<Rightarrow> (u64, rs_error) outcome" where
  "begin_checkpoint a = (case ad_inner a of None \<Rightarrow> Ok 0 | Some g \<Rightarrow> map_err (current_lsn g))"

definition finish_log :: "u64 \<Rightarrow> wal \<Rightarrow> disk \<Rightarrow> (u64, rs_error) outcome \<times> wal \<times> disk" where
  "finish_log l g w =
     (case sync g w of
        (Ok _, g, w) \<Rightarrow>
          (case checkpoint l g w of
             (Ok _, g, w) \<Rightarrow>
               (case truncate_before l g w of
                  (Panic, g, w) \<Rightarrow> (Panic, g, w)
                | (Deadlock, g, w) \<Rightarrow> (Deadlock, g, w)
                | (_, g, w) \<Rightarrow> (Ok l, g, w))
           | (r, g, w) \<Rightarrow> (map_outcome (\<lambda>_. l) map_error r, g, w))
      | (r, g, w) \<Rightarrow> (map_outcome (\<lambda>_. l) map_error r, g, w))"

definition finish_checkpoint :: "u64 \<Rightarrow> adapter \<Rightarrow> disk \<Rightarrow> u64 ad_run" where
  "finish_checkpoint l a w = with_log (finish_log l) a w"

definition ad_ckpt_lsn :: "adapter \<Rightarrow> (u64, rs_error) outcome" where
  "ad_ckpt_lsn a =
     (if ad_blocked a then Deadlock else Ok (case ad_inner a of None \<Rightarrow> 0 | Some g \<Rightarrow> w_ckpt g))"

definition snapshot_lsn :: "adapter \<Rightarrow> (u64, rs_error) outcome" where
  "snapshot_lsn a = ad_ckpt_lsn a"

definition oldest_lsn :: "adapter \<Rightarrow> (u64 option, rs_error) outcome" where
  "oldest_lsn a =
     (if ad_blocked a then Deadlock
      else Ok (Option.bind (ad_inner a) (\<lambda>g. rr_first (rec_report (w_recovery g)))))"

definition take_segments_pruned :: u64 where
  "take_segments_pruned = 0"

section \<open>Replay in order\<close>

lemma scan_segs_asc:
  assumes "scan_segs crc dz repair ids rep w = (Inr rep2, w2)"
  shows "\<exists>its. asc (rr_last rep) (map fst its) \<and> rr_records rep2 = rr_records rep @ map (item_rec dz) its"
  using assms
proof (induction ids arbitrary: rep w)
  case Nil
  then show ?case by (auto intro!: exI [of _ "[]"])
next
  case (Cons i ids)
  obtain rep1 w1 where one: "scan_one crc dz repair (ids = []) i rep w = (Inr rep1, w1)"
    and rest: "scan_segs crc dz repair ids rep1 w1 = (Inr rep2, w2)"
    using Cons.prems by (auto simp: bind_io_def split: prod.splits sum.splits)
  from scan_one_inv [OF one] obtain r where
    r: "scan_segment crc dz None i 0 (rr_last rep) (rr_records rep) (content_of (contents w) i) = Inr r"
    and tr: "sr_truncate r \<Longrightarrow> ids = []" by blast
  from scan_sound_gen [OF r] obtain its where
    its: "asc (rr_last rep) (map fst its)" "sr_prev r = last_of (rr_last rep) (map fst its)"
      "sr_out r = rr_records rep @ map (item_rec dz) its"
    by (auto simp: scan_post_def)
  from scan_one_good [OF r tr one]
  have rep1: "rep1 = segment_done repair (ids = []) i (length (content_of (contents w) i)) r rep" by auto
  note fin = segment_done_fields [OF its(3), of repair "ids = []" i "length (content_of (contents w) i)", folded rep1]
  from Cons.IH [OF rest] obtain its' where
    "asc (rr_last rep1) (map fst its')" "rr_records rep2 = rr_records rep1 @ map (item_rec dz) its'" by blast
  with its fin show ?case by (intro exI [of _ "its @ its'"]) (simp add: asc_append)
qed

lemma verify_dir_sorted:
  assumes "verify_dir crc dz w = (Inr rep, w2)"
  shows "sorted_wrt (<) (map fst (rr_records rep))"
  using assms unfolding verify_dir_def scan_dir_def
proof (cases rule: try_sys_cases)
  case (ok w1)
  then obtain rep1 where r1: "scan_segs crc dz False (map fst (segs w1)) (empty_report (length (segs w1))) w1 = (Inr rep1, w2)"
    and r2: "rr_records rep = rr_records rep1"
    by (auto simp: Let_def bind_io_def split: prod.splits sum.splits)
  obtain its where its: "asc None (map fst its)" "rr_records rep1 = map (item_rec dz) its"
    using scan_segs_asc [OF r1] by (auto simp: empty_report_def)
  have "map fst (map (item_rec dz) its) = map fst its" by simp
  with its r2 show ?thesis by (simp only: asc_sorted)
qed auto

lemma decode_lsn_append:
  "decode_lsn_records dec (xs @ ys) = Inr es \<longleftrightarrow>
     (\<exists>as bs. decode_lsn_records dec xs = Inr as \<and> decode_lsn_records dec ys = Inr bs \<and> es = as @ bs)"
  by (induction xs arbitrary: es) (fastforce split: sum.splits)+

lemma decode_lsn_fst: "decode_lsn_records dec xs = Inr es \<Longrightarrow> map fst es = map fst xs"
  by (induction xs arbitrary: es) (auto split: sum.splits)

lemma filter_after:
  fixes rs :: "(u64 \<times> 'a) list"
  assumes "sorted_wrt (<) (map fst rs)" "n < length (filter (\<lambda>r. fst r > l) rs)"
  shows "filter (\<lambda>r. fst r > fst (filter (\<lambda>r. fst r > l) rs ! n)) rs = drop (Suc n) (filter (\<lambda>r. fst r > l) rs)"
proof -
  let ?R = "filter (\<lambda>r. fst r > l) rs"
  let ?m = "fst (?R ! n)"
  have so: "sorted_wrt (\<lambda>x y. fst x < fst y) ?R" using assms(1) by (simp add: sorted_wrt_map sorted_wrt_filter)
  have "?R ! n \<in> set ?R" using assms(2) by (rule nth_mem)
  then have m: "l < ?m" by simp
  have "filter (\<lambda>r. fst r > ?m) rs = filter (\<lambda>r. fst r > ?m) ?R"
    unfolding filter_filter by (rule filter_cong [OF refl]) (use m in \<open>auto intro: less_trans\<close>)
  also have "\<dots> = filter (\<lambda>r. fst r > ?m) (take (Suc n) ?R) @ filter (\<lambda>r. fst r > ?m) (drop (Suc n) ?R)"
    by (simp only: filter_append [symmetric] append_take_drop_id)
  also have "filter (\<lambda>r. fst r > ?m) (take (Suc n) ?R) = []"
  proof -
    have "\<not> ?m < fst x" if x: "x \<in> set (take (Suc n) ?R)" for x
    proof -
      obtain i where i: "i < Suc n" "x = ?R ! i" using x assms(2) by (auto simp: in_set_conv_nth)
      then consider "i < n" | "i = n" by linarith
      then show ?thesis
      proof cases
        case 1
        from sorted_wrt_nth_less [OF so this assms(2)] show ?thesis unfolding i(2) by (simp add: not_less)
      qed (simp add: i(2))
    qed
    then show ?thesis by (simp add: filter_empty_conv)
  qed
  also have "filter (\<lambda>r. fst r > ?m) (drop (Suc n) ?R) = drop (Suc n) ?R"
  proof -
    have "?m < fst x" if x: "x \<in> set (drop (Suc n) ?R)" for x
    proof -
      obtain i where i: "i < length ?R - Suc n" "x = ?R ! (Suc n + i)" using x by (auto simp: in_set_conv_nth)
      from sorted_wrt_nth_less [OF so, of n "Suc n + i"] i show ?thesis by simp
    qed
    then show ?thesis by (simp add: filter_True)
  qed
  finally show ?thesis by simp
qed

text \<open>C23: Paging through the log loses and repeats nothing. A page is what replay after the same position
  starts with, holds at most \<open>limit\<close> entries, and when it reports more, replay after the last sequence number of the
  page returns exactly the entries the page left out.\<close>

theorem replay_page_exact:
  assumes page: "fst (replay_with_lsn_page crc dz dec l limit w) = Inr (p, hm)" and lim: "limit \<noteq> - 1"
    and all: "fst (replay_with_lsn_from crc dz dec l w) = Inr es"
  shows "length p \<le> unat limit \<and>
    (if hm then \<exists>rest. fst (replay_with_lsn_from crc dz dec (fst (last p)) w) = Inr rest \<and> rest \<noteq> [] \<and> es = p @ rest
     else es = p)"
proof -
  obtain rep w2 where v: "verify_dir crc dz w = (Inr rep, w2)"
    using all by (auto simp: replay_with_lsn_from_def ad_report_def split: prod.splits sum.splits)
  let ?R = "newer l rep" and ?n = "unat limit"
  have z: "limit \<noteq> 0" using page by (auto simp: replay_with_lsn_page_def)
  then have n0: "0 < ?n" by (simp add: unat_gt_0)
  have sa: "unat (sat_add limit 1) = Suc ?n"
  proof -
    have "?n \<noteq> 2 ^ 64 - 1" using lim unat_max_word [where 'a = 64] by (simp add: word_eq_iff_unat)
    moreover have "?n < 2 ^ 64" using unat_lt2p [of limit] by simp
    ultimately show ?thesis by (simp add: unat_sat_add)
  qed
  have es: "decode_lsn_records dec ?R = Inr es" using all by (simp add: replay_with_lsn_from_def ad_report_def v)
  have so: "sorted_wrt (<) (map fst (rr_records rep))" by (rule verify_dir_sorted [OF v])
  show ?thesis
  proof (cases "?n < length ?R")
    case True
    then have bl: "butlast (take (Suc ?n) ?R) = take ?n ?R" by (simp add: butlast_take)
    have p: "decode_lsn_records dec (take ?n ?R) = Inr p" and more: hm
      using page True z by (auto simp: replay_with_lsn_page_def ad_report_def v sa Let_def bl split: sum.splits)
    have "decode_lsn_records dec (take ?n ?R @ drop ?n ?R) = Inr es" using es by simp
    then obtain bs where bs: "decode_lsn_records dec (drop ?n ?R) = Inr bs" "es = p @ bs"
      unfolding decode_lsn_append using p by auto
    have lp: "length p = ?n" using arg_cong [OF decode_lsn_fst [OF p], of length] True by simp
    have "p \<noteq> []" using lp n0 by (metis list.size(3) less_irrefl)
    then have "fst (last p) = last (map fst p)" by (simp add: last_map)
    also have "\<dots> = fst (?R ! (?n - 1))"
    proof -
      have "map fst (take ?n ?R) \<noteq> []" using True n0 by (auto simp del: unat_gt_0)
      from last_conv_nth [OF this] show ?thesis unfolding decode_lsn_fst [OF p] using True n0 by simp
    qed
    finally have "newer (fst (last p)) rep = drop ?n ?R"
      using filter_after [OF so, of "?n - 1" l] True n0 by (simp add: newer_def)
    then have "fst (replay_with_lsn_from crc dz dec (fst (last p)) w) = Inr bs"
      using bs(1) by (simp add: replay_with_lsn_from_def ad_report_def v)
    moreover have "bs \<noteq> []" using arg_cong [OF decode_lsn_fst [OF bs(1)], of length] True by auto
    ultimately show ?thesis using more bs(2) lp by simp
  next
    case False
    then have "p = es \<and> \<not> hm"
      using page z es by (auto simp: replay_with_lsn_page_def ad_report_def v sa Let_def split: sum.splits)
    moreover have "length es = length ?R" using arg_cong [OF decode_lsn_fst [OF es], of length] by simp
    ultimately show ?thesis using False by simp
  qed
qed

definition one_entry :: dec where
  "one_entry b = Inr (EDelete ''k'' 0)"

abbreviation two_records :: "(bytes \<Rightarrow> u32) \<Rightarrow> bytes" where
  "two_records crc \<equiv> encs crc [(1, [5], 0), (2, [5], 0)]"

lemma verify_two:
  "verify_dir crc dz (fresh_disk (two_records crc) n) =
     (Inr \<lparr>rr_first = Some 1, rr_last = Some 2, rr_records = [(1, [5]), (2, [5])], rr_segments = 1, rr_append = 48,
        rr_tail = TailClean, rr_repaired = False, rr_truncated = 0, rr_reports = [(1, Some 2)]\<rparr>,
      fresh_disk (two_records crc) n)"
proof -
  let ?its = "[(1, [5], 0), (2, [5], 0)] :: wal_item list"
  have ok: "list_all (item_ok dz) ?its" "asc None (map fst ?its)" by (simp_all add: item_ok_def decode_payload_def above_def)
  have len: "length (encs crc ?its) = 48" by (simp add: length_enc_item header_size_def)
  have "scan_segment crc dz None 1 0 None [] (encs crc ?its @ []) = scan_segment crc dz None 1 48 (Some 2) [(1, [5]), (2, [5])] []"
    unfolding scan_encs [OF ok] len by (simp add: item_rec_def decode_payload_def)
  then have "scan_segment crc dz None 1 0 None [] (encs crc ?its) =
      Inr \<lparr>sr_valid = 48, sr_truncate = False, sr_tail = TailClean, sr_prev = Some 2, sr_out = [(1, [5]), (2, [5])]\<rparr>"
    by (simp add: scan_segment.simps at_eof_def Let_def del: encs_simps)
  then show ?thesis
    by (simp add: verify_dir_def scan_dir_def try_sys_def sys_def fresh_disk_def bind_io_def scan_one_def Let_def
      seg_data_def repair_action_def segment_done_def empty_report_def del: encs_simps)
qed

text \<open>The witness pages through two entries, one at a time.\<close>

theorem replay_page_exact_witness:
  "let w = fresh_disk (two_records (\<lambda>_. 7)) 48; e = EDelete ''k'' 0 in
   fst (replay_with_lsn_page (\<lambda>_. 7) read_only one_entry 0 1 w) = Inr ([(1, e)], True) \<and>
   fst (replay_with_lsn_from (\<lambda>_. 7) read_only one_entry 0 w) = Inr [(1, e), (2, e)] \<and>
   fst (replay_with_lsn_from (\<lambda>_. 7) read_only one_entry 1 w) = Inr [(2, e)]"
proof -
  let ?w = "fresh_disk (two_records (\<lambda>_. 7)) 48" and ?e = "EDelete ''k'' 0"
  have p: "fst (replay_with_lsn_page (\<lambda>_. 7) read_only one_entry 0 1 ?w) = Inr ([(1, ?e)], True)"
    by (simp add: replay_with_lsn_page_def ad_report_def verify_two newer_def sat_add_def one_entry_def Let_def del: encs_simps)
  have e: "fst (replay_with_lsn_from (\<lambda>_. 7) read_only one_entry 0 ?w) = Inr [(1, ?e), (2, ?e)]"
    by (simp add: replay_with_lsn_from_def ad_report_def verify_two newer_def one_entry_def del: encs_simps)
  from replay_page_exact [OF p _ e] p e show ?thesis unfolding Let_def by (auto simp del: encs_simps)
qed

section \<open>Writing and reading back\<close>

lemma with_log_Ok:
  assumes "with_log f a w = (Ok x, a', w')"
  shows "\<exists>g g'. ad_inner a = Some g \<and> \<not> locked g \<and> f g w = (Ok x, g', w') \<and> a' = a\<lparr>ad_inner := Some g'\<rparr>"
  using assms by (auto simp: with_log_def split: option.splits if_splits prod.splits)

lemma map_err_Ok [simp]: "map_err r = Ok x \<longleftrightarrow> r = Ok x"
  by (cases r) (auto simp: map_err_def)

lemma ad_append_Ok:
  assumes "ad_append crc compress enc now e a w = (Ok l, a', w')"
  shows "\<exists>g g' b. enc e = Inr b \<and> ad_inner a = Some g \<and> wal_append crc compress now b g w = (Ok l, g', w') \<and>
    a' = a\<lparr>ad_inner := Some g'\<rparr>"
proof -
  obtain b where b: "enc e = Inr b" using assms by (auto simp: ad_append_def encode_entry_def split: sum.splits)
  let ?f = "\<lambda>g w. case wal_append crc compress now b g w of
      (Err x, g, w) \<Rightarrow> (Err (append_error x), g, w) | (r, g, w) \<Rightarrow> (map_err r, g, w)"
  have "with_log ?f a w = (Ok l, a', w')" using assms by (simp add: ad_append_def encode_entry_def b)
  from with_log_Ok [OF this] obtain g g' where "ad_inner a = Some g" "?f g w = (Ok l, g', w')" "a' = a\<lparr>ad_inner := Some g'\<rparr>"
    by blast
  then show ?thesis using b by (cases "wal_append crc compress now b g w") (auto split: outcome.splits)
qed

lemma ad_sync_Ok:
  assumes "ad_sync a w = (Ok (), a', w')"
  shows "\<exists>g g'. ad_inner a = Some g \<and> sync g w = (Ok (), g', w') \<and> a' = a\<lparr>ad_inner := Some g'\<rparr>"
proof -
  from with_log_Ok [OF assms [unfolded ad_sync_def]] obtain g g' where
    g: "ad_inner a = Some g" "(case sync g w of (r, g, w) \<Rightarrow> (map_err r, g, w)) = (Ok (), g', w')"
      "a' = a\<lparr>ad_inner := Some g'\<rparr>" by blast
  then have "sync g w = (Ok (), g', w')" by (cases "sync g w") auto
  with g show ?thesis by blast
qed

lemma sync_buf:
  assumes "sync g w = (Ok (), g', w')"
  shows "w_buf g' = [] \<and> locked g' = locked g"
  using assms
  by (auto simp: sync_def sync_inner_def flush_buf_def sync_data_def split: if_splits prod.splits option.splits)


definition one_encoder :: enc where
  "one_encoder e = (if e = EDelete ''k'' 0 then Inr [5] else Inl ''unsupported'')"

abbreviation wal_one :: wal where
  "wal_one \<equiv> (fresh_wal sync_config)\<lparr>lsn_counter := 2, w_bytes := 24, written_lsn := 1, w_durable := 1\<rparr>"

lemma sync_first:
  "sync wal_one (fresh_disk (first_record crc) 24) = (Ok (), wal_one, fresh_disk (first_record crc) 24)"
  by (simp add: sync_def fresh_wal_def open_wal_def sync_inner_def flush_buf_def sync_data_def sys_def fresh_disk_def
      seg_upd_def length_enc_item header_size_def)


section \<open>Checkpoints\<close>

lemma retention_manifest:
  "retention_loop mx safe a cl sizes over w = (res, w') \<Longrightarrow> manifest w' = manifest w \<and> manifest_dur w' = manifest_dur w"
proof (induction sizes arbitrary: over w)
  case (Cons c rest)
  obtain i sz where c: "c = (i, sz)" by fastforce
  show ?case
  proof (cases "mx > 0 \<and> over = 0 \<or> i = a \<or> closed_last cl i = None \<or> (\<exists>l. closed_last cl i = Some l \<and> l \<ge> safe)")
    case True
    then show ?thesis using Cons c by (auto split: if_splits)
  next
    case False
    then have "try_sys w (\<lambda>w. retention_loop mx safe a cl rest (over - sz) (seg_remove i w)) = (res, w')"
      using Cons.prems c by auto
    then show ?thesis
    proof (rule try_sys_then)
      fix w1 assume s: "same_dir w w1" and r: "retention_loop mx safe a cl rest (over - sz) (seg_remove i w1) = (res, w')"
      from Cons.IH [OF r] s show ?thesis by (simp add: seg_remove_def same_dir_def)
    qed (simp add: same_dir_def)
  qed
qed simp

lemma truncate_manifest:
  assumes "truncate_before l g w = (res, g', w')"
  shows "manifest w' = manifest w \<and> manifest_dur w' = manifest_dur w"
proof (cases "locked g \<or> w_state g = PoisonedState \<or> l > w_ckpt g \<or> l = 0")
  case True
  then show ?thesis using assms by (auto simp: truncate_before_def run_retention_raw_def split: if_splits)
next
  case False
  obtain q w1 where q: "try_sys w (\<lambda>w. let sizes = list_segs_with_size w; total = sum_list (map snd sizes)
      in if (0 :: nat) > 0 \<and> total \<le> 0 then (Inr (), w)
         else retention_loop 0 l (w_seg g) (closed_segments g) sizes (if (0 :: nat) > 0 then total - 0 else 0) w) = (q, w1)" by fastforce
  then have "w' = w1" using assms False unfolding truncate_before_def run_retention_raw_def by (auto split: sum.splits)
  moreover from q have "manifest w1 = manifest w \<and> manifest_dur w1 = manifest_dur w"
  proof (rule try_sys_then)
    fix w2 assume "same_dir w w2" "(let sizes = list_segs_with_size w2; total = sum_list (map snd sizes)
      in if (0 :: nat) > 0 \<and> total \<le> 0 then (Inr (), w2)
         else retention_loop 0 l (w_seg g) (closed_segments g) sizes (if (0 :: nat) > 0 then total - 0 else 0) w2) = (q, w1)"
    then show ?thesis using retention_manifest by (fastforce simp: Let_def same_dir_def)
  qed (simp add: same_dir_def)
  ultimately show ?thesis by simp
qed

lemma bind_io_Inr: "bind_io m k = (Inr y, w') \<longleftrightarrow> (\<exists>x w. m = (Inr x, w) \<and> k x w = (Inr y, w'))"
  by (cases m; cases "fst m") (auto simp: bind_io_def)

lemma run_retention_same: "run_retention safe g w = (r, g', w') \<Longrightarrow> g' = g"
  by (auto simp: run_retention_def run_retention_raw_def split: if_splits sum.splits prod.splits)

lemma open_recovered_ckpt: "open_recovered c rc ck w = (Inr g, w') \<Longrightarrow> w_ckpt g = ck"
  by (auto simp: open_recovered_def Let_def bind_io_Inr open_wal_def
      dest!: run_retention_same split: if_splits outcome.splits prod.splits)

lemma open_log_ckpt:
  assumes dn: "down_rep crc dz w itss n" and run: "open_log crc dz c w = (Inr g, w')"
  shows "w_ckpt g = mval (manifest w)"
proof -
  have cfg: "check_config c = None" using run by (auto simp: open_log_def split: option.splits)
  have run0: "try_sys w (\<lambda>w. bind_io (fsync_dir w) (\<lambda>_ w. bind_io (recover crc dz w) (\<lambda>rc w.
      bind_io (read_manifest w) (\<lambda>ckpt w. open_recovered c rc ckpt w)))) = (Inr g, w')"
    using run cfg by (simp add: open_log_def)
  then show ?thesis
  proof (rule try_sys_then)
    fix w1 assume s1: "same_dir w w1" and run1: "bind_io (fsync_dir w1) (\<lambda>_ w. bind_io (recover crc dz w) (\<lambda>rc w.
      bind_io (read_manifest w) (\<lambda>ckpt w. open_recovered c rc ckpt w))) = (Inr g, w')"
    then obtain w2 w3 w4 rc ck where f: "fsync_dir w1 = (Inr (), w2)" and r: "recover crc dz w2 = (Inr rc, w3)"
      and m: "read_manifest w3 = (Inr ck, w4)" and o: "open_recovered c rc ck w4 = (Inr g, w')"
      by (auto simp: bind_io_Inr)
    have d1: "down_rep crc dz w1 itss n" by (rule same_dir_down [OF dn s1])
    note fs = fsync_dir_step [OF f]
    have l2: "log_of crc dz w2 itss n" "sorted_wrt (<) (map fst (contents w2))"
      using d1 fs by (simp_all add: down_rep_def log_of_def)
    have m3: "manifest w3 = manifest w" using recover_step [OF l2 r] fs s1 by (simp add: dir_step_def same_dir_def)
    have "m_ok (manifest w3)" using dn m3 by (simp add: down_rep_def)
    from read_manifest_step [OF this m] have "ck = mval (manifest w)" using m3 by auto
    then show ?thesis using open_recovered_ckpt [OF o] by simp
  qed simp
qed

lemma finish_log_Ok:
  assumes "finish_log l g w = (Ok r, g', w')"
  obtains g1 w1 g2 w2 res where "sync g w = (Ok (), g1, w1)" "checkpoint l g1 w1 = (Ok (), g2, w2)"
    "truncate_before l g2 w2 = (res, g', w')" "r = l"
proof -
  obtain g1 w1 where s: "sync g w = (Ok (), g1, w1)"
    using assms by (auto simp: finish_log_def split: prod.splits outcome.splits)
  obtain g2 w2 where c: "checkpoint l g1 w1 = (Ok (), g2, w2)"
    using assms by (auto simp: finish_log_def s split: prod.splits outcome.splits)
  obtain res where "truncate_before l g2 w2 = (res, g', w')" "r = l"
    using assms by (auto simp: finish_log_def s c split: prod.splits outcome.splits)
  with s c show thesis by (rule that)
qed

lemma finish_log_reach:
  assumes reach: "wal_reach crc compress dz (Up g w)"
    and run: "sync g (w\<lparr>faults := fs\<rparr>) = (q, g1, w1)" "checkpoint l g1 w1 = (q2, g2, w2)" "truncate_before l g2 w2 = (q3, g3, w3)"
  shows "wal_reach crc compress dz (Up g3 w3)"
proof -
  have "wal_reach crc compress dz (Up g1 w1)"
    by (rule reach_op [OF reach, where op = OpSync and fs = fs]) (use run in simp_all)
  then have "wal_reach crc compress dz (Up g2 w2)"
    by (rule reach_op [where op = "OpCheckpoint l" and fs = "faults w1"]) (use run in simp_all)
  then show ?thesis by (rule reach_op [where op = "OpTruncate l" and fs = "faults w2"]) (use run in simp_all)
qed

lemma checkpoint_Ok:
  assumes "checkpoint l g w = (Ok (), g', w')"
  shows "w_ckpt g' = l" "l \<le> w_durable g'" "\<not> locked g'" "manifest w' = Some (manifest_text l)" "manifest_dur w' = Some (manifest_text l)"
proof -
  obtain r w1 where wm: "write_manifest l w = (r, w1)" by fastforce
  with assms have r: "r = Inr ()" "w' = w1" by (auto simp: checkpoint_def split: if_splits sum.splits)
  from write_manifest_cases [OF wm] r show "manifest w' = Some (manifest_text l)" "manifest_dur w' = Some (manifest_text l)" by simp_all
  show "w_ckpt g' = l" "l \<le> w_durable g'" "\<not> locked g'"
    using assms by (auto simp: checkpoint_def not_less split: if_splits prod.splits sum.splits)
qed

text \<open>The checkpoint a log finds when it is opened after a crash.\<close>

lemma reopened_ckpt:
  assumes reach: "wal_reach crc compress dz (Up g w)" and z: "lz4_ok compress dz" and cfg: "check_config c = None" and cr: "crash w w'"
    and m: "manifest w = Some (manifest_text l)" "manifest_dur w = Some (manifest_text l)"
  shows "\<exists>g' v. open_log crc dz c (w'\<lparr>faults := []\<rparr>) = (Inr g', v) \<and> w_ckpt g' = l"
proof -
  have "down_inv crc dz w'" using wal_reach_inv [OF reach_crash_up [OF reach cr] z] by simp
  then obtain itss n where d: "down_rep crc dz (w'\<lparr>faults := []\<rparr>) itss n" using faults_down down_inv_rep by blast
  obtain res v where r: "open_log crc dz c (w'\<lparr>faults := []\<rparr>) = (res, v)" by fastforce
  have "\<not> io_fail (w'\<lparr>faults := []\<rparr>) e" for e by (rule no_faults) simp
  with open_log_rep [OF d cfg r] obtain g' where g': "res = Inr g'" unfolding open_ok_def by blast
  have "manifest w' = Some (manifest_text l)" using cr m by (cases rule: crash.cases) simp_all
  then show ?thesis using open_log_ckpt [OF d r [unfolded g']] r g' by simp
qed



section \<open>Poisoning\<close>

text \<open>C24: The adapter never reports a poisoned log. Once the log is poisoned every write through the adapter
  fails with \<open>WAL poisoned\<close> and changes nothing, but \<open>is_poisoned\<close>, which looks for a missing handle, answers false; the handle is never
  removed: opening and reopening always set it.\<close>

theorem adapter_hides_poison:
  assumes "ad_inner a = Some g" "w_state g = PoisonedState" "\<not> locked g"
  shows "ad_is_poisoned a = Ok False \<and>
    (\<forall>b. enc e = Inr b \<longrightarrow> length b \<le> max_record \<longrightarrow>
       ad_append crc compress enc now e a w = (Err (IoError ''WAL poisoned''), a, w)) \<and>
    ad_flush a w = (Err (IoError ''WAL poisoned''), a, w) \<and> ad_sync a w = (Err (IoError ''WAL poisoned''), a, w) \<and>
    finish_checkpoint l a w = (Err (IoError ''WAL poisoned''), a, w) \<and>
    (\<forall>a' w'. reopen crc dz a w = (Ok (), a', w') \<longrightarrow> ad_inner a' \<noteq> None)"
proof -
  have same: "a\<lparr>ad_inner := Some g\<rparr> = a" using assms(1) by (cases a) simp
  have s: "sync g w = (Err Poisoned, g, w)" "flush g w = (Err Poisoned, g, w)"
    using assms by (simp_all add: sync_def flush_def)
  have ap: "wal_append crc compress now b g w = (Err Poisoned, g, w)" if "length b \<le> max_record" for b
    using assms that unfolding wal_append_def by (simp add: not_less split_def)
  have "ad_append crc compress enc now e a w = (Err (IoError ''WAL poisoned''), a, w)"
    if "enc e = Inr b" "length b \<le> max_record" for b
    using assms ap [OF that(2)] that(1) same by (simp add: ad_append_def encode_entry_def with_log_def append_error_def)
  moreover have "ad_flush a w = (Err (IoError ''WAL poisoned''), a, w)" "ad_sync a w = (Err (IoError ''WAL poisoned''), a, w)"
    "finish_checkpoint l a w = (Err (IoError ''WAL poisoned''), a, w)"
    using assms s same by (simp_all add: ad_flush_def ad_sync_def finish_checkpoint_def finish_log_def with_log_def map_err_def)
  moreover have "ad_is_poisoned a = Ok False" using assms by (simp add: ad_is_poisoned_def ad_blocked_def)
  moreover have "ad_inner a' \<noteq> None" if "reopen crc dz a w = (Ok (), a', w')" for a' w'
    using that by (auto simp: reopen_def split: prod.splits sum.splits if_splits)
  ultimately show ?thesis by blast
qed

theorem adapter_hides_poison_witness:
  "ad_is_poisoned \<lparr>ad_inner = Some (poison (fresh_wal config_new)), ad_cfg = config_new\<rparr> = Ok False"
  using adapter_hides_poison [of "\<lparr>ad_inner = Some (poison (fresh_wal config_new)), ad_cfg = config_new\<rparr>"
      "poison (fresh_wal config_new)"]
  by (simp add: fresh_wal_def open_wal_def)

section \<open>Reopening\<close>

lemma scan_repeat:
  "scan_segment crc dz None i 0 None [] (first_record crc @ first_record crc) = Inl (Corruption i 24 (LsnViolation 1 1))"
proof -
  have it: "item_ok dz (1, [5], 0)" "above None (fst (1 :: u64, [5] :: bytes, 0 :: u8))"
    by (simp_all add: item_ok_def decode_payload_def above_def)
  have len: "length (first_record crc) = 24" by (simp add: length_enc_item header_size_def)
  have dec: "header_decode (take header_size (first_record crc)) = Some (Inr (header_new crc 1 [5] 0))"
    using decode_new [of "[5]" 0 crc 1 "[5]"] by (simp add: enc_item_def)
  have dr: "drop header_size (first_record crc) = [5]" by (simp add: enc_item_def)
  have "scan_segment crc dz None i 24 (Some 1) [(1, [5])] (first_record crc) = Inl (Corruption i 24 (LsnViolation 1 1))"
    unfolding scan_segment.simps [of _ _ _ _ _ _ _ "first_record crc"] Let_def dec dr
    using len by (auto simp: header_size_def verify_crc_def header_new_def)
  then show ?thesis unfolding scan_item [OF it] len by (simp add: item_rec_def decode_payload_def)
qed



end
