(* ===== verification/Enforcement.thy ===== *)
theory Enforcement
  imports Store_Inv Expiry_Ring Aworset_Safety Storage_Wal
begin

text \<open>
  The enforcement actor: \<^verbatim>\<open>crates/ramshield-enforcement/src/{lib,applier}.rs\<close> and \<^verbatim>\<open>service/{enforce,expiry,cidr,run}.rs\<close>, and
  the checkpoint mirror \<^verbatim>\<open>crates/ramshield-storage/src/checkpoint_shared.rs\<close>. Built with the \<^verbatim>\<open>mesh\<close> feature.

  \<open>service\<close> is the state of the actor together with what it owns or writes to: the store, the log adapter
  and its directory, the dataplane \<open>'x\<close>, the replicated blocklist, the metrics it updates and the mesh messages it
  broadcasts. The actor handles one command at a time, so each method is a function on this state.
  The dataplane is a trait object in the code: its methods are the fields of \<open>applier\<close>. \<open>env\<close> holds what a
  method takes from outside the modelled code: the size of a store entry, the parameters of the log,
  and the text forms of addresses and identifiers. Every clock reading of a method is a field of
  \<open>clock\<close>. The monotonic clock stays below 2^63 seconds minus a day, so adding a day to it does not
  overflow. Deliveries of broadcasts are only logged by the code and not modelled.
\<close>

section \<open>State\<close>

record shared_state =
  sh_ip_expirations :: "ipaddr \<rightharpoonup> u64"
  sh_cidr_expirations :: "ip_network \<rightharpoonup> u64"

datatype mesh_message = MsgBlock cluster_block_delta | MsgUnblock cluster_unblock_delta

record service_metrics =
  m_blocks :: u64
  m_blocks_expired :: u64
  m_xdp_failures :: u64
  m_projection_stale :: bool
  m_record_ban :: u64
  m_record_unban :: u64
  m_xdp_evictions :: u64
  m_attribution_gaps :: u64
  m_zero_drops :: nat

record drop_event =
  ev_ip :: ipaddr
  ev_ts_ns :: u64
  ev_slot :: u8

record reconciliation_state =
  rs_last_wal_lsn :: u64
  rs_pending_blocks :: "ipaddr list"
  rs_pending_unblocks :: "ipaddr list"
  rs_evicted :: u64

record 'x applier =
  ap_block :: "ipaddr \<Rightarrow> uuid \<Rightarrow> u64 \<Rightarrow> 'x \<Rightarrow> enforcement_error option \<times> 'x"
  ap_unblock :: "ipaddr \<Rightarrow> uuid \<Rightarrow> 'x \<Rightarrow> enforcement_error option \<times> 'x"
  ap_cidr_block :: "ip_network \<Rightarrow> uuid \<Rightarrow> u64 \<Rightarrow> 'x \<Rightarrow> enforcement_error option \<times> 'x"
  ap_cidr_unblock :: "ip_network \<Rightarrow> uuid \<Rightarrow> 'x \<Rightarrow> enforcement_error option \<times> 'x"
  ap_reconcile :: "ipaddr set \<Rightarrow> ip_network set \<Rightarrow> 'x \<Rightarrow> (enforcement_error + reconciliation_state) \<times> 'x"

record 'x service =
  sv_store :: store
  sv_metrics :: service_metrics
  sv_xdp :: 'x
  sv_wal :: "adapter option"
  sv_disk :: disk
  processed_results :: "uuid \<rightharpoonup> enforce_result"
  processed_order :: "uuid list"
  blocked_ips :: "ipaddr set"
  drops_by_blocked :: "ipaddr \<rightharpoonup> u64"
  sv_ring :: ring
  cidr_expirations :: "ip_network \<rightharpoonup> instant"
  last_wal_lsn :: "u64 option"
  mesh_blocklist :: "blocklist option"
  mesh_handle :: bool
  mesh_sent :: "mesh_message list"
  mesh_applied_ips :: "ipaddr set"
  mesh_operator_suppressions :: "ipaddr set"
  sv_shared :: "shared_state option"

record env =
  e_base :: usize
  e_crc :: "bytes \<Rightarrow> u32"
  e_compress :: "bytes \<Rightarrow> bytes"
  e_enc :: enc
  e_ip_str :: "ipaddr \<Rightarrow> string"
  e_uuid_str :: "uuid \<Rightarrow> string"

record clock =
  ck_wal_ns :: u64
  ck_commit_ns :: u64
  ck_now_ns :: u64
  ck_unix_ns :: u64
  ck_mono :: instant
  ck_fallback :: instant
  ck_mirror :: instant
  ck_store :: instant
  ck_mesh :: u64
  ck_mesh' :: u64
  ck_epoch_secs :: int

definition metrics_new :: service_metrics where
  "metrics_new = \<lparr>m_blocks = 0, m_blocks_expired = 0, m_xdp_failures = 0, m_projection_stale = False, m_record_ban = 0,
     m_record_unban = 0, m_xdp_evictions = 0, m_attribution_gaps = 0, m_zero_drops = 0\<rparr>"

definition service_new :: "store \<Rightarrow> 'x \<Rightarrow> disk \<Rightarrow> instant \<Rightarrow> 'x service" where
  "service_new st x w t =
     \<lparr>sv_store = st, sv_metrics = metrics_new, sv_xdp = x, sv_wal = None, sv_disk = w,
      processed_results = Map.empty, processed_order = [], blocked_ips = {}, drops_by_blocked = Map.empty,
      sv_ring = ring_new t, cidr_expirations = Map.empty, last_wal_lsn = None, mesh_blocklist = None,
      mesh_handle = False, mesh_sent = [], mesh_applied_ips = {}, mesh_operator_suppressions = {},
      sv_shared = None\<rparr>"

section \<open>The checkpoint mirror\<close>

definition set_ip_expiration :: "ipaddr \<Rightarrow> u64 \<Rightarrow> shared_state \<Rightarrow> shared_state" where
  "set_ip_expiration ip d m = m\<lparr>sh_ip_expirations := (sh_ip_expirations m)(ip \<mapsto> d)\<rparr>"

definition remove_ip_expiration :: "ipaddr \<Rightarrow> shared_state \<Rightarrow> shared_state" where
  "remove_ip_expiration ip m = m\<lparr>sh_ip_expirations := (sh_ip_expirations m)(ip := None)\<rparr>"

definition set_cidr_expiration :: "ip_network \<Rightarrow> u64 \<Rightarrow> shared_state \<Rightarrow> shared_state" where
  "set_cidr_expiration n d m = m\<lparr>sh_cidr_expirations := (sh_cidr_expirations m)(n \<mapsto> d)\<rparr>"

definition remove_cidr_expiration :: "ip_network \<Rightarrow> shared_state \<Rightarrow> shared_state" where
  "remove_cidr_expiration n m = m\<lparr>sh_cidr_expirations := (sh_cidr_expirations m)(n := None)\<rparr>"

text \<open>\<^verbatim>\<open>if let Some(shared) = &self.checkpoint_shared\<close>\<close>

definition upd_shared :: "(shared_state \<Rightarrow> shared_state) \<Rightarrow> 'x service \<Rightarrow> 'x service" where
  "upd_shared f s = s\<lparr>sv_shared := map_option f (sv_shared s)\<rparr>"

definition unix_ns_from_instant :: "instant \<Rightarrow> u64 \<Rightarrow> instant \<Rightarrow> u64" where
  "unix_ns_from_instant at now_unix_ns now_mono =
     (if at \<ge> now_mono then sat_add now_unix_ns (of_nat (at - now_mono))
      else sat_sub now_unix_ns (of_nat (now_mono - at)))"

text \<open>The \<^verbatim>\<open>?\<close> operator on a method that also changes the state.\<close>

definition try_run ::
  "('a, 'e) outcome \<times> 's \<Rightarrow> ('a \<Rightarrow> 's \<Rightarrow> ('b, 'e) outcome \<times> 's) \<Rightarrow> ('b, 'e) outcome \<times> 's" where
  "try_run m k =
     (case m of
        (Ok x, s) \<Rightarrow> k x s
      | (Err e, s) \<Rightarrow> (Err e, s)
      | (Panic, s) \<Rightarrow> (Panic, s)
      | (Deadlock, s) \<Rightarrow> (Deadlock, s))"

section \<open>The decision cache\<close>

definition cache_cap :: nat where
  "cache_cap = 65536"

fun trim_cache :: "uuid list \<Rightarrow> (uuid \<rightharpoonup> enforce_result) \<Rightarrow> uuid list \<times> (uuid \<rightharpoonup> enforce_result)" where
  "trim_cache [] m = ([], m)"
| "trim_cache (d # ds) m =
     (if length (d # ds) > cache_cap then trim_cache ds (m(d := None)) else (d # ds, m))"

definition remember_result :: "enforce_result \<Rightarrow> 'x service \<Rightarrow> 'x service" where
  "remember_result r s =
     (let d = res_decision_id r; m = (processed_results s)(d \<mapsto> r) in
      if processed_results s d = None then
        (let (order, m) = trim_cache (processed_order s @ [d]) m
         in s\<lparr>processed_results := m, processed_order := order\<rparr>)
      else s\<lparr>processed_results := m\<rparr>)"

section \<open>The log\<close>

definition rs_error_text :: "rs_error \<Rightarrow> string" where
  "rs_error_text e =
     (case e of
        NotFound k \<Rightarrow> ''key not found: '' @ k
      | CapacityExceeded m \<Rightarrow> ''capacity exceeded: '' @ dec_string (unat m) @ '' MB''
      | Serde m \<Rightarrow> ''serde error: '' @ m
      | IoError m \<Rightarrow> ''io error: '' @ m
      | CorruptWal off \<Rightarrow> ''corrupt wal: '' @ dec_string (unat off)
      | RecordTooLarge n m \<Rightarrow>
          ''record too large: '' @ dec_string (unat n) @ '' bytes (max '' @ dec_string (unat m) @ '')''
      | InvalidState m \<Rightarrow> ''invalid state: '' @ m)"

datatype wal_durability = AppendRecord | AlreadyDurable

datatype pending_mesh_mutation =
    PmBlock ipaddr u32 uuid u64 u64 "u64 option" u8
  | PmUnblock ipaddr u32 uuid u64

fun to_wal_entry :: "env \<Rightarrow> u64 \<Rightarrow> pending_mesh_mutation \<Rightarrow> wal_entry" where
  "to_wal_entry v ts (PmBlock ip node inc cnt created expires t) =
     EMeshMutation \<lparr>schema_version = 1, origin_node_id = node, origin_incarnation = e_uuid_str v inc,
       origin_counter = cnt, mm_ip = e_ip_str v ip, mm_action = MeshBlock, mm_created_at_ms = created,
       mm_expires_at_ms = expires, mm_tier = t, mm_signature = None, mm_ts_ns = ts\<rparr>"
| "to_wal_entry v ts (PmUnblock ip node inc cnt) =
     EMeshMutation \<lparr>schema_version = 1, origin_node_id = node, origin_incarnation = e_uuid_str v inc,
       origin_counter = cnt, mm_ip = e_ip_str v ip, mm_action = MeshUnblock, mm_created_at_ms = ts div 1000000,
       mm_expires_at_ms = None, mm_tier = 0, mm_signature = None, mm_ts_ns = ts\<rparr>"

definition command_entry :: "env \<Rightarrow> u64 \<Rightarrow> enforce_command \<Rightarrow> wal_entry" where
  "command_entry v ts cmd =
     (let ttl = (if ttl_seconds cmd > 0 then Some (ttl_seconds cmd) else None) in
      case cmd_action cmd of
        ActBlock \<Rightarrow>
          (case cmd_cidr cmd of
             Some n \<Rightarrow> EBlockCidr n (cmd_reason cmd) ttl ts
           | None \<Rightarrow> EBlockIp (e_ip_str v (cmd_ip cmd)) (cmd_reason cmd) ttl ts)
      | ActUnblock \<Rightarrow>
          (case cmd_cidr cmd of
             Some n \<Rightarrow> EUnblockCidr n ts
           | None \<Rightarrow> EUnblockIp (e_ip_str v (cmd_ip cmd)) ts))"

text \<open>Append an entry and, unless the append was already durable, sync.\<close>

definition log_entry ::
  "env \<Rightarrow> clock \<Rightarrow> (adapter \<Rightarrow> bool) \<Rightarrow> wal_entry \<Rightarrow> 'x service \<Rightarrow> (u64 option, enforcement_error) outcome \<times> 'x service" where
  "log_entry v t skip_sync e s =
     (case sv_wal s of
        None \<Rightarrow> (Ok None, s)
      | Some a \<Rightarrow>
          (case ad_append (e_crc v) (e_compress v) (e_enc v) (ck_commit_ns t) e a (sv_disk s) of
             (Ok l, a, w) \<Rightarrow>
               if skip_sync a then (Ok (Some l), s\<lparr>sv_wal := Some a, sv_disk := w, last_wal_lsn := Some l\<rparr>)
               else
                 (case ad_sync a w of
                    (Ok _, a, w) \<Rightarrow> (Ok (Some l), s\<lparr>sv_wal := Some a, sv_disk := w, last_wal_lsn := Some l\<rparr>)
                  | (r, a, w) \<Rightarrow>
                      (map_outcome (\<lambda>_. None) (\<lambda>x. WalError (rs_error_text x)) r, s\<lparr>sv_wal := Some a, sv_disk := w\<rparr>))
           | (r, a, w) \<Rightarrow>
               (map_outcome (\<lambda>_. None) (\<lambda>x. WalError (rs_error_text x)) r, s\<lparr>sv_wal := Some a, sv_disk := w\<rparr>)))"

definition append_wal ::
  "env \<Rightarrow> clock \<Rightarrow> enforce_command \<Rightarrow> 'x service \<Rightarrow> (u64 option, enforcement_error) outcome \<times> 'x service" where
  "append_wal v t cmd s = log_entry v t append_is_durable (command_entry v (ck_wal_ns t) cmd) s"

definition append_mesh_wal ::
  "env \<Rightarrow> clock \<Rightarrow> pending_mesh_mutation \<Rightarrow> 'x service \<Rightarrow> (u64 option, enforcement_error) outcome \<times> 'x service" where
  "append_mesh_wal v t mu s = log_entry v t (\<lambda>_. False) (to_wal_entry v (ck_wal_ns t) mu) s"

definition merge_mutation :: "clock \<Rightarrow> pending_mesh_mutation \<Rightarrow> blocklist \<Rightarrow> blocklist" where
  "merge_mutation t mu b =
     (case mu of
        PmBlock ip node inc cnt created expires tr \<Rightarrow>
          snd (merge_delta (ck_mesh t)
            \<lparr>bd_ip = ip, bd_dot = \<lparr>dot_node = node, dot_incarnation = inc, dot_counter = cnt\<rparr>,
             created_at_ms = created, expires_at_ms = (case expires of Some d \<Rightarrow> d | None \<Rightarrow> - 1), tier = tr\<rparr> b)
      | PmUnblock ip node inc cnt \<Rightarrow>
          snd (merge_unblock_delta (ck_mesh t)
            \<lparr>ud_ip = ip, ud_dot = \<lparr>dot_node = node, dot_incarnation = inc, dot_counter = cnt\<rparr>\<rparr> b))"

section \<open>Blocking\<close>

definition max_expiry_fallback_secs :: nat where
  "max_expiry_fallback_secs = 86400"

definition deadline :: "clock \<Rightarrow> u64 \<Rightarrow> instant" where
  "deadline t ttl =
     (case instant_checked_add (ck_mono t) (unat ttl) of
        Some at \<Rightarrow> at
      | None \<Rightarrow> ck_fallback t + max_expiry_fallback_secs * ns_per_sec)"

definition ram_limit :: "store \<Rightarrow> usize option" where
  "ram_limit st =
     (let mb = ram_limit_mb (traffic st)
      in if unat mb * (1024 * 1024) < 2 ^ 64 then Some (mb * 1024 * 1024) else None)"

definition set_lease :: "ipaddr \<Rightarrow> instant \<Rightarrow> clock \<Rightarrow> 'x service \<Rightarrow> 'x service" where
  "set_lease ip at t s =
     upd_shared (set_ip_expiration ip (unix_ns_from_instant at (ck_unix_ns t) (ck_mirror t)))
       (s\<lparr>sv_ring := schedule_expiration ip at (sv_ring s)\<rparr>)"

definition clear_lease :: "ipaddr \<Rightarrow> 'x service \<Rightarrow> 'x service" where
  "clear_lease ip s = upd_shared (remove_ip_expiration ip) (s\<lparr>sv_ring := detach_expiration ip (sv_ring s)\<rparr>)"

definition set_cidr_lease :: "ip_network \<Rightarrow> instant \<Rightarrow> clock \<Rightarrow> 'x service \<Rightarrow> 'x service" where
  "set_cidr_lease n at t s =
     upd_shared (set_cidr_expiration n (unix_ns_from_instant at (ck_unix_ns t) (ck_mirror t)))
       (s\<lparr>cidr_expirations := (cidr_expirations s)(n \<mapsto> at)\<rparr>)"

definition clear_cidr_lease :: "ip_network \<Rightarrow> 'x service \<Rightarrow> 'x service" where
  "clear_cidr_lease n s =
     upd_shared (remove_cidr_expiration n) (s\<lparr>cidr_expirations := (cidr_expirations s)(n := None)\<rparr>)"

definition upd_cidrs :: "(ip_network set \<Rightarrow> ip_network set) \<Rightarrow> 'x service \<Rightarrow> 'x service" where
  "upd_cidrs f s = s\<lparr>sv_store := (sv_store s)\<lparr>active_cidrs := f (active_cidrs (sv_store s))\<rparr>\<rparr>"

definition commit_block_state ::
  "env \<Rightarrow> clock \<Rightarrow> enforce_command \<Rightarrow> 'x service \<Rightarrow> (unit, enforcement_error) outcome \<times> 'x service" where
  "commit_block_state v t cmd s =
     (let ttl = ttl_seconds cmd; ip = cmd_ip cmd; at = deadline t ttl in
      case cmd_cidr cmd of
        Some n \<Rightarrow>
          let s = upd_cidrs (insert n) s
          in (Ok (), if ttl > 0 then set_cidr_lease n at t s else clear_cidr_lease n s)
      | None \<Rightarrow>
          (case ram_limit (sv_store s) of
             None \<Rightarrow> (Panic, s)
           | Some lim \<Rightarrow>
               (case update_block_state (e_base v) (ck_store t) ip
                       (Blocked (reason_to_block_reason (cmd_reason cmd)) (ck_now_ns t)) lim (sv_store s) of
                  (Ok True, st) \<Rightarrow>
                    let s = s\<lparr>sv_store := st, blocked_ips := insert ip (blocked_ips s),
                              drops_by_blocked := (drops_by_blocked s)(ip := None)\<rparr>
                    in (Ok (), if ttl > 0 then set_lease ip at t s else clear_lease ip s)
                | (Ok False, st) \<Rightarrow>
                    (Err (StorageError ''store update_block_state: capacity exceeded''), s\<lparr>sv_store := st\<rparr>)
                | (Err e, st) \<Rightarrow> (Err (StorageError (rs_error_text e)), s\<lparr>sv_store := st\<rparr>)
                | (Panic, st) \<Rightarrow> (Panic, s\<lparr>sv_store := st\<rparr>)
                | (Deadlock, st) \<Rightarrow> (Deadlock, s\<lparr>sv_store := st\<rparr>))))"

definition upd_metrics :: "(service_metrics \<Rightarrow> service_metrics) \<Rightarrow> 'x service \<Rightarrow> 'x service" where
  "upd_metrics f s = s\<lparr>sv_metrics := f (sv_metrics s)\<rparr>"

definition publish_ban :: "clock \<Rightarrow> enforce_command \<Rightarrow> 'x service \<Rightarrow> 'x service" where
  "publish_ban t cmd s =
     (if cmd_cidr cmd = None \<and> cmd_source cmd \<noteq> ''mesh'' then
        let s = s\<lparr>mesh_operator_suppressions := mesh_operator_suppressions s - {cmd_ip cmd}\<rparr> in
        case mesh_blocklist s of
          Some b \<Rightarrow>
            if mesh_handle s then
              let (d, b) = record_ban (ck_mesh t) (ck_mesh' t) (cmd_ip cmd) (sat_mul (ttl_seconds cmd) 1000) 2 b
              in upd_metrics (\<lambda>m. m\<lparr>m_record_ban := m_record_ban m + 1\<rparr>)
                   (s\<lparr>mesh_blocklist := Some b, mesh_sent := mesh_sent s @ [MsgBlock d]\<rparr>)
            else s
        | None \<Rightarrow> s
      else s)"

definition apply_block_projection ::
  "'x applier \<Rightarrow> clock \<Rightarrow> enforce_command \<Rightarrow> 'x service \<Rightarrow> bool \<times> 'x service" where
  "apply_block_projection ap t cmd s =
     (let (r, x) = (case cmd_cidr cmd of
                      Some n \<Rightarrow> ap_cidr_block ap n (decision_id cmd) (ttl_seconds cmd) (sv_xdp s)
                    | None \<Rightarrow> ap_block ap (cmd_ip cmd) (decision_id cmd) (ttl_seconds cmd) (sv_xdp s));
          s = s\<lparr>sv_xdp := x\<rparr>;
          s = (if r = None then s
               else upd_metrics (\<lambda>m. m\<lparr>m_projection_stale := True, m_xdp_failures := m_xdp_failures m + 1\<rparr>) s);
          s = upd_metrics (\<lambda>m. m\<lparr>m_blocks := m_blocks m + 1\<rparr>) s
      in (r = None, publish_ban t cmd s))"

section \<open>Unblocking\<close>

definition release_mesh :: "clock \<Rightarrow> enforce_command \<Rightarrow> 'x service \<Rightarrow> cluster_unblock_delta list \<times> 'x service" where
  "release_mesh t cmd s =
     (let ip = cmd_ip cmd; local_source = (cmd_source cmd \<noteq> ''mesh'');
          (ds, s) = (case mesh_blocklist s of
             None \<Rightarrow> ([], s)
           | Some b \<Rightarrow>
               let (ds, b) = (if local_source then record_unban (ck_mesh t) ip b else ([], b))
               in (ds, upd_metrics (\<lambda>m. m\<lparr>m_record_unban := m_record_unban m + 1\<rparr>) (s\<lparr>mesh_blocklist := Some b\<rparr>)));
          s = (if local_source then s\<lparr>mesh_operator_suppressions := insert ip (mesh_operator_suppressions s)\<rparr> else s)
      in (ds, s\<lparr>mesh_applied_ips := mesh_applied_ips s - {ip}\<rparr>))"

text \<open>The record of a released address is rewritten as clean.\<close>

definition release_store :: "env \<Rightarrow> clock \<Rightarrow> ipaddr \<Rightarrow> 'x service \<Rightarrow> (unit, enforcement_error) outcome \<times> 'x service" where
  "release_store v t ip s =
     (case store_get (ck_store t) ip (sv_store s) of
        Some (IpRecordV rec) \<Rightarrow>
          (case ram_limit (sv_store s) of
             None \<Rightarrow> (Panic, s)
           | Some lim \<Rightarrow>
               (case store_insert (e_base v) (ck_store t) ip (IpRecordV (rec\<lparr>block_state := Clean\<rparr>)) None lim (sv_store s) of
                  (r, st) \<Rightarrow> (map_outcome id (\<lambda>e. StorageError (rs_error_text e)) r, s\<lparr>sv_store := st\<rparr>)))
      | _ \<Rightarrow> (Ok (), s))"

text \<open>The state change of an unblock, up to the end of the checkpoint barrier.\<close>

definition release_state ::
  "env \<Rightarrow> clock \<Rightarrow> enforce_command \<Rightarrow> 'x service \<Rightarrow> (cluster_unblock_delta list, enforcement_error) outcome \<times> 'x service" where
  "release_state v t cmd s =
     (let ip = cmd_ip cmd in
      case cmd_cidr cmd of
        Some n \<Rightarrow> (Ok [], upd_cidrs (\<lambda>c. c - {n}) (clear_cidr_lease n s))
      | None \<Rightarrow>
          try_run (release_store v t ip s) (\<lambda>_ s.
            let s = s\<lparr>blocked_ips := blocked_ips s - {ip}, drops_by_blocked := (drops_by_blocked s)(ip := None)\<rparr>;
                (ds, s) = release_mesh t cmd s
            in (Ok ds, clear_lease ip s)))"

definition apply_release_projection ::
  "'x applier \<Rightarrow> enforce_command \<Rightarrow> cluster_unblock_delta list \<Rightarrow> 'x service \<Rightarrow> bool \<times> 'x service" where
  "apply_release_projection ap cmd ds s =
     (let s = (if mesh_handle s then s\<lparr>mesh_sent := mesh_sent s @ map MsgUnblock ds\<rparr> else s);
          (r, x) = (case cmd_cidr cmd of
                      Some n \<Rightarrow> ap_cidr_unblock ap n (decision_id cmd) (sv_xdp s)
                    | None \<Rightarrow> ap_unblock ap (cmd_ip cmd) (decision_id cmd) (sv_xdp s));
          s = s\<lparr>sv_xdp := x\<rparr>
      in (r = None, if r = None then s else upd_metrics (\<lambda>m. m\<lparr>m_projection_stale := True\<rparr>) s))"

section \<open>Enforcing a command\<close>

definition enforce_result_of :: "uuid \<Rightarrow> u64 option \<Rightarrow> bool \<Rightarrow> enforce_result" where
  "enforce_result_of d lsn x =
     \<lparr>res_decision_id = d, committed = True, applied = True, wal_lsn = lsn, xdp_applied = x, res_error = None\<rparr>"

definition journal ::
  "env \<Rightarrow> clock \<Rightarrow> enforce_command \<Rightarrow> pending_mesh_mutation option \<Rightarrow> wal_durability \<Rightarrow> 'x service \<Rightarrow>
   (u64 option, enforcement_error) outcome \<times> 'x service" where
  "journal v t cmd mu d s =
     (case mu of
        Some m \<Rightarrow> append_mesh_wal v t m s
      | None \<Rightarrow> if d = AlreadyDurable then (Ok None, s) else append_wal v t cmd s)"

definition commit_action ::
  "env \<Rightarrow> 'x applier \<Rightarrow> clock \<Rightarrow> enforce_command \<Rightarrow> u64 option \<Rightarrow> 'x service \<Rightarrow>
   (enforce_result, enforcement_error) outcome \<times> 'x service" where
  "commit_action v ap t cmd lsn s =
     (case cmd_action cmd of
        ActBlock \<Rightarrow>
          try_run (commit_block_state v t cmd s) (\<lambda>_ s.
            let (x, s) = apply_block_projection ap t cmd s; r = enforce_result_of (decision_id cmd) lsn x
            in (Ok r, remember_result r s))
      | ActUnblock \<Rightarrow>
          try_run (release_state v t cmd s) (\<lambda>ds s.
            let (x, s) = apply_release_projection ap cmd ds s; r = enforce_result_of (decision_id cmd) lsn x
            in (Ok r, remember_result r s)))"

definition enforce_inner ::
  "env \<Rightarrow> 'x applier \<Rightarrow> clock \<Rightarrow> enforce_command \<Rightarrow> pending_mesh_mutation option \<Rightarrow> wal_durability \<Rightarrow> 'x service \<Rightarrow>
   (enforce_result, enforcement_error) outcome \<times> 'x service" where
  "enforce_inner v ap t cmd mu d s =
     (case processed_results s (decision_id cmd) of
        Some r \<Rightarrow> (Ok r, s)
      | None \<Rightarrow>
          if is_unspecified (cmd_ip cmd) then (Err (InvalidCommand ''unspecified IP is not blockable''), s)
          else
            try_run (journal v t cmd mu d s) (\<lambda>lsn s.
              commit_action v ap t cmd lsn
                (case mu of
                   None \<Rightarrow> s
                 | Some m \<Rightarrow> s\<lparr>mesh_blocklist := map_option (merge_mutation t m) (mesh_blocklist s)\<rparr>)))"

definition enforce ::
  "env \<Rightarrow> 'x applier \<Rightarrow> clock \<Rightarrow> enforce_command \<Rightarrow> 'x service \<Rightarrow> (enforce_result, enforcement_error) outcome \<times> 'x service" where
  "enforce v ap t cmd s = enforce_inner v ap t cmd None AppendRecord s"

definition enforce_mesh_mutation ::
  "env \<Rightarrow> 'x applier \<Rightarrow> clock \<Rightarrow> enforce_command \<Rightarrow> pending_mesh_mutation \<Rightarrow> 'x service \<Rightarrow>
   (enforce_result, enforcement_error) outcome \<times> 'x service" where
  "enforce_mesh_mutation v ap t cmd mu s = enforce_inner v ap t cmd (Some mu) AppendRecord s"

definition enforce_durable_mesh_projection ::
  "env \<Rightarrow> 'x applier \<Rightarrow> clock \<Rightarrow> enforce_command \<Rightarrow> 'x service \<Rightarrow> (enforce_result, enforcement_error) outcome \<times> 'x service" where
  "enforce_durable_mesh_projection v ap t cmd s = enforce_inner v ap t cmd None AlreadyDurable s"

section \<open>Expiry\<close>

text \<open>The unblock command of an ended lease.\<close>

definition ttl_command :: "uuid \<Rightarrow> clock \<Rightarrow> ipaddr \<Rightarrow> ip_network option \<Rightarrow> enforce_command" where
  "ttl_command d t ip n =
     \<lparr>decision_id = d, policy_version = 0, cmd_source = ''ttl'', cmd_actor = ''system'',
      timestamp_utc = ck_epoch_secs t, ttl_seconds = 0, cmd_reason = ''ttl_expired'', cmd_ip = ip, cmd_cidr = n,
      cmd_action = ActUnblock, evidence = LocalSignals\<rparr>"

text \<open>A method of the actor that panics or blocks ends the task: the remaining leases are not handled.\<close>

fun expire_ips ::
  "env \<Rightarrow> 'x applier \<Rightarrow> (nat \<Rightarrow> clock) \<Rightarrow> (nat \<Rightarrow> uuid) \<Rightarrow> nat \<Rightarrow> ipaddr list \<Rightarrow> 'x service \<Rightarrow> (unit, enforcement_error) outcome \<times> 'x service" where
  "expire_ips v ap tk ids i [] s = (Ok (), s)"
| "expire_ips v ap tk ids i (ip # due) s =
     (case enforce v ap (tk i) (ttl_command (ids i) (tk i) ip None) s of
        (Ok _, s) \<Rightarrow>
          expire_ips v ap tk ids (Suc i) due (upd_metrics (\<lambda>m. m\<lparr>m_blocks_expired := m_blocks_expired m + 1\<rparr>) s)
      | (Err (InvalidCommand _), s) \<Rightarrow> expire_ips v ap tk ids (Suc i) due s
      | (Err _, s) \<Rightarrow>
          expire_ips v ap tk ids (Suc i) due
            (s\<lparr>sv_ring := schedule_expiration ip (ck_mono (tk i) + ns_per_sec) (sv_ring s)\<rparr>)
      | (Panic, s) \<Rightarrow> (Panic, s)
      | (Deadlock, s) \<Rightarrow> (Deadlock, s))"

fun expire_cidrs ::
  "env \<Rightarrow> 'x applier \<Rightarrow> (nat \<Rightarrow> clock) \<Rightarrow> (nat \<Rightarrow> uuid) \<Rightarrow> nat \<Rightarrow> ip_network list \<Rightarrow> 'x service \<Rightarrow> (unit, enforcement_error) outcome \<times> 'x service" where
  "expire_cidrs v ap tk ids i [] s = (Ok (), s)"
| "expire_cidrs v ap tk ids i (n # due) s =
     (case enforce v ap (tk i) (ttl_command (ids i) (tk i) (net_addr n) (Some n))
             (s\<lparr>cidr_expirations := (cidr_expirations s)(n := None)\<rparr>) of
        (Ok _, s) \<Rightarrow> expire_cidrs v ap tk ids (Suc i) due s
      | (Err (InvalidCommand _), s) \<Rightarrow> expire_cidrs v ap tk ids (Suc i) due s
      | (Err _, s) \<Rightarrow>
          expire_cidrs v ap tk ids (Suc i) due
            (s\<lparr>cidr_expirations := (cidr_expirations s)(n \<mapsto> ck_mono (tk i) + ns_per_sec)\<rparr>)
      | (Panic, s) \<Rightarrow> (Panic, s)
      | (Deadlock, s) \<Rightarrow> (Deadlock, s))"

text \<open>\<open>now\<close> is read when the buckets are drained and \<open>now'\<close> when the prefixes are collected, in the map's
  iteration order \<open>order\<close>.\<close>

definition expire_due ::
  "env \<Rightarrow> 'x applier \<Rightarrow> (nat \<Rightarrow> clock) \<Rightarrow> (nat \<Rightarrow> uuid) \<Rightarrow> instant \<Rightarrow> instant \<Rightarrow> (ip_network set \<Rightarrow> ip_network list) \<Rightarrow>
   'x service \<Rightarrow> (unit, enforcement_error) outcome \<times> 'x service" where
  "expire_due v ap tk ids now now' order s =
     (let (due, r) = drain_due ((now - epoch (sv_ring s)) div ns_per_sec) (sv_ring s) in
      try_run (expire_ips v ap tk ids 0 due (s\<lparr>sv_ring := r\<rparr>)) (\<lambda>_ s.
        expire_cidrs v ap tk ids (length due)
          (order {n. \<exists>d. cidr_expirations s n = Some d \<and> d \<le> now'}) s))"

section \<open>Reconciliation and drop attribution\<close>

definition reconcile_tick :: "'x applier \<Rightarrow> 'x service \<Rightarrow> 'x service" where
  "reconcile_tick ap s =
     (let expected = get_all_blocked_ips (sv_store s) in
      case ap_reconcile ap expected (active_cidrs (sv_store s)) (sv_xdp s) of
        (Inr st, x) \<Rightarrow>
          upd_metrics (\<lambda>m. m\<lparr>m_xdp_evictions := m_xdp_evictions m + rs_evicted st\<rparr>)
            (s\<lparr>sv_xdp := x, blocked_ips := expected, drops_by_blocked := drops_by_blocked s |` expected\<rparr>)
      | (Inl _, x) \<Rightarrow> s\<lparr>sv_xdp := x\<rparr>)"

text \<open>The counters wrap here where an overflow check would panic; each counts single drop events and does not reach
  \<open>2 ^ 64\<close>.\<close>

definition attribute_one :: "ipaddr set \<Rightarrow> drop_event \<Rightarrow> (ipaddr \<rightharpoonup> u64) \<times> u64 \<Rightarrow> (ipaddr \<rightharpoonup> u64) \<times> u64" where
  "attribute_one blocked ev acc =
     (case acc of (drops, gaps) \<Rightarrow>
        if ev_ip ev \<in> blocked then
          (drops(ev_ip ev \<mapsto> (case drops (ev_ip ev) of None \<Rightarrow> 0 | Some c \<Rightarrow> c) + 1), gaps)
        else (drops, gaps + 1))"

definition attribute_drops :: "drop_event list \<Rightarrow> 'x service \<Rightarrow> 'x service" where
  "attribute_drops evs s =
     (let (drops, gaps) = fold (attribute_one (blocked_ips s)) evs (drops_by_blocked s, 0)
      in upd_metrics (\<lambda>m. m\<lparr>m_attribution_gaps := m_attribution_gaps m + gaps,
                              m_zero_drops := card (blocked_ips s) - card (dom drops)\<rparr>)
           (s\<lparr>drops_by_blocked := drops\<rparr>))"

text \<open>The refresh of the checkpoint mirror at the end of a tick: whole-second buckets relative to the
  epoch become absolute times.\<close>

definition publish_mirror :: "u64 \<Rightarrow> instant \<Rightarrow> 'x service \<Rightarrow> 'x service" where
  "publish_mirror now_ns now_mono s =
     upd_shared (\<lambda>_.
       \<lparr>sh_ip_expirations = (\<lambda>ip. map_option (\<lambda>(b, _).
           unix_ns_from_instant (epoch (sv_ring s) + b * ns_per_sec) now_ns now_mono) (expirations (sv_ring s) ip)),
        sh_cidr_expirations = (\<lambda>n. map_option (\<lambda>d. unix_ns_from_instant d now_ns now_mono) (cidr_expirations s n))\<rparr>) s"

section \<open>Restoring\<close>

definition checkpoint_cidr_state :: "u64 \<Rightarrow> instant \<Rightarrow> 'x service \<Rightarrow> ip_network \<Rightarrow> u64 option option" where
  "checkpoint_cidr_state now_ns now_mono s n =
     (if n \<in> active_cidrs (sv_store s)
      then Some (map_option (\<lambda>d. unix_ns_from_instant d now_ns now_mono) (cidr_expirations s n)) else None)"

definition remove_restored_cidr :: "'x applier \<Rightarrow> uuid \<Rightarrow> ip_network \<Rightarrow> 'x service \<Rightarrow> 'x service" where
  "remove_restored_cidr ap d n s =
     (let s = clear_cidr_lease n (upd_cidrs (\<lambda>c. c - {n}) s)
      in s\<lparr>sv_xdp := snd (ap_cidr_unblock ap n d (sv_xdp s))\<rparr>)"

text \<open>The remaining time of a lease comes from the log; adding it to the clock panics on overflow.\<close>

fun restore_cidr_blocks ::
  "'x applier \<Rightarrow> (uuid \<times> clock \<times> ip_network \<times> u64) list \<Rightarrow> 'x service \<Rightarrow> (unit, enforcement_error) outcome \<times> 'x service" where
  "restore_cidr_blocks ap [] s = (Ok (), s)"
| "restore_cidr_blocks ap ((d, t, n, remaining) # ps) s =
     (let s = upd_cidrs (insert n) s in
      case instant_checked_add (ck_mono t) (unat remaining) of
        None \<Rightarrow> (Panic, s)
      | Some at \<Rightarrow>
          let s = (if remaining > 0 then set_cidr_lease n at t s else upd_shared (remove_cidr_expiration n) s)
          in restore_cidr_blocks ap ps (s\<lparr>sv_xdp := snd (ap_cidr_block ap n d remaining (sv_xdp s))\<rparr>))"

fun restore_leases ::
  "(clock \<times> ipaddr \<times> u64) list \<Rightarrow> 'x service \<Rightarrow> (unit, enforcement_error) outcome \<times> 'x service" where
  "restore_leases [] s = (Ok (), s)"
| "restore_leases ((t, ip, remaining) # ps) s =
     (if remaining = 0 then restore_leases ps s
      else case instant_checked_add (ck_mono t) (unat remaining) of
             None \<Rightarrow> (Panic, s)
           | Some at \<Rightarrow> restore_leases ps (set_lease ip at t s))"

definition refresh_mesh_applied_ips :: "u64 \<Rightarrow> instant \<Rightarrow> 'x service \<Rightarrow> 'x service" where
  "refresh_mesh_applied_ips now_ms now s =
     (case mesh_blocklist s of
        None \<Rightarrow> s
      | Some b \<Rightarrow>
          s\<lparr>mesh_applied_ips := mesh_applied_ips s \<union>
              {ip \<in> active_ips now_ms b. case store_get now ip (sv_store s) of
                 Some (IpRecordV r) \<Rightarrow> (case block_state r of Blocked _ _ \<Rightarrow> True | _ \<Rightarrow> False) | _ \<Rightarrow> False}\<rparr>)"

section \<open>The stub dataplane\<close>

definition stub_applier :: "(ip_network \<Rightarrow> string) \<Rightarrow> unit applier" where
  "stub_applier net_str =
     \<lparr>ap_block = (\<lambda>ip d ttl x. (None, x)), ap_unblock = (\<lambda>ip d x. (None, x)),
      ap_cidr_block = (\<lambda>n d ttl x. (Some (XdpError (''CIDR enforcement unsupported: '' @ net_str n)), x)),
      ap_cidr_unblock = (\<lambda>n d x. (Some (XdpError (''CIDR enforcement unsupported: '' @ net_str n)), x)),
      ap_reconcile = (\<lambda>ips ns x.
        (Inr \<lparr>rs_last_wal_lsn = 0, rs_pending_blocks = [], rs_pending_unblocks = [], rs_evicted = 0\<rparr>, x))\<rparr>"

end
