(* ===== verification/Enforcement_Props.thy ===== *)
theory Enforcement_Props
  imports Enforcement
begin

text \<open>
  What each step of the enforcement actor leaves alone, and the cache of processed decisions: a retried decision gets its
  original answer for as long as the cache remembers it, which is for the next 65535 new decisions.
\<close>

section \<open>Frames\<close>

lemma upd_fields [simp]:
  "sv_store (upd_shared f s) = sv_store s" "sv_xdp (upd_shared f s) = sv_xdp s" "sv_wal (upd_shared f s) = sv_wal s"
  "sv_disk (upd_shared f s) = sv_disk s" "processed_results (upd_shared f s) = processed_results s"
  "processed_order (upd_shared f s) = processed_order s" "blocked_ips (upd_shared f s) = blocked_ips s"
  "drops_by_blocked (upd_shared f s) = drops_by_blocked s" "sv_ring (upd_shared f s) = sv_ring s"
  "cidr_expirations (upd_shared f s) = cidr_expirations s" "last_wal_lsn (upd_shared f s) = last_wal_lsn s"
  "mesh_blocklist (upd_shared f s) = mesh_blocklist s" "mesh_handle (upd_shared f s) = mesh_handle s"
  "sv_store (upd_metrics h s) = sv_store s" "sv_xdp (upd_metrics h s) = sv_xdp s" "sv_wal (upd_metrics h s) = sv_wal s"
  "sv_disk (upd_metrics h s) = sv_disk s" "processed_results (upd_metrics h s) = processed_results s"
  "processed_order (upd_metrics h s) = processed_order s" "blocked_ips (upd_metrics h s) = blocked_ips s"
  "drops_by_blocked (upd_metrics h s) = drops_by_blocked s" "sv_ring (upd_metrics h s) = sv_ring s"
  "cidr_expirations (upd_metrics h s) = cidr_expirations s" "last_wal_lsn (upd_metrics h s) = last_wal_lsn s"
  "mesh_blocklist (upd_metrics h s) = mesh_blocklist s" "mesh_handle (upd_metrics h s) = mesh_handle s"
  by (simp_all add: upd_shared_def upd_metrics_def)

lemma upd_cidrs_fields [simp]:
  "sv_store (upd_cidrs f s) = (sv_store s)\<lparr>active_cidrs := f (active_cidrs (sv_store s))\<rparr>" "sv_xdp (upd_cidrs f s) = sv_xdp s"
  "sv_wal (upd_cidrs f s) = sv_wal s" "sv_disk (upd_cidrs f s) = sv_disk s"
  "processed_results (upd_cidrs f s) = processed_results s" "processed_order (upd_cidrs f s) = processed_order s"
  "blocked_ips (upd_cidrs f s) = blocked_ips s" "drops_by_blocked (upd_cidrs f s) = drops_by_blocked s"
  "sv_ring (upd_cidrs f s) = sv_ring s" "cidr_expirations (upd_cidrs f s) = cidr_expirations s"
  "mesh_blocklist (upd_cidrs f s) = mesh_blocklist s" "mesh_handle (upd_cidrs f s) = mesh_handle s"
  by (simp_all add: upd_cidrs_def)

lemma try_run_Ok:
  "try_run m k = (Ok y, s') \<longleftrightarrow> (\<exists>x s. m = (Ok x, s) \<and> k x s = (Ok y, s'))"
  by (cases m; cases "fst m") (auto simp: try_run_def)

lemma try_run_Err:
  "try_run m k = (Err e, s') \<longleftrightarrow> m = (Err e, s') \<or> (\<exists>x s. m = (Ok x, s) \<and> k x s = (Err e, s'))"
  by (cases m; cases "fst m") (auto simp: try_run_def)

text \<open>What a projection may change: the dataplane, the metrics, and the mesh.\<close>

definition proj_frame :: "'x service \<Rightarrow> 'x service \<Rightarrow> bool" where
  "proj_frame s s' \<longleftrightarrow>
     sv_store s' = sv_store s \<and> sv_wal s' = sv_wal s \<and> sv_disk s' = sv_disk s \<and> processed_results s' = processed_results s \<and>
     processed_order s' = processed_order s \<and> blocked_ips s' = blocked_ips s \<and> drops_by_blocked s' = drops_by_blocked s \<and>
     sv_ring s' = sv_ring s \<and> cidr_expirations s' = cidr_expirations s \<and> last_wal_lsn s' = last_wal_lsn s \<and> sv_shared s' = sv_shared s"

lemma publish_ban_frame: "proj_frame s (publish_ban t cmd s)"
  by (auto simp: proj_frame_def publish_ban_def Let_def upd_metrics_def split: option.splits prod.splits)

lemma proj_frame_steps:
  "proj_frame s (s\<lparr>sv_xdp := x\<rparr>)" "proj_frame s s1 \<Longrightarrow> proj_frame s (upd_metrics f s1)"
  "proj_frame s s1 \<Longrightarrow> proj_frame s (publish_ban t cmd s1)"
  using publish_ban_frame [of s1 t cmd] by (simp_all add: proj_frame_def upd_metrics_def)

lemma block_projection_frame: "proj_frame s (snd (apply_block_projection ap t cmd s))"
proof -
  obtain r x where rx: "(case cmd_cidr cmd of
      Some n \<Rightarrow> ap_cidr_block ap n (decision_id cmd) (ttl_seconds cmd) (sv_xdp s)
    | None \<Rightarrow> ap_block ap (cmd_ip cmd) (decision_id cmd) (ttl_seconds cmd) (sv_xdp s)) = (r, x)" by fastforce
  show ?thesis unfolding apply_block_projection_def rx
    by (cases "r = None") (simp_all add: Let_def proj_frame_steps)
qed

lemma release_projection_frame: "proj_frame s (snd (apply_release_projection ap cmd ds s))"
  by (auto simp: proj_frame_def apply_release_projection_def Let_def upd_metrics_def split: option.splits prod.splits)

lemma release_mesh_frame: "proj_frame s (snd (release_mesh t cmd s))"
  by (auto simp: proj_frame_def release_mesh_def Let_def upd_metrics_def split: option.splits prod.splits)

lemma log_entry_frame:
  assumes "log_entry v t sk e s = (r, s')"
  shows "s' = s\<lparr>sv_wal := sv_wal s', sv_disk := sv_disk s', last_wal_lsn := last_wal_lsn s'\<rparr> \<and>
    ((\<exists>x. r = Ok x) \<or> last_wal_lsn s' = last_wal_lsn s)"
  using assms unfolding log_entry_def
  by (auto split: option.splits prod.splits outcome.splits if_splits)

text \<open>What a state change of the actor leaves alone.\<close>

definition commit_frame :: "'x service \<Rightarrow> 'x service \<Rightarrow> bool" where
  "commit_frame s s' \<longleftrightarrow>
     sv_xdp s' = sv_xdp s \<and> sv_wal s' = sv_wal s \<and> sv_disk s' = sv_disk s \<and> processed_results s' = processed_results s \<and>
     processed_order s' = processed_order s \<and> last_wal_lsn s' = last_wal_lsn s"

lemma lease_fields [simp]:
  "sv_store (set_lease ip at t s) = sv_store s" "sv_store (clear_lease ip s) = sv_store s"
  "sv_store (set_cidr_lease n at t s) = sv_store s" "sv_store (clear_cidr_lease n s) = sv_store s"
  "blocked_ips (set_lease ip at t s) = blocked_ips s" "blocked_ips (clear_lease ip s) = blocked_ips s"
  "blocked_ips (set_cidr_lease n at t s) = blocked_ips s" "blocked_ips (clear_cidr_lease n s) = blocked_ips s"
  "drops_by_blocked (set_lease ip at t s) = drops_by_blocked s" "drops_by_blocked (clear_lease ip s) = drops_by_blocked s"
  "drops_by_blocked (set_cidr_lease n at t s) = drops_by_blocked s" "drops_by_blocked (clear_cidr_lease n s) = drops_by_blocked s"
  "sv_ring (set_lease ip at t s) = schedule_expiration ip at (sv_ring s)" "sv_ring (clear_lease ip s) = detach_expiration ip (sv_ring s)"
  "sv_ring (set_cidr_lease n at t s) = sv_ring s" "sv_ring (clear_cidr_lease n s) = sv_ring s"
  "cidr_expirations (set_lease ip at t s) = cidr_expirations s" "cidr_expirations (clear_lease ip s) = cidr_expirations s"
  "cidr_expirations (set_cidr_lease n at t s) = (cidr_expirations s)(n \<mapsto> at)"
  "cidr_expirations (clear_cidr_lease n s) = (cidr_expirations s)(n := None)"
  "mesh_blocklist (set_lease ip at t s) = mesh_blocklist s" "mesh_blocklist (clear_lease ip s) = mesh_blocklist s"
  "mesh_blocklist (set_cidr_lease n at t s) = mesh_blocklist s" "mesh_blocklist (clear_cidr_lease n s) = mesh_blocklist s"
  by (simp_all add: set_lease_def clear_lease_def set_cidr_lease_def clear_cidr_lease_def)

lemma commit_frame_steps [simp]:
  "commit_frame s s" "commit_frame s (set_lease ip at t s1) = commit_frame s s1" "commit_frame s (clear_lease ip s1) = commit_frame s s1"
  "commit_frame s (set_cidr_lease n at t s1) = commit_frame s s1" "commit_frame s (clear_cidr_lease n s1) = commit_frame s s1"
  "commit_frame s (upd_cidrs f s1) = commit_frame s s1" "commit_frame s (s1\<lparr>sv_store := st\<rparr>) = commit_frame s s1"
  "commit_frame s (s1\<lparr>blocked_ips := b\<rparr>) = commit_frame s s1" "commit_frame s (s1\<lparr>drops_by_blocked := d\<rparr>) = commit_frame s s1"
  by (simp_all add: commit_frame_def set_lease_def clear_lease_def set_cidr_lease_def clear_cidr_lease_def upd_shared_def upd_cidrs_def)

lemma commit_block_frame: "commit_block_state v t cmd s = (r, s') \<Longrightarrow> commit_frame s s'"
  unfolding commit_block_state_def Let_def
  by (auto split: option.splits prod.splits outcome.splits bool.splits if_splits)

lemma release_mesh_commit: "release_mesh t cmd s = (ds, s') \<Longrightarrow> commit_frame s s'"
  by (auto simp: commit_frame_def release_mesh_def Let_def upd_metrics_def split: option.splits prod.splits if_splits)

lemma commit_frame_trans: "commit_frame s s1 \<Longrightarrow> commit_frame s1 s2 \<Longrightarrow> commit_frame s s2"
  by (simp add: commit_frame_def)

lemma release_frame:
  assumes "release_state v t cmd s = (r, s')"
  shows "commit_frame s s'"
proof (cases "cmd_cidr cmd")
  case (Some n)
  then show ?thesis using assms by (auto simp: release_state_def)
next
  case None
  obtain r1 s1 where m: "release_store v t (cmd_ip cmd) s = (r1, s1)" by fastforce
  then have f1: "commit_frame s s1" by (auto simp: release_store_def split: option.splits store_value.splits prod.splits)
  let ?s2 = "s1\<lparr>blocked_ips := blocked_ips s1 - {cmd_ip cmd}, drops_by_blocked := (drops_by_blocked s1)(cmd_ip cmd := None)\<rparr>"
  obtain ds s3 where rm: "release_mesh t cmd ?s2 = (ds, s3)" by fastforce
  have "commit_frame ?s2 s3" by (rule release_mesh_commit [OF rm])
  then have "commit_frame s s3" using f1 by (simp add: commit_frame_def)
  then show ?thesis
    using assms f1 rm unfolding release_state_def None Let_def option.case m
    by (cases r1) (auto simp: try_run_def)
qed

section \<open>Idempotence\<close>

definition cache_inv :: "'x service \<Rightarrow> bool" where
  "cache_inv s \<longleftrightarrow>
     distinct (processed_order s) \<and> dom (processed_results s) = set (processed_order s) \<and>
     length (processed_order s) \<le> cache_cap \<and>
     (\<forall>d r. processed_results s d = Some r \<longrightarrow> res_decision_id r = d)"

lemma trim_cache_spec:
  "distinct ds \<Longrightarrow> trim_cache ds m = (drop (length ds - cache_cap) ds, m |` (- set (take (length ds - cache_cap) ds)))"
proof (induction ds arbitrary: m)
  case (Cons d ds)
  show ?case
  proof (cases "length (d # ds) > cache_cap")
    case True
    then have n: "length (d # ds) - cache_cap = Suc (length ds - cache_cap)" by auto
    have "(m(d := None)) |` (- set (take (length ds - cache_cap) ds)) = m |` (- set (take (Suc (length ds - cache_cap)) (d # ds)))"
      by (auto simp: restrict_map_def fun_eq_iff)
    then show ?thesis using Cons True unfolding n by simp
  qed (simp add: restrict_map_def)
qed (simp add: restrict_map_def)

lemma set_drop_distinct:
  assumes "distinct xs"
  shows "set (drop n xs) = set xs - set (take n xs)"
proof -
  have "distinct (take n xs @ drop n xs)" using assms by simp
  then have "set (take n xs) \<inter> set (drop n xs) = {}" by (simp only: distinct_append)
  moreover have "set (take n xs @ drop n xs) = set (take n xs) \<union> set (drop n xs)" by (rule set_append)
  then have "set xs = set (take n xs) \<union> set (drop n xs)" by simp
  ultimately show ?thesis by blast
qed

lemma cacheI:
  assumes "dom m = set ds" "length ds \<le> cache_cap" "distinct ds" "\<forall>d q. m d = Some q \<longrightarrow> res_decision_id q = d" "m d = Some r"
  shows "cache_inv (s\<lparr>processed_results := m, processed_order := ds\<rparr>) \<and>
    processed_results (s\<lparr>processed_results := m, processed_order := ds\<rparr>) d = Some r"
  using assms by (simp add: cache_inv_def)

lemma remember_cache:
  assumes "cache_inv s"
  shows "cache_inv (remember_result r s) \<and> processed_results (remember_result r s) (res_decision_id r) = Some r"
proof (cases "processed_results s (res_decision_id r) = None")
  case True
  let ?d = "res_decision_id r" and ?o = "processed_order s"
  let ?n = "length (?o @ [?d]) - cache_cap"
  have di: "distinct (?o @ [?d])" using assms True by (auto simp: cache_inv_def)
  have cap: "0 < cache_cap" by (simp add: cache_cap_def)
  have n: "?n \<le> length ?o" using cap by simp
  have "set (take ?n (?o @ [?d])) \<subseteq> set ?o" using n by (simp add: set_take_subset)
  then have dn: "?d \<notin> set (take ?n (?o @ [?d]))" using di by auto
  have m: "remember_result r s = s\<lparr>processed_results := ((processed_results s)(?d \<mapsto> r)) |` (- set (take ?n (?o @ [?d]))),
      processed_order := drop ?n (?o @ [?d])\<rparr>"
    using True trim_cache_spec [OF di] by (simp add: remember_result_def Let_def)
  have st: "set (drop ?n (?o @ [?d])) = set (?o @ [?d]) - set (take ?n (?o @ [?d]))"
    by (rule set_drop_distinct [OF di])
  have "dom (((processed_results s)(?d \<mapsto> r)) |` (- set (take ?n (?o @ [?d])))) = set (drop ?n (?o @ [?d]))"
  proof -
    have d: "dom ((processed_results s)(?d \<mapsto> r)) = set (?o @ [?d])" using assms by (auto simp: cache_inv_def)
    show ?thesis unfolding st dom_restrict d by blast
  qed
  moreover have "length (drop ?n (?o @ [?d])) \<le> cache_cap" by simp
  moreover have "distinct (drop ?n (?o @ [?d]))" using di by (rule distinct_drop)
  moreover have "\<forall>d q. (((processed_results s)(?d \<mapsto> r)) |` (- set (take ?n (?o @ [?d])))) d = Some q \<longrightarrow> res_decision_id q = d"
    using assms by (auto simp: cache_inv_def restrict_map_def split: if_splits)
  moreover have "(((processed_results s)(?d \<mapsto> r)) |` (- set (take ?n (?o @ [?d])))) ?d = Some r" using dn by simp
  ultimately show ?thesis unfolding m by (intro cacheI)
next
  case False
  then show ?thesis using assms by (auto simp: remember_result_def Let_def cache_inv_def)
qed

lemma commit_action_Ok:
  assumes "commit_action v ap t cmd lsn s = (Ok r, s')"
  shows "\<exists>s1 s2 x. r = enforce_result_of (decision_id cmd) lsn x \<and> s' = remember_result r s2 \<and> proj_frame s1 s2 \<and>
    (cmd_action cmd = ActBlock \<and> commit_block_state v t cmd s = (Ok (), s1) \<or>
     cmd_action cmd = ActUnblock \<and> (\<exists>ds. release_state v t cmd s = (Ok ds, s1)))"
proof (cases "cmd_action cmd")
  case ActBlock
  obtain u s1 where c: "commit_block_state v t cmd s = (Ok u, s1)"
    and k: "(let (x, s) = apply_block_projection ap t cmd s1; r = enforce_result_of (decision_id cmd) lsn x
      in (Ok r :: (_, enforcement_error) outcome, remember_result r s)) = (Ok r, s')"
    using assms unfolding commit_action_def ActBlock enforce_action.case try_run_Ok by blast
  obtain x s2 where a: "apply_block_projection ap t cmd s1 = (x, s2)" by fastforce
  have "proj_frame s1 s2" using block_projection_frame [of s1 ap t cmd] a by simp
  then show ?thesis using c k a ActBlock by (intro exI [of _ s1] exI [of _ s2] exI [of _ x]) (auto simp: Let_def)
next
  case ActUnblock
  obtain ds s1 where c: "release_state v t cmd s = (Ok ds, s1)"
    and k: "(let (x, s) = apply_release_projection ap cmd ds s1; r = enforce_result_of (decision_id cmd) lsn x
      in (Ok r :: (_, enforcement_error) outcome, remember_result r s)) = (Ok r, s')"
    using assms unfolding commit_action_def ActUnblock enforce_action.case try_run_Ok by blast
  obtain x s2 where a: "apply_release_projection ap cmd ds s1 = (x, s2)" by fastforce
  have "proj_frame s1 s2" using release_projection_frame [of s1 ap cmd ds] a by simp
  then show ?thesis using c k a ActUnblock by (intro exI [of _ s1] exI [of _ s2] exI [of _ x]) (auto simp: Let_def)
qed

lemma commit_action_stop:
  assumes "commit_action v ap t cmd lsn s = (r, s')" "\<And>x. r \<noteq> Ok x"
  shows "commit_frame s s'"
proof (cases "cmd_action cmd")
  case ActBlock
  obtain q s1 where c: "commit_block_state v t cmd s = (q, s1)" by fastforce
  from commit_block_frame [OF c] assms show ?thesis
    unfolding commit_action_def ActBlock enforce_action.case c
    by (cases q) (auto simp: try_run_def Let_def split: prod.splits)
next
  case ActUnblock
  obtain q s1 where c: "release_state v t cmd s = (q, s1)" by fastforce
  from release_frame [OF c] assms show ?thesis
    unfolding commit_action_def ActUnblock enforce_action.case c
    by (cases q) (auto simp: try_run_def Let_def split: prod.splits)
qed

lemma journal_frame:
  assumes "journal v t cmd mu d s = (r, s')"
  shows "s' = s\<lparr>sv_wal := sv_wal s', sv_disk := sv_disk s', last_wal_lsn := last_wal_lsn s'\<rparr> \<and>
    ((\<exists>x. r = Ok x) \<or> last_wal_lsn s' = last_wal_lsn s)"
proof (cases mu)
  case None
  show ?thesis
  proof (cases "d = AlreadyDurable")
    case True
    then show ?thesis using assms None by (auto simp: journal_def)
  next
    case False
    then have "log_entry v t append_is_durable (command_entry v (ck_wal_ns t) cmd) s = (r, s')"
      using assms None by (simp add: journal_def append_wal_def)
    then show ?thesis by (rule log_entry_frame)
  qed
next
  case (Some m)
  then have "log_entry v t (\<lambda>_. False) (to_wal_entry v (ck_wal_ns t) m) s = (r, s')"
    using assms by (simp add: journal_def append_mesh_wal_def)
  then show ?thesis by (rule log_entry_frame)
qed

lemma journal_fields:
  assumes "journal v t cmd mu d s = (r, s')"
  shows "sv_store s' = sv_store s" "sv_xdp s' = sv_xdp s" "processed_results s' = processed_results s"
    "processed_order s' = processed_order s" "blocked_ips s' = blocked_ips s" "drops_by_blocked s' = drops_by_blocked s"
    "sv_ring s' = sv_ring s" "cidr_expirations s' = cidr_expirations s" "mesh_blocklist s' = mesh_blocklist s"
    "mesh_handle s' = mesh_handle s" "sv_metrics s' = sv_metrics s" "sv_shared s' = sv_shared s"
proof -
  obtain w k l where e: "s' = s\<lparr>sv_wal := w, sv_disk := k, last_wal_lsn := l\<rparr>"
    using conjunct1 [OF journal_frame [OF assms]] by blast
  show "sv_store s' = sv_store s" "sv_xdp s' = sv_xdp s" "processed_results s' = processed_results s"
    "processed_order s' = processed_order s" "blocked_ips s' = blocked_ips s" "drops_by_blocked s' = drops_by_blocked s"
    "sv_ring s' = sv_ring s" "cidr_expirations s' = cidr_expirations s" "mesh_blocklist s' = mesh_blocklist s"
    "mesh_handle s' = mesh_handle s" "sv_metrics s' = sv_metrics s" "sv_shared s' = sv_shared s"
    unfolding e by simp_all
qed

lemma commit_action_cache:
  assumes "cache_inv s" "commit_action v ap t cmd lsn s = (r, s')"
  shows "cache_inv s' \<and> (\<forall>x. r = Ok x \<longrightarrow> processed_results s' (decision_id cmd) = Some x)"
proof (cases "\<exists>x. r = Ok x")
  case True
  then obtain x where x: "r = Ok x" by blast
  from commit_action_Ok [OF assms(2) [unfolded x]] obtain s1 s2 y where
    r: "x = enforce_result_of (decision_id cmd) lsn y" "s' = remember_result x s2" "proj_frame s1 s2"
    and c: "(\<exists>q. commit_block_state v t cmd s = (q, s1)) \<or> (\<exists>q. release_state v t cmd s = (q, s1))" by blast
  have "commit_frame s s1" using c commit_block_frame release_frame by blast
  then have "cache_inv s2" using assms(1) r(3) by (simp add: cache_inv_def commit_frame_def proj_frame_def)
  from remember_cache [OF this, of x] show ?thesis using x r by (simp add: enforce_result_of_def)
next
  case False
  then have "commit_frame s s'" using commit_action_stop [OF assms(2)] by blast
  then show ?thesis using assms(1) False by (simp add: cache_inv_def commit_frame_def)
qed

lemma enforce_cache:
  assumes inv: "cache_inv s" and run: "enforce_inner v ap t cmd mu d s = (q, s')"
  shows "cache_inv s' \<and> (\<forall>r. q = Ok r \<longrightarrow> processed_results s' (decision_id cmd) = Some r)"
proof (cases "processed_results s (decision_id cmd)")
  case (Some r)
  then show ?thesis using inv run by (auto simp: enforce_inner_def)
next
  case None
  show ?thesis
  proof (cases "is_unspecified (cmd_ip cmd)")
    case True
    then show ?thesis using inv run None by (auto simp: enforce_inner_def)
  next
    case False
    obtain j s1 where jr: "journal v t cmd mu d s = (j, s1)" by fastforce
    have "cache_inv s1" using inv journal_fields [OF jr] by (simp add: cache_inv_def)
    then have c: "cache_inv (case mu of None \<Rightarrow> s1 | Some m \<Rightarrow> s1\<lparr>mesh_blocklist := map_option (merge_mutation t m) (mesh_blocklist s1)\<rparr>)"
      by (auto simp: cache_inv_def split: option.split)
    from run None False jr show ?thesis
      using commit_action_cache [OF c] \<open>cache_inv s1\<close>
      by (cases j) (auto simp: enforce_inner_def try_run_def)
  qed
qed

lemma enforce_cache_step:
  assumes run: "enforce_inner v ap t cmd mu d s = (q, s')"
  shows "processed_results s (decision_id cmd) = None \<and> (\<exists>r s2. q = Ok r \<and> s' = remember_result r s2 \<and>
      res_decision_id r = decision_id cmd \<and> processed_results s2 = processed_results s \<and> processed_order s2 = processed_order s) \<or>
    \<not> (processed_results s (decision_id cmd) = None \<and> (\<exists>r. q = Ok r)) \<and>
      processed_results s' = processed_results s \<and> processed_order s' = processed_order s"
proof (cases "processed_results s (decision_id cmd) = None \<and> \<not> is_unspecified (cmd_ip cmd)")
  case True
  obtain j s1 where jr: "journal v t cmd mu d s = (j, s1)" by fastforce
  let ?s2 = "case mu of None \<Rightarrow> s1 | Some m \<Rightarrow> s1\<lparr>mesh_blocklist := map_option (merge_mutation t m) (mesh_blocklist s1)\<rparr>"
  have c: "processed_results s1 = processed_results s" "processed_order s1 = processed_order s"
    "processed_results ?s2 = processed_results s" "processed_order ?s2 = processed_order s"
    using journal_fields [OF jr] by (simp_all split: option.split)
  show ?thesis
  proof (cases j)
    case (Ok lsn)
    then have a: "commit_action v ap t cmd lsn ?s2 = (q, s')" using run True jr by (simp add: enforce_inner_def try_run_def)
    show ?thesis
    proof (cases "\<exists>r. q = Ok r")
      case True': True
      then obtain r where r: "q = Ok r" by blast
      from commit_action_Ok [OF a [unfolded r]] obtain s3 s4 x where
        e: "r = enforce_result_of (decision_id cmd) lsn x" "s' = remember_result r s4" "proj_frame s3 s4"
        and k: "(\<exists>q. commit_block_state v t cmd ?s2 = (q, s3)) \<or> (\<exists>q. release_state v t cmd ?s2 = (q, s3))" by blast
      have "commit_frame ?s2 s3" using k commit_block_frame release_frame by blast
      then have "processed_results s4 = processed_results s" "processed_order s4 = processed_order s"
        using e(3) c(3,4) by (simp_all add: commit_frame_def proj_frame_def)
      moreover have "res_decision_id r = decision_id cmd" using e(1) by (simp add: enforce_result_of_def)
      ultimately show ?thesis using True r e(2) by blast
    next
      case False
      then have "commit_frame ?s2 s'" using commit_action_stop [OF a] by blast
      then show ?thesis using False c by (simp add: commit_frame_def)
    qed
  qed (use run True jr c in \<open>auto simp: enforce_inner_def try_run_def\<close>)
next
  case False
  then show ?thesis using run by (auto simp: enforce_inner_def split: option.splits)
qed

text \<open>Remembering a new decision appends it and drops the oldest one beyond the bound.\<close>

lemma remember_fields:
  assumes "distinct (processed_order s @ [res_decision_id r])" "processed_results s (res_decision_id r) = None"
  shows "processed_order (remember_result r s) =
      drop (Suc (length (processed_order s)) - cache_cap) (processed_order s @ [res_decision_id r])"
    and "processed_results (remember_result r s) = ((processed_results s)(res_decision_id r \<mapsto> r)) |`
      (- set (take (Suc (length (processed_order s)) - cache_cap) (processed_order s @ [res_decision_id r])))"
  using assms trim_cache_spec [OF assms(1)] by (simp_all add: remember_result_def Let_def)

text \<open>A request to the actor with the environment it runs in.\<close>

type_synonym 'x request = "env \<times> 'x applier \<times> clock \<times> enforce_command \<times> pending_mesh_mutation option \<times> wal_durability"

fun request_id :: "'x request \<Rightarrow> uuid" where
  "request_id (v, ap, t, cmd, mu, d) = decision_id cmd"

fun serve :: "'x request \<Rightarrow> 'x service \<Rightarrow> (enforce_result, enforcement_error) outcome \<times> 'x service" where
  "serve (v, ap, t, cmd, mu, d) s = enforce_inner v ap t cmd mu d s"

fun serve_all :: "'x request list \<Rightarrow> 'x service \<Rightarrow> 'x service" where
  "serve_all [] s = s"
| "serve_all (q # qs) s = serve_all qs (snd (serve q s))"

text \<open>How many of the requests are answered as new decisions.\<close>

fun new_answers :: "'x request list \<Rightarrow> 'x service \<Rightarrow> nat" where
  "new_answers [] s = 0"
| "new_answers (q # qs) s =
     (case (processed_results s (request_id q), fst (serve q s)) of (None, Ok _) \<Rightarrow> 1 | _ \<Rightarrow> 0) +
     new_answers qs (snd (serve q s))"

text \<open>The answer \<open>r\<close> is in the cache, followed by \<open>n\<close> newer ones.\<close>

definition answer_held :: "enforce_result \<Rightarrow> nat \<Rightarrow> 'x service \<Rightarrow> bool" where
  "answer_held r n s \<longleftrightarrow> processed_results s (res_decision_id r) = Some r \<and>
     (\<exists>pre suf. processed_order s = pre @ res_decision_id r # suf \<and> length suf = n)"

lemma remember_holds:
  assumes inv: "cache_inv s" and new: "processed_results s (res_decision_id r) = None"
  shows "answer_held r 0 (remember_result r s)"
proof -
  have di: "distinct (processed_order s @ [res_decision_id r])" using inv new by (auto simp: cache_inv_def)
  have "Suc (length (processed_order s)) - cache_cap \<le> length (processed_order s)" by (simp add: cache_cap_def)
  then have "processed_order (remember_result r s) =
      drop (Suc (length (processed_order s)) - cache_cap) (processed_order s) @ res_decision_id r # []"
    unfolding remember_fields(1) [OF di new] by simp
  then show ?thesis using remember_cache [OF inv, of r] unfolding answer_held_def by auto
qed

lemma remember_keeps:
  assumes inv: "cache_inv s" and new: "processed_results s (res_decision_id r') = None" and held: "answer_held r n s"
  shows "if Suc n < cache_cap then answer_held r (Suc n) (remember_result r' s)
    else processed_results (remember_result r' s) (res_decision_id r) = None"
proof -
  let ?d = "res_decision_id r" and ?d' = "res_decision_id r'" and ?o = "processed_order s"
  let ?k = "Suc (length ?o) - cache_cap"
  obtain pre suf where o: "?o = pre @ ?d # suf" "length suf = n" and m: "processed_results s ?d = Some r"
    using held by (auto simp: answer_held_def)
  have di: "distinct (?o @ [?d'])" using inv new by (auto simp: cache_inv_def)
  have ne: "?d \<noteq> ?d'" using m new by auto
  have len: "length ?o \<le> cache_cap" using inv by (simp add: cache_inv_def)
  note f = remember_fields [OF di new]
  show ?thesis
  proof (cases "Suc n < cache_cap")
    case True
    then have k: "?k \<le> length pre" using o by simp
    have "processed_order (remember_result r' s) = drop ?k pre @ ?d # (suf @ [?d'])"
      unfolding f(1) using k o(1) by simp
    moreover have "?d \<notin> set (take ?k (?o @ [?d']))"
    proof -
      have "take ?k (?o @ [?d']) = take ?k pre" using k o(1) by simp
      moreover have "?d \<notin> set pre" using di o(1) by auto
      ultimately show ?thesis by (metis in_set_takeD)
    qed
    then have "processed_results (remember_result r' s) ?d = Some r" unfolding f(2) using m ne by simp
    moreover have "length (suf @ [?d']) = Suc n" using o(2) by simp
    ultimately have "answer_held r (Suc n) (remember_result r' s)" unfolding answer_held_def by blast
    then show ?thesis using True by simp
  next
    case False
    have "length ?o = length pre + Suc n" using o by simp
    then have "length pre = 0" "?k = 1" using False len by linarith+
    then have p: "pre = []" "?k = 1" by simp_all
    have "take ?k (?o @ [?d']) = [?d]" unfolding p(2) using o(1) p(1) by simp
    then have "processed_results (remember_result r' s) ?d = None" unfolding f(2) by simp
    then show ?thesis using False by simp
  qed
qed

lemma answer_held_cong:
  "processed_results s' = processed_results s \<Longrightarrow> processed_order s' = processed_order s \<Longrightarrow> answer_held r n s' = answer_held r n s"
  by (simp add: answer_held_def)

lemma cache_inv_cong:
  "processed_results s' = processed_results s \<Longrightarrow> processed_order s' = processed_order s \<Longrightarrow> cache_inv s' = cache_inv s"
  by (simp add: cache_inv_def)

lemma serve_cache:
  assumes "serve q s = (a, s')"
  shows "processed_results s (request_id q) = None \<and> (\<exists>r s2. a = Ok r \<and> s' = remember_result r s2 \<and>
      res_decision_id r = request_id q \<and> processed_results s2 = processed_results s \<and> processed_order s2 = processed_order s) \<or>
    \<not> (processed_results s (request_id q) = None \<and> (\<exists>r. a = Ok r)) \<and>
      processed_results s' = processed_results s \<and> processed_order s' = processed_order s"
proof -
  obtain v ap t cmd mu d where q: "q = (v, ap, t, cmd, mu, d)" by (cases q)
  then have "enforce_inner v ap t cmd mu d s = (a, s')" using assms by simp
  from enforce_cache_step [OF this] show ?thesis unfolding q request_id.simps .
qed

lemma serve_inv: "cache_inv s \<Longrightarrow> cache_inv (snd (serve q s))"
proof -
  assume inv: "cache_inv s"
  obtain v ap t cmd mu d where q: "q = (v, ap, t, cmd, mu, d)" by (cases q)
  have "enforce_inner v ap t cmd mu d s = (fst (serve q s), snd (serve q s))" unfolding q by simp
  from enforce_cache [OF inv this] show ?thesis by blast
qed

lemma serve_all_held:
  assumes "cache_inv s" "answer_held r n s" "n + new_answers qs s < cache_cap"
  shows "answer_held r (n + new_answers qs s) (serve_all qs s)"
  using assms
proof (induction qs arbitrary: n s)
  case (Cons q qs)
  obtain a s' where sv: "serve q s = (a, s')" by fastforce
  have inv: "cache_inv s'" using serve_inv [OF Cons.prems(1), of q] sv by simp
  from serve_cache [OF sv] show ?case
  proof
    assume "processed_results s (request_id q) = None \<and> (\<exists>r s2. a = Ok r \<and> s' = remember_result r s2 \<and>
      res_decision_id r = request_id q \<and> processed_results s2 = processed_results s \<and> processed_order s2 = processed_order s)"
    then obtain r' s2 where e: "processed_results s (request_id q) = None" "a = Ok r'" "s' = remember_result r' s2"
      "res_decision_id r' = request_id q" and c: "processed_results s2 = processed_results s" "processed_order s2 = processed_order s"
      by blast
    have n: "new_answers (q # qs) s = Suc (new_answers qs s')" using sv e by simp
    have "cache_inv s2" "answer_held r n s2" "processed_results s2 (res_decision_id r') = None"
      using Cons.prems(1,2) c(1) e(1,4) cache_inv_cong [OF c] answer_held_cong [OF c] by simp_all
    from remember_keeps [OF this(1) this(3) this(2)] have "answer_held r (Suc n) s'" using Cons.prems(3) n e(3) by simp
    from Cons.IH [OF inv this] show ?thesis using Cons.prems(3) n sv by simp
  next
    assume u: "\<not> (processed_results s (request_id q) = None \<and> (\<exists>r. a = Ok r)) \<and>
      processed_results s' = processed_results s \<and> processed_order s' = processed_order s"
    then have n: "new_answers (q # qs) s = new_answers qs s'" using sv by (auto split: option.split outcome.split)
    have "answer_held r n s'" using Cons.prems(2) u answer_held_cong [of s' s] by simp
    from Cons.IH [OF inv this] show ?thesis using Cons.prems(3) n sv by simp
  qed
qed simp

lemma serve_all_forgotten:
  assumes "cache_inv s" "processed_results s d = None" "d \<notin> request_id ` set qs"
  shows "processed_results (serve_all qs s) d = None"
  using assms
proof (induction qs arbitrary: s)
  case (Cons q qs)
  obtain a s' where sv: "serve q s = (a, s')" by fastforce
  have inv: "cache_inv s'" using serve_inv [OF Cons.prems(1), of q] sv by simp
  have "processed_results s' d = None"
  proof -
    from serve_cache [OF sv] show ?thesis
    proof
      assume "processed_results s (request_id q) = None \<and> (\<exists>r s2. a = Ok r \<and> s' = remember_result r s2 \<and>
        res_decision_id r = request_id q \<and> processed_results s2 = processed_results s \<and> processed_order s2 = processed_order s)"
      then obtain r s2 where e: "processed_results s (request_id q) = None" "s' = remember_result r s2"
        "res_decision_id r = request_id q" and c: "processed_results s2 = processed_results s" "processed_order s2 = processed_order s"
        by blast
      have "distinct (processed_order s2 @ [res_decision_id r])" "processed_results s2 (res_decision_id r) = None"
        using Cons.prems(1) c e(1,3) by (auto simp: cache_inv_def)
      from remember_fields(2) [OF this] show ?thesis using e c Cons.prems(2,3) by (simp add: restrict_map_def)
    qed (use Cons.prems(2) in simp)
  qed
  from Cons.IH [OF inv this] show ?case using Cons.prems(3) sv by simp
qed simp

lemma serve_all_dropped:
  assumes "cache_inv s" "answer_held r n s" "n < cache_cap" "cache_cap \<le> n + new_answers qs s" "res_decision_id r \<notin> request_id ` set qs"
  shows "processed_results (serve_all qs s) (res_decision_id r) = None"
  using assms
proof (induction qs arbitrary: n s)
  case (Cons q qs)
  obtain a s' where sv: "serve q s = (a, s')" by fastforce
  have inv: "cache_inv s'" using serve_inv [OF Cons.prems(1), of q] sv by simp
  from serve_cache [OF sv] show ?case
  proof
    assume "processed_results s (request_id q) = None \<and> (\<exists>r s2. a = Ok r \<and> s' = remember_result r s2 \<and>
      res_decision_id r = request_id q \<and> processed_results s2 = processed_results s \<and> processed_order s2 = processed_order s)"
    then obtain r' s2 where e: "processed_results s (request_id q) = None" "a = Ok r'" "s' = remember_result r' s2"
      "res_decision_id r' = request_id q" and c: "processed_results s2 = processed_results s" "processed_order s2 = processed_order s"
      by blast
    have n: "new_answers (q # qs) s = Suc (new_answers qs s')" using sv e by simp
    have "cache_inv s2" "answer_held r n s2" "processed_results s2 (res_decision_id r') = None"
      using Cons.prems(1,2) c(1) e(1,4) cache_inv_cong [OF c] answer_held_cong [OF c] by simp_all
    note k = remember_keeps [OF this(1) this(3) this(2)]
    show ?thesis
    proof (cases "Suc n < cache_cap")
      case True
      then have "answer_held r (Suc n) s'" using k e(3) by simp
      from Cons.IH [OF inv this True] show ?thesis using Cons.prems(4,5) n sv by simp
    next
      case False
      then have "processed_results s' (res_decision_id r) = None" using k e(3) by simp
      from serve_all_forgotten [OF inv this, of qs] show ?thesis using Cons.prems(5) sv by simp
    qed
  next
    assume u: "\<not> (processed_results s (request_id q) = None \<and> (\<exists>r. a = Ok r)) \<and>
      processed_results s' = processed_results s \<and> processed_order s' = processed_order s"
    then have n: "new_answers (q # qs) s = new_answers qs s'" using sv by (auto split: option.split outcome.split)
    have "answer_held r n s'" using Cons.prems(2) u answer_held_cong [of s' s] by simp
    from Cons.IH [OF inv this Cons.prems(3)] show ?thesis using Cons.prems(4,5) n sv by simp
  qed
qed simp

lemma new_answers_le: "new_answers qs s \<le> length qs"
proof (induction qs arbitrary: s)
  case (Cons q qs)
  show ?case using Cons.IH [of "snd (serve q s)"] by (auto split: option.split outcome.split)
qed simp

text \<open>C8: Decisions are idempotent while the cache remembers them, and it remembers exactly the next 65535
  new ones. Take a request whose decision was not in the cache and that was answered, and let the actor serve any
  further requests. As long as fewer than 65536 of these were answered as new decisions, a request with
  the identifier of the first one, in whatever form, gets the original answer and changes nothing. Once 65536 new
  decisions were answered and none of them carries that identifier, the answer is forgotten: a retry would be
  processed as a new command.\<close>

theorem enforce_idempotent:
  assumes inv: "cache_inv s" and new: "processed_results s (request_id q) = None" and run: "serve q s = (Ok r, s1)"
  shows "(new_answers qs s1 < 65536 \<longrightarrow> request_id q' = request_id q \<longrightarrow>
      serve q' (serve_all qs s1) = (Ok r, serve_all qs s1)) \<and>
    (65536 \<le> new_answers qs s1 \<longrightarrow> request_id q \<notin> request_id ` set qs \<longrightarrow>
      processed_results (serve_all qs s1) (request_id q) = None)"
proof -
  from serve_cache [OF run] new obtain s2 where e: "s1 = remember_result r s2" "res_decision_id r = request_id q"
    and c: "processed_results s2 = processed_results s" "processed_order s2 = processed_order s" by blast
  have "cache_inv s2" "processed_results s2 (res_decision_id r) = None" using inv new c(1) e(2) cache_inv_cong [OF c] by simp_all
  then have held: "answer_held r 0 s1" unfolding e(1) by (rule remember_holds)
  have inv1: "cache_inv s1" using serve_inv [OF inv, of q] run by simp
  show ?thesis
  proof (intro conjI impI)
    assume n: "new_answers qs s1 < 65536" and id: "request_id q' = request_id q"
    then have "processed_results (serve_all qs s1) (request_id q') = Some r"
      using serve_all_held [OF inv1 held, of qs] e(2) by (simp add: cache_cap_def answer_held_def)
    then show "serve q' (serve_all qs s1) = (Ok r, serve_all qs s1)"
      by (cases q') (simp add: enforce_inner_def)
  next
    assume "65536 \<le> new_answers qs s1" "request_id q \<notin> request_id ` set qs"
    then show "processed_results (serve_all qs s1) (request_id q) = None"
      using serve_all_dropped [OF inv1 held, of qs] e(2) by (simp add: cache_cap_def)
  qed
qed

lemma enforce_inner_Ok:
  assumes "enforce_inner v ap t cmd mu d s = (Ok r, s')" "processed_results s (decision_id cmd) = None"
  shows "\<exists>lsn s1. \<not> is_unspecified (cmd_ip cmd) \<and> journal v t cmd mu d s = (Ok lsn, s1) \<and>
    commit_action v ap t cmd lsn
      (case mu of None \<Rightarrow> s1 | Some m \<Rightarrow> s1\<lparr>mesh_blocklist := map_option (merge_mutation t m) (mesh_blocklist s1)\<rparr>) = (Ok r, s')"
  using assms by (auto simp: enforce_inner_def try_run_Ok split: if_splits)

text \<open>A concrete scene: an empty store with the default memory limit, an operator's block of 1.2.3.4 without a
  time limit, and the stub dataplane.\<close>

definition lab_env :: env where
  "lab_env = \<lparr>e_base = 100, e_crc = (\<lambda>_. 7), e_compress = store_only,
     e_enc = (\<lambda>e. if e = EBlockIp ''1.2.3.4'' ''operator'' None 0 then Inr [5] else Inl ''unsupported''),
     e_ip_str = (\<lambda>_. ''1.2.3.4''), e_uuid_str = (\<lambda>_. ''-'')\<rparr>"

definition lab_clock :: clock where
  "lab_clock = \<lparr>ck_wal_ns = 0, ck_commit_ns = 0, ck_now_ns = 0, ck_unix_ns = 0, ck_mono = 0, ck_fallback = 0, ck_mirror = 0,
     ck_store = 0, ck_mesh = 0, ck_mesh' = 0, ck_epoch_secs = 0\<rparr>"

definition lab_block :: enforce_command where
  "lab_block = \<lparr>decision_id = 1, policy_version = 0, cmd_source = ''api'', cmd_actor = ''operator'', timestamp_utc = 0,
     ttl_seconds = 0, cmd_reason = ''operator'', cmd_ip = V4 0x01020304, cmd_cidr = None, cmd_action = ActBlock,
     evidence = LocalSignals\<rparr>"

definition lab_store :: store where
  "lab_store = store_new\<lparr>traffic := traffic_new\<lparr>ram_limit_mb := 512\<rparr>\<rparr>"

abbreviation lab_stub :: "unit applier" where
  "lab_stub \<equiv> stub_applier (\<lambda>_. ''-'')"

abbreviation lab_service :: "unit service" where
  "lab_service \<equiv> service_new lab_store () empty_disk 0"

lemma lab_reserve: "reserve 100 536870912 lab_store = Ok (lab_store\<lparr>ram_bytes := 100\<rparr>)"
  by (simp add: reserve_def checked_add_def lab_store_def store_new_def)

lemma lab_limit: "ram_limit lab_store = Some 536870912"
  by (simp add: ram_limit_def lab_store_def)

lemma lab_update:
  "fst (update_block_state 100 0 (V4 0x01020304) b 536870912 lab_store) = Ok True"
  using lab_reserve by (simp add: update_block_state_def lab_store_def store_new_def)

lemma lab_commit:
  assumes "sv_store s = lab_store"
  shows "\<exists>s'. commit_block_state lab_env lab_clock lab_block s = (Ok (), s')"
proof -
  obtain st where "update_block_state 100 0 (V4 0x01020304) (Blocked (reason_to_block_reason ''operator'') 0) 536870912 lab_store = (Ok True, st)"
    using lab_update by (metis prod.collapse)
  then show ?thesis using assms
    by (simp add: commit_block_state_def lab_block_def lab_env_def lab_clock_def lab_limit Let_def)
qed

lemma lab_projection: "fst (apply_block_projection lab_stub lab_clock lab_block s) = True"
  by (simp add: apply_block_projection_def lab_block_def stub_applier_def Let_def)

lemma lab_action:
  assumes "sv_store s = lab_store"
  shows "fst (commit_action lab_env lab_stub lab_clock lab_block lsn s) = Ok (enforce_result_of 1 lsn True)"
proof -
  obtain s1 where "commit_block_state lab_env lab_clock lab_block s = (Ok (), s1)" using lab_commit [OF assms] by blast
  moreover obtain s2 where "apply_block_projection lab_stub lab_clock lab_block s1 = (True, s2)"
    using lab_projection by (metis prod.collapse)
  ultimately show ?thesis by (simp add: commit_action_def lab_block_def try_run_def Let_def)
qed

lemma lab_enforce:
  "fst (enforce lab_env lab_stub lab_clock lab_block lab_service) = Ok (enforce_result_of 1 None True)"
proof -
  have "journal lab_env lab_clock lab_block None AppendRecord lab_service = (Ok None, lab_service)"
    by (simp add: journal_def append_wal_def log_entry_def service_new_def)
  moreover have "\<not> is_unspecified (cmd_ip lab_block)" by (simp add: lab_block_def)
  moreover have "processed_results lab_service (decision_id lab_block) = None" "sv_store lab_service = lab_store"
    by (simp_all add: service_new_def)
  ultimately show ?thesis using lab_action [of lab_service None] by (simp add: enforce_def enforce_inner_def try_run_def)
qed

abbreviation lab_request :: "enforce_command \<Rightarrow> unit request" where
  "lab_request cmd \<equiv> (lab_env, lab_stub, lab_clock, cmd, None, AppendRecord)"

text \<open>The witness blocks 1.2.3.4, releases it under a second decision, and retries the first one.\<close>

theorem enforce_idempotent_witness:
  "\<exists>s1. serve (lab_request lab_block) lab_service = (Ok (enforce_result_of 1 None True), s1) \<and>
     (let s2 = serve_all [lab_request (lab_block\<lparr>decision_id := 2, cmd_action := ActUnblock\<rparr>)] s1
      in serve (lab_request lab_block) s2 = (Ok (enforce_result_of 1 None True), s2))"
proof -
  let ?qs = "[lab_request (lab_block\<lparr>decision_id := 2, cmd_action := ActUnblock\<rparr>)]"
  obtain s1 where s1: "serve (lab_request lab_block) lab_service = (Ok (enforce_result_of 1 None True), s1)"
    using lab_enforce unfolding enforce_def serve.simps by (metis prod.collapse)
  have "cache_inv lab_service" "processed_results lab_service (request_id (lab_request lab_block)) = None"
    by (simp_all add: cache_inv_def service_new_def)
  note idem = enforce_idempotent [OF this s1, of ?qs "lab_request lab_block"]
  have "new_answers ?qs s1 < 65536" using new_answers_le [of ?qs s1] by (simp del: new_answers.simps)
  with idem have "serve (lab_request lab_block) (serve_all ?qs s1) = (Ok (enforce_result_of 1 None True), serve_all ?qs s1)"
    by blast
  with s1 show ?thesis unfolding Let_def by blast
qed

end
