(* ===== verification/Enforcement_Wal.thy ===== *)
theory Enforcement_Wal
  imports Enforcement_Props
begin

text \<open>
  The enforcement actor on its log: a command that was answered is on disk. The lemmas carry the facts of the
  log (\<^verbatim>\<open>crates/ramwal\<close>) through the adapter (\<^verbatim>\<open>crates/ramshield-storage/src/wal.rs\<close>) to \<^verbatim>\<open>append_wal\<close> and \<^verbatim>\<open>append_mesh_wal\<close> of
  \<^verbatim>\<open>crates/ramshield-enforcement/src/service/enforce.rs\<close>.
\<close>

section \<open>What no call of the log changes\<close>

definition same_log :: "wal \<Rightarrow> wal \<Rightarrow> bool" where
  "same_log g g' \<longleftrightarrow> lsn_counter g' = lsn_counter g \<and> w_durability g' = w_durability g"

lemma same_log_poison [simp]: "same_log g (poison g') = same_log g g'"
  by (simp add: same_log_def poison_def)

lemma same_log_flush_buf: "flush_buf g w = (r, g', w') \<Longrightarrow> same_log g g'"
  by (auto simp: same_log_def flush_buf_def split: if_splits prod.splits option.splits)

lemma same_log_sync_inner: "sync_inner g w = (r, g', w') \<Longrightarrow> same_log g g'"
  by (auto simp: sync_inner_def sync_data_def split: if_splits prod.splits option.splits dest: same_log_flush_buf)

lemma same_log_write_all: "write_all bs g w = (r, g', w') \<Longrightarrow> same_log g g'"
  by (auto simp: write_all_def Let_def same_log_def split: if_splits prod.splits option.splits
      dest!: same_log_flush_buf [unfolded same_log_def])

lemma same_log_barrier: "barrier now g w = (r, g', w') \<Longrightarrow> same_log g g'"
  by (auto simp: barrier_def maybe_group_commit_def same_log_def split: if_splits prod.splits option.splits durability.splits
      dest!: same_log_sync_inner [unfolded same_log_def])

lemma same_log_rotate: "rotate l g w = (r, g', w') \<Longrightarrow> same_log g g'"
  by (auto simp: rotate_def Let_def same_log_def poison_def split: if_splits prod.splits option.splits
      dest!: same_log_sync_inner [unfolded same_log_def])

lemma same_log_trans: "same_log g h \<Longrightarrow> same_log h k \<Longrightarrow> same_log g k"
  by (simp add: same_log_def)

lemma same_log_commit:
  assumes "append_commit now l g w = (r, g', w')"
  shows "same_log g g'"
proof -
  obtain q h x where b: "barrier now g w = (q, h, x)" by (metis surj_pair)
  have h: "same_log g h" by (rule same_log_barrier [OF b])
  show ?thesis
  proof (cases q)
    case (Ok y)
    let ?h = "if y then h\<lparr>w_durable := written_lsn h\<rparr> else h"
    have "same_log g ?h" using h by (simp add: same_log_def)
    moreover have "g' = ?h \<or> rotate l ?h x = (r, g', w')"
      using assms b Ok by (auto simp: append_commit_def Let_def split: if_splits)
    ultimately show ?thesis using same_log_rotate same_log_trans by blast
  qed (use assms b h in \<open>auto simp: append_commit_def\<close>)
qed

lemma wal_append_counter:
  assumes "wal_append crc compress now payload g w = (r, g', w')"
  shows "w_durability g' = w_durability g \<and> (lsn_counter g \<noteq> 0 \<longrightarrow> lsn_counter g' \<noteq> 0) \<and> (\<forall>l. r = Ok l \<longrightarrow> l = lsn_counter g)"
proof -
  obtain stored flags where e: "encode_payload compress payload (w_compression g = Lz4) 64 = (stored, flags)" by fastforce
  show ?thesis
  proof (cases "length payload > max_record \<or> locked g \<or> w_state g = PoisonedState \<or> lsn_counter g = - 1")
    case True
    then show ?thesis using assms e by (auto simp: wal_append_def Let_def split: if_splits)
  next
    case False
    let ?g = "g\<lparr>lsn_counter := lsn_counter g + 1\<rparr>"
    have nz: "lsn_counter g + 1 \<noteq> 0" using False by (metis add_eq_0_iff2)
    show ?thesis
    proof (cases "w_fail_next_write g \<or> w_fail_next_diskfull g")
      case True
      then show ?thesis using assms e False nz by (auto simp: wal_append_def Let_def poison_def split: if_splits)
    next
      case c: False
      obtain q h x where a: "append_writes (header_encode (header_new crc (lsn_counter g) stored flags)) stored ?g w = (q, h, x)"
        by (metis surj_pair)
      have h: "same_log ?g h"
        using a unfolding append_writes_def
        by (auto split: prod.splits option.splits dest!: same_log_write_all intro: same_log_trans)
      show ?thesis
      proof (cases q)
        case None
        let ?h = "h\<lparr>w_bytes := w_bytes h + header_size + length stored, written_lsn := lsn_counter g\<rparr>"
        have co: "append_commit now (lsn_counter g) ?h x = (r, g', w')"
          using assms e False c a None by (simp add: wal_append_def Let_def)
        have "r = Ok l \<Longrightarrow> l = lsn_counter g" for l
          using co by (auto simp: append_commit_def rotate_def Let_def split: prod.splits outcome.splits if_splits option.splits)
        then show ?thesis using same_log_commit [OF co] h nz by (auto simp: same_log_def)
      next
        case (Some y)
        then have "r = Err (from_io y)" "g' = poison h" using assms e False c a by (auto simp: wal_append_def Let_def)
        then show ?thesis using h nz by (simp add: same_log_def poison_def)
      qed
    qed
  qed
qed

lemma same_log_sync: "sync g w = (r, g', w') \<Longrightarrow> same_log g g'"
  by (auto simp: sync_def same_log_def poison_def split: if_splits prod.splits option.splits
      dest!: same_log_sync_inner [unfolded same_log_def])

lemma run_retention_raw_log: "run_retention_raw m l g w = (r, g', w') \<Longrightarrow> g' = g"
  by (auto simp: run_retention_raw_def split: if_splits prod.splits sum.splits)

lemma run_op_counter:
  assumes "run_op crc compress op g w = (g', w')" "lsn_counter g \<noteq> 0"
  shows "lsn_counter g' \<noteq> 0"
proof (cases op)
  case (OpAppend now payload)
  then show ?thesis using assms wal_append_counter [of crc compress now payload g w] by (metis prod.collapse run_op.simps(1))
next
  case OpSync
  then show ?thesis using assms same_log_sync [of g w] by (metis prod.collapse run_op.simps(3) same_log_def)
next
  case OpFlush
  obtain r where "flush g w = (r, g', w')" using assms OpFlush by (metis prod.collapse run_op.simps(2))
  then show ?thesis using assms(2)
    by (auto simp: flush_def poison_def split: if_splits prod.splits option.splits dest!: same_log_flush_buf [unfolded same_log_def])
next
  case (OpTruncate l)
  then show ?thesis using assms
    by (auto simp: truncate_before_def split: if_splits dest!: run_retention_raw_log [of _ _ _ _ "fst _", simplified])
      (metis prod.collapse run_retention_raw_log)
qed (use assms in \<open>auto simp: checkpoint_def poison_def fail_next_write_def fail_next_diskfull_def fail_next_dir_fsync_def
      split: if_splits prod.splits sum.splits\<close>)

lemma start_lsn_pos: "start_lsn l \<noteq> 0"
proof (cases l)
  case (Some k)
  then show ?thesis by (auto simp: start_lsn_def lsn_checked_next_def checked_add_def add_eq_0_iff2 unat_max_word split: if_splits)
qed (simp add: start_lsn_def)

lemma open_log_counter:
  assumes "open_log crc dz c w = (Inr g, w')"
  shows "lsn_counter g \<noteq> 0 \<and> w_durability g = c_durability c"
  using assms
  by (auto simp: open_log_def open_recovered_def Let_def try_sys_def bind_io_def run_retention_def start_lsn_pos open_wal_def
      split: option.splits prod.splits sum.splits if_splits outcome.splits dest!: run_retention_raw_log)

lemma reach_counter: "wal_reach crc compress dz (Up g w) \<Longrightarrow> lsn_counter g \<noteq> 0"
proof -
  have "\<And>s. wal_reach crc compress dz s \<Longrightarrow> (case s of Up g w \<Rightarrow> lsn_counter g \<noteq> 0 | Down w \<Rightarrow> True)"
  proof -
    fix s
    assume "wal_reach crc compress dz s"
    then show "case s of Up g w \<Rightarrow> lsn_counter g \<noteq> 0 | Down w \<Rightarrow> True"
      by (induction rule: wal_reach.induct) (auto dest: open_log_counter run_op_counter)
  qed
  then show "wal_reach crc compress dz (Up g w) \<Longrightarrow> lsn_counter g \<noteq> 0" by fastforce
qed

section \<open>A journalled entry is on disk\<close>

lemma ad_sync_err: "ad_sync a w = (Ok u, a', w') \<Longrightarrow> u = ()"
  by simp

lemma log_entry_Ok:
  assumes "log_entry v t sk e s = (Ok r, s')" "sv_wal s = Some a"
  shows "\<exists>l a1 w1. r = Some l \<and> ad_append (e_crc v) (e_compress v) (e_enc v) (ck_commit_ns t) e a (sv_disk s) = (Ok l, a1, w1) \<and>
    (sk a1 \<and> sv_wal s' = Some a1 \<and> sv_disk s' = w1 \<or>
     (\<exists>a2 w2. ad_sync a1 w1 = (Ok (), a2, w2) \<and> sv_wal s' = Some a2 \<and> sv_disk s' = w2))"
  using assms unfolding log_entry_def
  by (auto split: prod.splits outcome.splits if_splits)

text \<open>The adapter reports the durability its log works with.\<close>

definition adapter_ok :: "(bytes \<Rightarrow> u32) \<Rightarrow> (bytes \<Rightarrow> bytes) \<Rightarrow> (bytes \<Rightarrow> string + bytes) \<Rightarrow> adapter \<Rightarrow> disk \<Rightarrow> bool" where
  "adapter_ok crc compress dz a w \<longleftrightarrow>
     (\<exists>g. ad_inner a = Some g \<and> wal_reach crc compress dz (Up g w) \<and> w_durability g = c_durability (ad_cfg a))"

lemma guard_new_ok:
  assumes "wal_reach crc compress dz (Down w)" "guard_new crc dz c (w\<lparr>faults := fs\<rparr>) = (Inr a, w')"
  shows "adapter_ok crc compress dz a w'"
proof -
  obtain g where g: "open_log crc dz c (w\<lparr>faults := fs\<rparr>) = (Inr g, w')" "a = \<lparr>ad_inner = Some g, ad_cfg = c\<rparr>"
    using assms(2) by (auto simp: guard_new_def split: prod.splits sum.splits)
  then show ?thesis using reach_open [OF assms(1) g(1)] open_log_counter [OF g(1)] by (simp add: adapter_ok_def)
qed

lemma reach_now: "wal_reach crc compress dz (Up g w) \<Longrightarrow> lz4_ok compress dz \<Longrightarrow> up_inv crc dz g w"
  using wal_reach_inv by fastforce

lemma log_entry_durable:
  assumes ok: "adapter_ok (e_crc v) (e_compress v) dz a (sv_disk s)" and z: "lz4_ok (e_compress v) dz"
    and a: "sv_wal s = Some a" and sk: "\<And>a. sk a \<Longrightarrow> append_is_durable a"
    and fit: "\<And>b g. e_enc v e = Inr b \<Longrightarrow> ad_inner a = Some g \<Longrightarrow> op_fits (e_compress v) (OpAppend (ck_commit_ns t) b) g"
    and run: "log_entry v t sk e s = (Ok r, s')"
  shows "\<exists>l b a' g'. r = Some l \<and> 0 < l \<and> e_enc v e = Inr b \<and> sv_wal s' = Some a' \<and> ad_inner a' = Some g' \<and>
    wal_reach (e_crc v) (e_compress v) dz (Up g' (sv_disk s')) \<and> adapter_ok (e_crc v) (e_compress v) dz a' (sv_disk s') \<and>
    (l, b) \<in> set (log_records (e_crc v) dz g' (sv_disk s')) \<and> l \<le> w_durable g'"
proof -
  from log_entry_Ok [OF run a] obtain l a1 w1 where r: "r = Some l"
    and app: "ad_append (e_crc v) (e_compress v) (e_enc v) (ck_commit_ns t) e a (sv_disk s) = (Ok l, a1, w1)"
    and fin: "sk a1 \<and> sv_wal s' = Some a1 \<and> sv_disk s' = w1 \<or>
      (\<exists>a2 w2. ad_sync a1 w1 = (Ok (), a2, w2) \<and> sv_wal s' = Some a2 \<and> sv_disk s' = w2)" by blast
  from ad_append_Ok [OF app] obtain g g1 b where b: "e_enc v e = Inr b" and g: "ad_inner a = Some g"
    and wa: "wal_append (e_crc v) (e_compress v) (ck_commit_ns t) b g (sv_disk s) = (Ok l, g1, w1)"
    and a1: "a1 = a\<lparr>ad_inner := Some g1\<rparr>" by blast
  have reach: "wal_reach (e_crc v) (e_compress v) dz (Up g (sv_disk s))" and du: "w_durability g = c_durability (ad_cfg a)"
    using ok g by (auto simp: adapter_ok_def)
  note ct = wal_append_counter [OF wa]
  have pos: "0 < l" using ct reach_counter [OF reach] word_gt_0 by metis
  note al = append_log [OF reach_now [OF reach z] z fit [OF b g] wa]
  have "sv_disk s\<lparr>faults := faults (sv_disk s)\<rparr> = sv_disk s" by simp
  then have r1: "wal_reach (e_crc v) (e_compress v) dz (Up g1 w1)"
    using reach_op [OF reach fit [OF b g], of "faults (sv_disk s)" g1 w1] by (simp add: wa)
  show ?thesis
  proof (cases "sk a1 \<and> sv_wal s' = Some a1 \<and> sv_disk s' = w1")
    case True
    then have "append_is_durable a1" using sk by blast
    then have "w_durability g = SyncEach" using a1 du by (simp add: append_is_durable_def)
    then have "l \<le> w_durable g1" using al by simp
    then show ?thesis using True r pos b a1 r1 al ct du by (simp add: adapter_ok_def)
  next
    case False
    then obtain a2 w2 where sy: "ad_sync a1 w1 = (Ok (), a2, w2)" and s2: "sv_wal s' = Some a2" "sv_disk s' = w2" using fin by blast
    from ad_sync_Ok [OF sy] a1 obtain g2 where ws: "sync g1 w1 = (Ok (), g2, w2)" and a2: "a2 = a\<lparr>ad_inner := Some g2\<rparr>" by auto
    have "w1\<lparr>faults := faults w1\<rparr> = w1" by simp
    then have r2: "wal_reach (e_crc v) (e_compress v) dz (Up g2 w2)"
      using reach_op [OF r1, of OpSync "faults w1" g2 w2] by (simp add: ws)
    note sl = sync_log [OF reach_now [OF r1 z] ws]
    have lr: "(l, b) \<in> set (log_records (e_crc v) dz g2 w2)" using sl al by simp
    then have "l \<le> w_durable g2" using sl by (metis fst_conv)
    moreover have "w_durability g2 = w_durability g1" using same_log_sync [OF ws] by (simp add: same_log_def)
    ultimately show ?thesis using s2 r pos b a2 r2 lr ct du by (simp add: adapter_ok_def)
  qed
qed

text \<open>The entry of a command that is not already durable.\<close>

definition journal_entry :: "env \<Rightarrow> clock \<Rightarrow> enforce_command \<Rightarrow> pending_mesh_mutation option \<Rightarrow> wal_entry" where
  "journal_entry v t cmd mu =
     (case mu of None \<Rightarrow> command_entry v (ck_wal_ns t) cmd | Some m \<Rightarrow> to_wal_entry v (ck_wal_ns t) m)"

lemma journal_log:
  "\<exists>sk. (\<forall>a. sk a \<longrightarrow> append_is_durable a) \<and> journal v t cmd mu AppendRecord s = log_entry v t sk (journal_entry v t cmd mu) s"
  by (auto simp: journal_def journal_entry_def append_wal_def append_mesh_wal_def split: option.split)

lemma remember_disk [simp]:
  "sv_wal (remember_result r s) = sv_wal s" "sv_disk (remember_result r s) = sv_disk s"
  by (simp_all add: remember_result_def Let_def split: prod.split)

lemma commit_action_disk:
  assumes "commit_action v ap t cmd lsn s = (Ok r, s')"
  shows "sv_wal s' = sv_wal s \<and> sv_disk s' = sv_disk s \<and> wal_lsn r = lsn"
proof -
  from commit_action_Ok [OF assms] obtain s1 s2 x where r: "r = enforce_result_of (decision_id cmd) lsn x"
    and s': "s' = remember_result r s2" and p: "proj_frame s1 s2"
    and c: "(\<exists>q. commit_block_state v t cmd s = (q, s1)) \<or> (\<exists>q. release_state v t cmd s = (q, s1))" by blast
  have "commit_frame s s1" using c commit_block_frame release_frame by blast
  then show ?thesis using p r s' by (simp add: commit_frame_def proj_frame_def enforce_result_of_def)
qed

text \<open>C3: An answered command survives a crash. Let the log behind the actor be reached by a history of \<open>wal_reach\<close> (no append
  beyond the record limit, every run of the process ended by a machine crash), and let the stored form of the command's entry stay
  within the record limit. Once the actor has answered a new command, whatever system calls were to fail on the way, then after
  any machine crash that loses no directory entry the log reopens and recovers, under the sequence
  number of the answer, a record that decodes to the command's entry.\<close>

theorem answered_command_survives:
  assumes a: "sv_wal s = Some a" and ok: "adapter_ok (e_crc v) (e_compress v) dz a (sv_disk s)"
    and z: "lz4_ok (e_compress v) dz" and sd: "serde_ok (e_enc v) dec"
    and fit: "\<And>b g. e_enc v (journal_entry v t cmd mu) = Inr b \<Longrightarrow> ad_inner a = Some g \<Longrightarrow>
      op_fits (e_compress v) (OpAppend (ck_commit_ns t) b) g"
    and new: "processed_results s (decision_id cmd) = None"
    and run: "enforce_inner v ap t cmd mu AppendRecord s = (Ok r, s')"
    and cr: "crash (sv_disk s') w'" and dir: "map fst (segs w') = map fst (segs (sv_disk s'))" and cfg: "check_config c = None"
  shows "\<exists>l b g w2. wal_lsn r = Some l \<and> open_log (e_crc v) dz c (w'\<lparr>faults := []\<rparr>) = (Inr g, w2) \<and>
    (l, b) \<in> set (rr_records (rec_report (w_recovery g))) \<and> dec b = Inr (journal_entry v t cmd mu)"
proof -
  from enforce_inner_Ok [OF run new] obtain lsn s1 where j: "journal v t cmd mu AppendRecord s = (Ok lsn, s1)"
    and co: "commit_action v ap t cmd lsn
      (case mu of None \<Rightarrow> s1 | Some m \<Rightarrow> s1\<lparr>mesh_blocklist := map_option (merge_mutation t m) (mesh_blocklist s1)\<rparr>) = (Ok r, s')" by blast
  from journal_log [of v t cmd mu s] j obtain sk where
    sk: "\<forall>a. sk a \<longrightarrow> append_is_durable a" and lg: "log_entry v t sk (journal_entry v t cmd mu) s = (Ok lsn, s1)" by auto
  from log_entry_durable [OF ok z a sk [rule_format] fit lg] obtain l b a1 g1 where
    l: "lsn = Some l" "0 < l" "e_enc v (journal_entry v t cmd mu) = Inr b"
    and re: "wal_reach (e_crc v) (e_compress v) dz (Up g1 (sv_disk s1))"
    and m: "(l, b) \<in> set (log_records (e_crc v) dz g1 (sv_disk s1))" and d: "l \<le> w_durable g1" by blast
  have di: "sv_disk s' = sv_disk s1" "wal_lsn r = lsn" using commit_action_disk [OF co] by (auto split: option.splits)
  from durable_records_kept [OF re z cfg cr [unfolded di] dir [unfolded di]] obtain g w2 where
    "open_log (e_crc v) dz c (w'\<lparr>faults := []\<rparr>) = (Inr g, w2)" "(l, b) \<in> set (rr_records (rec_report (w_recovery g)))"
    using m l(2) d by fastforce
  then show ?thesis using di(2) l sd by (auto simp: serde_ok_def)
qed

definition lab_decode :: dec where
  "lab_decode b = (if b = [5] then Inr (EBlockIp ''1.2.3.4'' ''operator'' None 0) else Inl ''unsupported'')"

abbreviation lab_adapter :: "wal \<Rightarrow> adapter" where
  "lab_adapter g \<equiv> \<lparr>ad_inner = Some g, ad_cfg = sync_config\<rparr>"

abbreviation lab_logged :: "unit service" where
  "lab_logged \<equiv> lab_service\<lparr>sv_wal := Some (lab_adapter (fresh_wal sync_config)), sv_disk := fresh_disk [] 0\<rparr>"

lemma lab_entry: "journal_entry lab_env lab_clock lab_block None = EBlockIp ''1.2.3.4'' ''operator'' None 0"
  by (simp add: journal_entry_def command_entry_def lab_block_def lab_env_def lab_clock_def)

lemma lab_journal:
  "journal lab_env lab_clock lab_block None AppendRecord lab_logged =
     (Ok (Some 1), lab_logged\<lparr>sv_wal := Some (lab_adapter wal_one), sv_disk := fresh_disk (first_record (\<lambda>_. 7)) 24, last_wal_lsn := Some 1\<rparr>)"
proof -
  have nl: "\<not> locked (fresh_wal sync_config)" by (simp add: fresh_wal_def open_wal_def)
  have "ad_append (\<lambda>_. 7) store_only (e_enc lab_env) 0 (EBlockIp ''1.2.3.4'' ''operator'' None 0) (lab_adapter (fresh_wal sync_config))
      (fresh_disk [] 0) = (Ok 1, lab_adapter wal_one, fresh_disk (first_record (\<lambda>_. 7)) 24)"
    using append_fresh [of "\<lambda>_. 7" store_only] nl by (simp add: ad_append_def encode_entry_def lab_env_def with_log_def map_err_def)
  moreover have "append_is_durable (lab_adapter g)" for g by (simp add: append_is_durable_def sync_config_def)
  moreover have "e_crc lab_env = (\<lambda>_. 7)" "e_compress lab_env = store_only" "ck_commit_ns lab_clock = 0"
    by (simp_all add: lab_env_def lab_clock_def)
  ultimately show ?thesis using lab_entry
    by (simp add: journal_def append_wal_def log_entry_def journal_entry_def)
qed

theorem answered_command_survives_witness:
  "\<exists>s' g w2. enforce lab_env lab_stub lab_clock lab_block lab_logged = (Ok (enforce_result_of 1 (Some 1) True), s') \<and>
     open_log (\<lambda>_. 7) read_only sync_config
       (sv_disk s'\<lparr>segs := [(1, \<lparr>sf_data = first_record (\<lambda>_. 7), sf_synced = 24, sf_linked = True\<rparr>)], faults := []\<rparr>) = (Inr g, w2) \<and>
     (\<exists>b. (1, b) \<in> set (rr_records (rec_report (w_recovery g))) \<and> lab_decode b = Inr (EBlockIp ''1.2.3.4'' ''operator'' None 0))"
proof -
  let ?s1 = "lab_logged\<lparr>sv_wal := Some (lab_adapter wal_one), sv_disk := fresh_disk (first_record (\<lambda>_. 7)) 24, last_wal_lsn := Some 1\<rparr>"
  let ?r = "enforce_result_of 1 (Some 1) True" and ?ss = "[(1 :: u64, \<lparr>sf_data = first_record (\<lambda>_. 7), sf_synced = 24, sf_linked = True\<rparr>)]"
  have "sv_store ?s1 = lab_store" by (simp add: service_new_def)
  from lab_action [OF this, of "Some 1"] obtain s' where
    co: "commit_action lab_env lab_stub lab_clock lab_block (Some 1) ?s1 = (Ok ?r, s')" by (metis prod.collapse)
  have ns: "\<not> is_unspecified (cmd_ip lab_block)" by (simp add: lab_block_def)
  have new: "processed_results lab_logged (decision_id lab_block) = None" by (simp add: service_new_def)
  have en: "enforce_inner lab_env lab_stub lab_clock lab_block None AppendRecord lab_logged = (Ok ?r, s')"
    unfolding enforce_inner_def new lab_journal using co ns by (simp add: try_run_def)
  have d: "sv_disk s' = fresh_disk (first_record (\<lambda>_. 7)) 24" using commit_action_disk [OF co] by simp
  have cr: "crash (sv_disk s') (sv_disk s'\<lparr>segs := ?ss, manifest_dur := manifest (sv_disk s')\<rparr>)"
    unfolding d by (rule keep) (auto simp: fresh_disk_def cut_ok_def length_enc_item header_size_def)
  have dir: "map fst (segs (sv_disk s'\<lparr>segs := ?ss, manifest_dur := manifest (sv_disk s')\<rparr>)) = map fst (segs (sv_disk s'))"
    unfolding d by (simp add: fresh_disk_def)
  have a: "sv_wal lab_logged = Some (lab_adapter (fresh_wal sync_config))" by simp
  have ok: "adapter_ok (e_crc lab_env) (e_compress lab_env) read_only (lab_adapter (fresh_wal sync_config)) (sv_disk lab_logged)"
    using reach_fresh [OF sync_config_ok] by (simp add: adapter_ok_def fresh_wal_def open_wal_def)
  have z: "lz4_ok (e_compress lab_env) read_only" using store_only_ok by (simp add: lab_env_def)
  have sd: "serde_ok (e_enc lab_env) lab_decode" by (simp add: serde_ok_def lab_env_def lab_decode_def)
  have fit: "op_fits (e_compress lab_env) (OpAppend (ck_commit_ns lab_clock) b) g"
    if "e_enc lab_env (journal_entry lab_env lab_clock lab_block None) = Inr b" for b g
    using that unfolding lab_entry by (auto simp: lab_env_def encode_payload_def)
  from answered_command_survives [OF a ok z sd fit new en cr dir sync_config_ok]
  obtain l b g w2 where k: "wal_lsn ?r = Some l" "(l, b) \<in> set (rr_records (rec_report (w_recovery g)))"
    "lab_decode b = Inr (journal_entry lab_env lab_clock lab_block None)"
    and o: "open_log (e_crc lab_env) read_only sync_config (sv_disk s'\<lparr>segs := ?ss, manifest_dur := manifest (sv_disk s')\<rparr>\<lparr>faults := []\<rparr>) = (Inr g, w2)"
    by blast
  have "sv_disk s'\<lparr>segs := ?ss, manifest_dur := manifest (sv_disk s')\<rparr>\<lparr>faults := []\<rparr> = sv_disk s'\<lparr>segs := ?ss, faults := []\<rparr>"
    unfolding d by (simp add: fresh_disk_def)
  moreover have "l = 1" "e_crc lab_env = (\<lambda>_. 7)" using k(1) by (simp_all add: enforce_result_of_def lab_env_def)
  ultimately show ?thesis using en k o unfolding enforce_def lab_entry by (intro exI [of _ s'] exI [of _ g] exI [of _ w2]) auto
qed

end
