(* ===== verification/Enforcement_View.thy ===== *)
theory Enforcement_View
  imports Enforcement_Props
begin

text \<open>
  The enforcement actor against its contract: a map of blocked addresses and networks and their deadlines. A
  command changes this view exactly as its specification \<open>view_step\<close> says, or not at all, and a failed command leaves everything
  but the log as it was.
\<close>

section \<open>The contract\<close>

record actor_view =
  av_ips :: "ipaddr set"
  av_leases :: "ipaddr \<rightharpoonup> nat"
  av_cidrs :: "ip_network set"
  av_cidr_leases :: "ip_network \<rightharpoonup> instant"

definition view :: "'x service \<Rightarrow> actor_view" where
  "view s = \<lparr>av_ips = blocked_ips s, av_leases = lease (sv_ring s), av_cidrs = active_cidrs (sv_store s),
     av_cidr_leases = cidr_expirations s\<rparr>"

definition set_or_clear :: "bool \<Rightarrow> 'k \<Rightarrow> 'v \<Rightarrow> ('k \<rightharpoonup> 'v) \<Rightarrow> ('k \<rightharpoonup> 'v)" where
  "set_or_clear b k v m = (if b then m(k \<mapsto> v) else m(k := None))"

fun view_step :: "clock \<Rightarrow> instant \<Rightarrow> enforce_command \<Rightarrow> actor_view \<Rightarrow> actor_view" where
  "view_step t start cmd a =
     (let ip = cmd_ip cmd; ttl = ttl_seconds cmd; at = deadline t ttl in
      case (cmd_action cmd, cmd_cidr cmd) of
        (ActBlock, None) \<Rightarrow> a\<lparr>av_ips := insert ip (av_ips a), av_leases := set_or_clear (ttl > 0) ip (second_of start at) (av_leases a)\<rparr>
      | (ActBlock, Some n) \<Rightarrow> a\<lparr>av_cidrs := insert n (av_cidrs a), av_cidr_leases := set_or_clear (ttl > 0) n at (av_cidr_leases a)\<rparr>
      | (ActUnblock, None) \<Rightarrow> a\<lparr>av_ips := av_ips a - {ip}, av_leases := (av_leases a)(ip := None)\<rparr>
      | (ActUnblock, Some n) \<Rightarrow> a\<lparr>av_cidrs := av_cidrs a - {n}, av_cidr_leases := (av_cidr_leases a)(n := None)\<rparr>)"

section \<open>The store under a command\<close>

lemma active_cidrs_prims [simp]:
  "active_cidrs (put_entry k e s) = active_cidrs s" "active_cidrs (index_add k s) = active_cidrs s"
  "active_cidrs (index_del k s) = active_cidrs s" "active_cidrs (sync_blocked_index k b b' s) = active_cidrs s"
  "active_cidrs (ttl_fetch_add s) = active_cidrs s" "active_cidrs (ttl_fetch_sub s) = active_cidrs s"
  "active_cidrs (inserts_fetch_add s) = active_cidrs s" "active_cidrs (used_fetch_add n s) = active_cidrs s"
  "active_cidrs (used_fetch_sub n s) = active_cidrs s" "active_cidrs (ram_fetch_add n s) = active_cidrs s"
  "active_cidrs (ram_fetch_sub n s) = active_cidrs s"
  by (simp_all add: put_entry_def index_add_def index_del_def sync_blocked_index_def ttl_fetch_add_def ttl_fetch_sub_def
      inserts_fetch_add_def used_fetch_add_def used_fetch_sub_def ram_fetch_add_def ram_fetch_sub_def)

lemma active_cidrs_steps [simp]:
  "active_cidrs (apply_growth_size_only a b s) = active_cidrs s" "active_cidrs (ram_resize a b s) = active_cidrs s"
  "active_cidrs (used_resize a b s) = active_cidrs s" "active_cidrs (ttl_move x y s) = active_cidrs s"
  by (simp_all add: apply_growth_size_only_def ram_resize_def used_resize_def ttl_move_def split: bool.split)

lemma blocked_set_del [simp]: "blocked_set (index_del k s) = blocked_set s - {k}"
  by (simp add: index_del_def)

lemma update_block_state_cidrs:
  assumes "update_block_state base now key b lim s = (r, s')"
  shows "active_cidrs s' = active_cidrs s \<and> (r \<noteq> Ok True \<longrightarrow> s' = s) \<and> (\<forall>e. r \<noteq> Err e) \<and> blocked_set s' \<subseteq> blocked_set s"
  using assms
  by (auto simp: update_block_state_def Let_def reserve_Ok split: option.splits outcome.splits if_splits)

lemma store_insert_cidrs:
  assumes "store_insert base now key v None lim s = (r, s')"
  shows "active_cidrs s' = active_cidrs s \<and> (r \<noteq> Ok () \<longrightarrow> s' = s)"
  using assms
  by (auto simp: store_insert_def insert_occupied_def insert_vacant_def Let_def reserve_Ok split: option.splits outcome.splits if_splits)

lemma service_store_id [simp]: "s\<lparr>sv_store := sv_store s\<rparr> = s"
  by simp

section \<open>The actor against its contract\<close>

lemma bucket_second: "bucket_of r at = second_of (epoch r) at"
  by (simp add: second_of_def bucket_of_def ring_new_def)

definition ring_kept :: "'x service \<Rightarrow> 'x service \<Rightarrow> bool" where
  "ring_kept s s' \<longleftrightarrow> ring_inv (sv_ring s') \<and> epoch (sv_ring s') = epoch (sv_ring s)"

lemma commit_block_view:
  assumes inv: "ring_inv (sv_ring s)" and act: "cmd_action cmd = ActBlock" and run: "commit_block_state v t cmd s = (r, s')"
  shows "ring_kept s s' \<and> (if r = Ok () then view s' = view_step t (epoch (sv_ring s)) cmd (view s) else s' = s)"
proof (cases "cmd_cidr cmd")
  case (Some n)
  then show ?thesis using inv act run
    by (auto simp: commit_block_state_def Let_def ring_kept_def view_def set_or_clear_def)
next
  case None
  show ?thesis
  proof (cases "ram_limit (sv_store s)")
    case N: None
    then show ?thesis using inv run None by (simp add: commit_block_state_def ring_kept_def)
  next
    case (Some lim)
    obtain q st where u: "update_block_state (e_base v) (ck_store t) (cmd_ip cmd)
        (Blocked (reason_to_block_reason (cmd_reason cmd)) (ck_now_ns t)) lim (sv_store s) = (q, st)" by fastforce
    note c = update_block_state_cidrs [OF u]
    show ?thesis
    proof (cases "q = Ok True")
      case True
      then show ?thesis using inv act run None Some u c schedule_inv [OF inv] detach_inv [OF inv]
        by (auto simp: commit_block_state_def Let_def ring_kept_def view_def set_or_clear_def schedule_lease detach_lease bucket_second)
    next
      case False
      then have "st = sv_store s" using c by blast
      then show ?thesis using inv run None Some u c False
        by (cases q) (auto simp: commit_block_state_def Let_def ring_kept_def split: bool.splits)
    qed
  qed
qed

lemma proj_view: "proj_frame s s' \<Longrightarrow> view s' = view s \<and> sv_ring s' = sv_ring s"
  by (simp add: proj_frame_def view_def)

lemma release_view:
  assumes inv: "ring_inv (sv_ring s)" and act: "cmd_action cmd = ActUnblock" and run: "release_state v t cmd s = (r, s')"
  shows "ring_kept s s' \<and> (if \<exists>ds. r = Ok ds then view s' = view_step t (epoch (sv_ring s)) cmd (view s) else s' = s)"
proof (cases "cmd_cidr cmd")
  case (Some n)
  then show ?thesis using inv act run by (auto simp: release_state_def ring_kept_def view_def Let_def)
next
  case None
  obtain r1 s1 where m: "release_store v t (cmd_ip cmd) s = (r1, s1)" by fastforce
  obtain st where s1: "s1 = s\<lparr>sv_store := st\<rparr>" "active_cidrs st = active_cidrs (sv_store s)" "r1 \<noteq> Ok () \<Longrightarrow> st = sv_store s"
  proof -
    have "\<exists>st. s1 = s\<lparr>sv_store := st\<rparr> \<and> active_cidrs st = active_cidrs (sv_store s) \<and> (r1 \<noteq> Ok () \<longrightarrow> st = sv_store s)"
      using m by (auto simp: release_store_def split: option.splits store_value.splits prod.splits dest!: store_insert_cidrs
          intro: exI [of _ "sv_store s"] simp del: service_store_id)
    then show ?thesis using that by blast
  qed
  let ?s2 = "s1\<lparr>blocked_ips := blocked_ips s1 - {cmd_ip cmd}, drops_by_blocked := (drops_by_blocked s1)(cmd_ip cmd := None)\<rparr>"
  obtain ds s3 where rm: "release_mesh t cmd ?s2 = (ds, s3)" by fastforce
  have p: "proj_frame ?s2 s3" using release_mesh_frame [of ?s2 t cmd] rm by simp
  show ?thesis
  proof (cases "r1 = Ok ()")
    case True
    then have res: "r = Ok ds" "s' = clear_lease (cmd_ip cmd) s3"
      using run rm unfolding release_state_def None Let_def option.case m by (auto simp: try_run_def)
    have "ring_kept s s'" "view s' = view_step t (epoch (sv_ring s)) cmd (view s)"
      using p act None s1 res detach_inv [OF inv] by (auto simp: proj_frame_def ring_kept_def view_def detach_lease [OF inv] Let_def)
    then show ?thesis using res by simp
  next
    case False
    then have "s1 = s" using s1(1,3) by simp
    moreover have "s' = s1 \<and> (\<forall>ds. r \<noteq> Ok ds)"
      using run False unfolding release_state_def None Let_def option.case m by (cases r1) (auto simp: try_run_def)
    ultimately show ?thesis using inv by (auto simp: ring_kept_def)
  qed
qed

lemma remember_view: "view (remember_result r s) = view s \<and> sv_ring (remember_result r s) = sv_ring s"
  by (simp add: remember_result_def view_def Let_def split: prod.split)

lemma commit_action_view:
  assumes inv: "ring_inv (sv_ring s)" and run: "commit_action v ap t cmd lsn s = (r, s')"
  shows "ring_kept s s' \<and> (if \<exists>x. r = Ok x then view s' = view_step t (epoch (sv_ring s)) cmd (view s) else s' = s)"
proof (cases "\<exists>x. r = Ok x")
  case True
  then obtain x where x: "r = Ok x" by blast
  from commit_action_Ok [OF run [unfolded x]] obtain s1 s2 where s': "s' = remember_result x s2" and p: "proj_frame s1 s2"
    and c: "cmd_action cmd = ActBlock \<and> commit_block_state v t cmd s = (Ok (), s1) \<or>
      cmd_action cmd = ActUnblock \<and> (\<exists>ds. release_state v t cmd s = (Ok ds, s1))" by blast
  have "ring_kept s s1 \<and> view s1 = view_step t (epoch (sv_ring s)) cmd (view s)"
    using c commit_block_view [OF inv] release_view [OF inv] by fastforce
  then show ?thesis using x s' proj_view [OF p] remember_view [of x s2] by (simp add: ring_kept_def)
next
  case False
  have "s' = s"
  proof (cases "cmd_action cmd")
    case ActBlock
    obtain q s1 where c: "commit_block_state v t cmd s = (q, s1)" by fastforce
    from commit_block_view [OF inv ActBlock c] run False show ?thesis
      unfolding commit_action_def ActBlock enforce_action.case c
      by (cases q) (auto simp: try_run_def Let_def split: prod.splits)
  next
    case ActUnblock
    obtain q s1 where c: "release_state v t cmd s = (q, s1)" by fastforce
    from release_view [OF inv ActUnblock c] run False show ?thesis
      unfolding commit_action_def ActUnblock enforce_action.case c
      by (cases q) (auto simp: try_run_def Let_def split: prod.splits)
  qed
  then show ?thesis using False inv by (auto simp: ring_kept_def)
qed

lemma journal_view:
  assumes "journal v t cmd mu d s = (r, s')"
  shows "view s' = view s" "sv_ring s' = sv_ring s"
  using journal_fields [OF assms] by (simp_all add: view_def)

lemma merge_view:
  "view (case mu of None \<Rightarrow> s | Some m \<Rightarrow> s\<lparr>mesh_blocklist := f m\<rparr>) = view s"
  "sv_ring (case mu of None \<Rightarrow> s | Some m \<Rightarrow> s\<lparr>mesh_blocklist := f m\<rparr>) = sv_ring s"
  by (simp_all add: view_def split: option.split)

lemma enforce_view:
  assumes inv: "ring_inv (sv_ring s)" and new: "processed_results s (decision_id cmd) = None"
    and run: "enforce_inner v ap t cmd mu d s = (r, s')"
  shows "ring_kept s s' \<and> view s' = (if \<exists>x. r = Ok x then view_step t (epoch (sv_ring s)) cmd (view s) else view s)"
proof (cases "is_unspecified (cmd_ip cmd)")
  case True
  then show ?thesis using inv run new by (auto simp: enforce_inner_def ring_kept_def)
next
  case False
  obtain j s1 where jr: "journal v t cmd mu d s = (j, s1)" by fastforce
  let ?s2 = "case mu of None \<Rightarrow> s1 | Some m \<Rightarrow> s1\<lparr>mesh_blocklist := map_option (merge_mutation t m) (mesh_blocklist s1)\<rparr>"
  note e = journal_view [OF jr] merge_view [where mu = mu and s = s1 and f = "\<lambda>m. map_option (merge_mutation t m) (mesh_blocklist s1)"]
  show ?thesis
  proof (cases j)
    case (Ok lsn)
    then have co: "commit_action v ap t cmd lsn ?s2 = (r, s')"
      using run new False jr by (simp add: enforce_inner_def try_run_def)
    have "ring_inv (sv_ring ?s2)" using e inv by simp
    from commit_action_view [OF this co] show ?thesis using e by (auto simp: ring_kept_def simp del: view_step.simps split: if_splits)
  qed (use run new False jr inv e in \<open>auto simp: enforce_inner_def try_run_def ring_kept_def\<close>)
qed

text \<open>C5: The actor implements its contract. A new command that is answered changes the blocked addresses, the
  blocked networks and their deadlines exactly as the contract says, so that a command for a network touches no
  address and a command for an address touches no network; a command that is refused, fails or panics, at whatever
  point, changes none of them. The deadline index stays consistent either way.\<close>

theorem enforce_refines:
  assumes "ring_inv (sv_ring s)" "processed_results s (decision_id cmd) = None"
    and "enforce_inner v ap t cmd mu d s = (r, s')"
  shows "view s' = (if \<exists>x. r = Ok x then view_step t (epoch (sv_ring s)) cmd (view s) else view s) \<and>
    ring_inv (sv_ring s') \<and> epoch (sv_ring s') = epoch (sv_ring s)"
  using enforce_view [OF assms] by (simp add: ring_kept_def)

theorem enforce_refines_witness:
  "\<exists>s'. enforce lab_env lab_stub lab_clock lab_block lab_service = (Ok (enforce_result_of 1 None True), s') \<and>
     view s' = \<lparr>av_ips = {V4 0x01020304}, av_leases = Map.empty, av_cidrs = {}, av_cidr_leases = Map.empty\<rparr>"
proof -
  obtain s' where s': "enforce_inner lab_env lab_stub lab_clock lab_block None AppendRecord lab_service = (Ok (enforce_result_of 1 None True), s')"
    using lab_enforce unfolding enforce_def by (metis prod.collapse)
  have r: "ring_inv (sv_ring lab_service)" "epoch (sv_ring lab_service) = 0" by (simp_all add: service_new_def ring_new_def [of 0, symmetric])
      (simp add: ring_new_def)
  have n: "processed_results lab_service (decision_id lab_block) = None" by (simp add: service_new_def)
  have v: "view lab_service = \<lparr>av_ips = {}, av_leases = Map.empty, av_cidrs = {}, av_cidr_leases = Map.empty\<rparr>"
    by (simp add: view_def service_new_def lab_store_def store_new_def)
  from enforce_refines [OF r(1) n s'] show ?thesis
    using s' unfolding enforce_def v by (auto simp: lab_block_def set_or_clear_def)
qed

lemma journal_Err:
  assumes "journal v t cmd mu d s = (Err e, s')"
  shows "\<exists>m. e = WalError m"
  using assms unfolding journal_def append_mesh_wal_def append_wal_def log_entry_def
  by (auto split: option.splits prod.splits outcome.splits if_splits)

lemma commit_block_Err:
  assumes "commit_block_state v t cmd s = (Err e, s')"
  shows "(\<exists>m. e = StorageError m) \<and> cmd_cidr cmd = None"
  using assms unfolding commit_block_state_def Let_def
  by (auto split: option.splits prod.splits outcome.splits if_splits bool.splits)

lemma release_Err:
  assumes "release_state v t cmd s = (Err e, s')"
  shows "(\<exists>m. e = StorageError m) \<and> cmd_cidr cmd = None"
proof (cases "cmd_cidr cmd")
  case (Some n)
  then show ?thesis using assms by (simp add: release_state_def)
next
  case None
  then show ?thesis using assms unfolding release_state_def release_store_def Let_def None option.case try_run_Err
    by (auto split: option.splits prod.splits store_value.splits) (metis outcome.exhaust outcome.simps)
qed

lemma commit_action_Err:
  assumes "commit_action v ap t cmd lsn s = (Err e, s')"
  shows "(\<exists>m. e = StorageError m) \<and> cmd_cidr cmd = None"
proof (cases "cmd_action cmd")
  case ActBlock
  then have "commit_block_state v t cmd s = (Err e, s')"
    using assms by (auto simp: commit_action_def try_run_Err Let_def split: prod.splits)
  then show ?thesis by (rule commit_block_Err)
next
  case ActUnblock
  then have "release_state v t cmd s = (Err e, s')"
    using assms by (auto simp: commit_action_def try_run_Err Let_def split: prod.splits)
  then show ?thesis by (rule release_Err)
qed

text \<open>C10: A failed command leaves no half-done work. A refused command changes nothing; a command whose journal
  entry fails has touched only the log; a command the store refuses has only been journalled (and, for a
  cluster mutation, merged): in each case the store, the dataplane, the leases, the mirror and the decision cache are as before.
  No other error is ever returned.\<close>

theorem enforce_error_frame:
  assumes inv: "ring_inv (sv_ring s)" and run: "enforce_inner v ap t cmd mu d s = (Err e, s')"
  shows "case e of
      InvalidCommand _ \<Rightarrow> is_unspecified (cmd_ip cmd) \<and> s' = s
    | WalError _ \<Rightarrow> \<exists>a w. s' = s\<lparr>sv_wal := a, sv_disk := w\<rparr>
    | StorageError _ \<Rightarrow> cmd_cidr cmd = None \<and>
        (\<exists>a w l. s' = s\<lparr>sv_wal := a, sv_disk := w, last_wal_lsn := l,
           mesh_blocklist := (case mu of None \<Rightarrow> mesh_blocklist s | Some m \<Rightarrow> map_option (merge_mutation t m) (mesh_blocklist s))\<rparr>)
    | _ \<Rightarrow> False"
proof -
  have new: "processed_results s (decision_id cmd) = None" using run by (auto simp: enforce_inner_def split: option.splits)
  show ?thesis
  proof (cases "is_unspecified (cmd_ip cmd)")
    case True
    then show ?thesis using run new by (auto simp: enforce_inner_def)
  next
    case False
    obtain j s1 where jr: "journal v t cmd mu d s = (j, s1)" by fastforce
    let ?s2 = "case mu of None \<Rightarrow> s1 | Some m \<Rightarrow> s1\<lparr>mesh_blocklist := map_option (merge_mutation t m) (mesh_blocklist s1)\<rparr>"
    from journal_frame [OF jr] obtain a w l where s1: "s1 = s\<lparr>sv_wal := a, sv_disk := w, last_wal_lsn := l\<rparr>"
      and jl: "(\<exists>x. j = Ok x) \<or> l = last_wal_lsn s" by (metis service.select_convs(12) service.surjective service.update_convs(12))
    show ?thesis
    proof (cases j)
      case (Ok lsn)
      then have co: "commit_action v ap t cmd lsn ?s2 = (Err e, s')"
        using run new False jr by (simp add: enforce_inner_def try_run_def)
      have ri: "ring_inv (sv_ring ?s2)" using s1 inv by (simp split: option.split)
      have "s' = ?s2" using commit_action_view [OF ri co] by simp
      moreover have "(\<exists>m. e = StorageError m) \<and> cmd_cidr cmd = None" by (rule commit_action_Err [OF co])
      ultimately show ?thesis using s1 by (auto split: option.splits)
    next
      case (Err x)
      then have "s' = s1" "x = e" using run new False jr by (simp_all add: enforce_inner_def try_run_def)
      moreover have "\<exists>m. x = WalError m" using jr Err journal_Err by blast
      moreover have "s1 = s\<lparr>sv_wal := a, sv_disk := w\<rparr>" using s1 jl Err by auto
      ultimately show ?thesis by (auto intro!: exI [of _ a] exI [of _ w])
    qed (use run new False jr in \<open>simp_all add: enforce_inner_def try_run_def\<close>)
  qed
qed

theorem enforce_error_frame_witness:
  "\<exists>s' a w l. enforce lab_env lab_stub lab_clock lab_block (service_new store_new () empty_disk 0) =
       (Err (StorageError ''store update_block_state: capacity exceeded''), s') \<and>
     s' = (service_new store_new () empty_disk 0)\<lparr>sv_wal := a, sv_disk := w, last_wal_lsn := l, mesh_blocklist := None\<rparr>"
proof -
  let ?s = "service_new store_new () empty_disk 0" and ?e = "StorageError ''store update_block_state: capacity exceeded''"
  have j: "journal lab_env lab_clock lab_block None AppendRecord ?s = (Ok None, ?s)"
    by (simp add: journal_def append_wal_def log_entry_def service_new_def)
  have f: "sv_store ?s = store_new" "processed_results ?s (decision_id lab_block) = None" "ring_inv (sv_ring ?s)" "mesh_blocklist ?s = None"
    by (simp_all add: service_new_def)
  have "ram_limit store_new = Some 0" by (simp add: ram_limit_def store_new_def traffic_new_def)
  moreover have "update_block_state 100 0 (V4 0x01020304) b 0 store_new = (Ok False, store_new)" for b
    by (simp add: update_block_state_def store_new_def reserve_def checked_add_def)
  ultimately have c: "commit_block_state lab_env lab_clock lab_block ?s = (Err ?e, ?s)"
    using f(1) by (simp add: commit_block_state_def lab_block_def lab_env_def lab_clock_def Let_def)
  have a: "cmd_action lab_block = ActBlock" "\<not> is_unspecified (cmd_ip lab_block)" by (simp_all add: lab_block_def)
  have run: "enforce_inner lab_env lab_stub lab_clock lab_block None AppendRecord ?s = (Err ?e, ?s)"
    by (simp add: enforce_inner_def f(2) a j try_run_def commit_action_def c)
  from enforce_error_frame [OF f(3) run] show ?thesis using run f(4) unfolding enforce_def by auto
qed

end
