(* ===== verification/Enforcement_Expiry.thy ===== *)
theory Enforcement_Expiry
  imports Enforcement_View
begin

text \<open>
  Expiry, reconciliation and drop attribution of the enforcement actor: \<^verbatim>\<open>expire_due\<close> (\<^verbatim>\<open>service/expiry.rs\<close>) and the periodic
  tick of \<^verbatim>\<open>service/run.rs\<close>, on the contract of \<open>Enforcement_View\<close>.
\<close>

section \<open>Fresh identifiers\<close>

lemma trim_cache_None: "m d = None \<Longrightarrow> snd (trim_cache ds m) d = None"
  by (induction ds m rule: trim_cache.induct) auto

lemma remember_other: "processed_results s d = None \<Longrightarrow> d \<noteq> res_decision_id r \<Longrightarrow> processed_results (remember_result r s) d = None"
  using trim_cache_None [of "(processed_results s)(res_decision_id r \<mapsto> r)" d "processed_order s @ [res_decision_id r]"]
  by (auto simp: remember_result_def Let_def split: prod.split)

lemma commit_action_other:
  assumes "commit_action v ap t cmd lsn s = (r, s')" "processed_results s d = None" "d \<noteq> decision_id cmd"
  shows "processed_results s' d = None"
proof (cases "\<exists>x. r = Ok x")
  case True
  then obtain x where x: "r = Ok x" by blast
  from commit_action_Ok [OF assms(1) [unfolded x]] obtain s1 s2 y where
    r: "x = enforce_result_of (decision_id cmd) lsn y" "s' = remember_result x s2" "proj_frame s1 s2"
    and c: "(\<exists>q. commit_block_state v t cmd s = (q, s1)) \<or> (\<exists>q. release_state v t cmd s = (q, s1))" by blast
  have "commit_frame s s1" using c commit_block_frame release_frame by blast
  then have "processed_results s2 d = None" using assms(2) r(3) by (simp add: commit_frame_def proj_frame_def)
  then show ?thesis using r assms(3) remember_other [of s2 d x] by (simp add: enforce_result_of_def)
next
  case False
  then have "commit_frame s s'" using commit_action_stop [OF assms(1)] by blast
  then show ?thesis using assms(2) by (simp add: commit_frame_def)
qed

lemma enforce_other:
  assumes run: "enforce_inner v ap t cmd mu k s = (r, s')" and d: "processed_results s d = None" "d \<noteq> decision_id cmd"
  shows "processed_results s' d = None"
proof (cases "processed_results s (decision_id cmd) = None \<and> \<not> is_unspecified (cmd_ip cmd)")
  case True
  obtain j s1 where jr: "journal v t cmd mu k s = (j, s1)" by fastforce
  let ?s2 = "case mu of None \<Rightarrow> s1 | Some m \<Rightarrow> s1\<lparr>mesh_blocklist := map_option (merge_mutation t m) (mesh_blocklist s1)\<rparr>"
  have n: "processed_results ?s2 d = None" using d journal_fields(3) [OF jr] by (simp split: option.split)
  show ?thesis
  proof (cases j)
    case (Ok lsn)
    then have "commit_action v ap t cmd lsn ?s2 = (r, s')" using run True jr by (simp add: enforce_inner_def try_run_def)
    then show ?thesis using n d(2) by (rule commit_action_other)
  qed (use run True jr d journal_fields(3) [OF jr] in \<open>auto simp: enforce_inner_def try_run_def\<close>)
next
  case False
  then show ?thesis using run d by (auto simp: enforce_inner_def split: option.splits)
qed

lemma enforce_Invalid:
  assumes "enforce_inner v ap t cmd mu k s = (Err (InvalidCommand m), s')"
  shows "is_unspecified (cmd_ip cmd)"
proof (rule ccontr)
  assume n: "\<not> is_unspecified (cmd_ip cmd)"
  obtain j s1 where jr: "journal v t cmd mu k s = (j, s1)" by fastforce
  show False
    using assms n jr journal_Err [of v t cmd mu k s "InvalidCommand m" s'] commit_action_Err
    by (cases j) (fastforce simp: enforce_inner_def try_run_def split: option.splits)+
qed

section \<open>Expiry\<close>

lemma view_eqs:
  "view s' = view s \<longleftrightarrow> blocked_ips s' = blocked_ips s \<and> lease (sv_ring s') = lease (sv_ring s) \<and>
     active_cidrs (sv_store s') = active_cidrs (sv_store s) \<and> cidr_expirations s' = cidr_expirations s"
  by (auto simp: view_def)

definition ids_fresh :: "(nat \<Rightarrow> uuid) \<Rightarrow> nat \<Rightarrow> nat \<Rightarrow> 'x service \<Rightarrow> bool" where
  "ids_fresh ids N i s \<longleftrightarrow> inj_on ids {..<N} \<and> (\<forall>k \<ge> i. k < N \<longrightarrow> processed_results s (ids k) = None)"

lemma ids_fresh_step:
  assumes "ids_fresh ids N i s" "enforce v ap t cmd s = (r, s')" "decision_id cmd = ids i" "i < N"
  shows "ids_fresh ids N (Suc i) s'"
proof -
  have "processed_results s' (ids k) = None" if "Suc i \<le> k" "k < N" for k
  proof (rule enforce_other [OF assms(2) [unfolded enforce_def]])
    show "processed_results s (ids k) = None" using assms(1) that by (simp add: ids_fresh_def)
    show "ids k \<noteq> decision_id cmd" using assms(1,3,4) that by (auto simp: ids_fresh_def dest: inj_onD)
  qed
  then show ?thesis using assms(1) by (simp add: ids_fresh_def)
qed

text \<open>What the answer \<open>r\<close> to the release command of a due address means for it: released on success, left without a
  deadline when the address is refused as unspecified, and otherwise still as it was and due again one second
  after the failure.\<close>

definition address_settled :: "clock \<Rightarrow> (enforce_result, enforcement_error) outcome \<Rightarrow> ipaddr \<Rightarrow> 'x service \<Rightarrow> 'x service \<Rightarrow> bool" where
  "address_settled t r ip s s' \<longleftrightarrow>
     (case r of
        Ok _ \<Rightarrow> ip \<notin> blocked_ips s' \<and> lease (sv_ring s') ip = None
      | Err (InvalidCommand _) \<Rightarrow>
          is_unspecified ip \<and> (ip \<in> blocked_ips s' \<longleftrightarrow> ip \<in> blocked_ips s) \<and> lease (sv_ring s') ip = None
      | Err _ \<Rightarrow> (ip \<in> blocked_ips s' \<longleftrightarrow> ip \<in> blocked_ips s) \<and>
          lease (sv_ring s') ip = Some (second_of (epoch (sv_ring s)) (ck_mono t + ns_per_sec))
      | _ \<Rightarrow> False)"

text \<open>The answer to the \<open>k\<close>-th release command of a round, given the state the commands before it left.\<close>

definition address_answer ::
  "env \<Rightarrow> 'x applier \<Rightarrow> (nat \<Rightarrow> clock) \<Rightarrow> (nat \<Rightarrow> uuid) \<Rightarrow> nat \<Rightarrow> ipaddr list \<Rightarrow> 'x service \<Rightarrow> nat \<Rightarrow>
   (enforce_result, enforcement_error) outcome" where
  "address_answer v ap tk ids i due s k =
     fst (enforce v ap (tk (i + k)) (ttl_command (ids (i + k)) (tk (i + k)) (due ! k) None)
       (snd (expire_ips v ap tk ids i (take k due) s)))"

definition ips_kept :: "ipaddr set \<Rightarrow> 'x service \<Rightarrow> 'x service \<Rightarrow> bool" where
  "ips_kept A s s' \<longleftrightarrow> (\<forall>ip. ip \<notin> A \<longrightarrow> (ip \<in> blocked_ips s' \<longleftrightarrow> ip \<in> blocked_ips s) \<and> lease (sv_ring s') ip = lease (sv_ring s) ip) \<and>
     active_cidrs (sv_store s') = active_cidrs (sv_store s) \<and> cidr_expirations s' = cidr_expirations s"

lemma expire_one_ip:
  assumes inv: "ring_inv (sv_ring s)" and fresh: "ids_fresh ids N i s" and lt: "i < N" and no: "lease (sv_ring s) ip = None"
    and run: "enforce v ap t (ttl_command (ids i) t ip None) s = (r, s')"
  shows "ring_kept s s' \<and> ids_fresh ids N (Suc i) s' \<and> ips_kept {ip} s s' \<and> lease (sv_ring s') ip = None \<and>
    ((\<exists>x. r = Ok x) \<longrightarrow> ip \<notin> blocked_ips s') \<and> ((\<exists>e. r = Err e) \<longrightarrow> (ip \<in> blocked_ips s' \<longleftrightarrow> ip \<in> blocked_ips s)) \<and>
    ((\<exists>m. r = Err (InvalidCommand m)) \<longrightarrow> is_unspecified ip)"
proof -
  let ?c = "ttl_command (ids i) t ip None"
  have c: "decision_id ?c = ids i" "cmd_ip ?c = ip" "cmd_action ?c = ActUnblock" "cmd_cidr ?c = None" by (simp_all add: ttl_command_def)
  have n: "processed_results s (decision_id ?c) = None" using fresh lt c by (simp add: ids_fresh_def)
  note v = enforce_view [OF inv n run [unfolded enforce_def]]
  have "ips_kept {ip} s s'" "lease (sv_ring s') ip = None"
    using v c no by (cases "\<exists>x. r = Ok x"; auto simp: ips_kept_def view_def Let_def)+
  moreover have "ip \<notin> blocked_ips s'" if "\<exists>x. r = Ok x" using v c that by (auto simp: view_def Let_def)
  moreover have "ip \<in> blocked_ips s' \<longleftrightarrow> ip \<in> blocked_ips s" if "\<exists>e. r = Err e" using v c that by (auto simp: view_def)
  moreover have "is_unspecified ip" if "r = Err (InvalidCommand m)" for m
    using enforce_Invalid [of v ap t ?c None AppendRecord s m s'] run that c by (simp add: enforce_def)
  ultimately show ?thesis using v ids_fresh_step [OF fresh run c(1) lt] by blast
qed

text \<open>One round of the loop: what remains is the loop on the rest, from a state in which the address is settled.\<close>

lemma expire_ips_step:
  assumes inv: "ring_inv (sv_ring s)" and fresh: "ids_fresh ids N i s" and lt: "i < N" and no: "lease (sv_ring s) ip = None"
    and run: "expire_ips v ap tk ids i (ip # due) s = (Ok (), s')"
  shows "\<exists>s2. (\<forall>ds. expire_ips v ap tk ids i (ip # ds) s = expire_ips v ap tk ids (Suc i) ds s2) \<and> ring_kept s s2 \<and>
    ids_fresh ids N (Suc i) s2 \<and> ips_kept {ip} s s2 \<and>
    address_settled (tk i) (fst (enforce v ap (tk i) (ttl_command (ids i) (tk i) ip None) s)) ip s s2"
proof -
  obtain r s1 where e: "enforce v ap (tk i) (ttl_command (ids i) (tk i) ip None) s = (r, s1)" by fastforce
  note one = expire_one_ip [OF inv fresh lt no e]
  show ?thesis
  proof (cases r)
    case (Ok x)
    then show ?thesis using e one
      by (intro exI [of _ "upd_metrics (\<lambda>m. m\<lparr>m_blocks_expired := m_blocks_expired m + 1\<rparr>) s1"])
        (simp add: ring_kept_def ids_fresh_def ips_kept_def address_settled_def)
  next
    case (Err x)
    show ?thesis
    proof (cases "\<exists>m. x = InvalidCommand m")
      case True
      then show ?thesis using e one Err by (intro exI [of _ s1]) (auto simp: address_settled_def)
    next
      case False
      let ?s2 = "s1\<lparr>sv_ring := schedule_expiration ip (ck_mono (tk i) + ns_per_sec) (sv_ring s1)\<rparr>"
      have st: "\<forall>ds. expire_ips v ap tk ids i (ip # ds) s = expire_ips v ap tk ids (Suc i) ds ?s2"
        using e Err False by (cases x) auto
      have r1: "ring_inv (sv_ring s1)" "epoch (sv_ring s1) = epoch (sv_ring s)" using one by (simp_all add: ring_kept_def)
      have "lease (sv_ring ?s2) ip = Some (second_of (epoch (sv_ring s)) (ck_mono (tk i) + ns_per_sec))"
        using schedule_lease [OF r1(1)] r1(2) by (simp add: bucket_second)
      moreover have "ip \<in> blocked_ips ?s2 \<longleftrightarrow> ip \<in> blocked_ips s" using one Err by simp
      ultimately have "address_settled (tk i) r ip s ?s2"
        using Err False by (cases x) (simp_all add: address_settled_def)
      moreover have "ring_kept s ?s2" "ids_fresh ids N (Suc i) ?s2" "ips_kept {ip} s ?s2"
        using one r1 schedule_inv [OF r1(1)] schedule_lease [OF r1(1)]
        by (simp_all add: ring_kept_def ids_fresh_def ips_kept_def)
      ultimately show ?thesis using st e by (intro exI [of _ ?s2]) simp
    qed
  qed (use run e in simp_all)
qed

lemma address_settled_mono:
  assumes "address_settled t r ip s s1" "ips_kept A s1 s'" "ip \<notin> A"
  shows "address_settled t r ip s s'"
  using assms by (auto simp: address_settled_def ips_kept_def split: outcome.splits enforcement_error.splits)

lemma address_settled_start:
  assumes "address_settled t r ip s1 s'" "ips_kept A s s1" "ip \<notin> A" "ring_kept s s1"
  shows "address_settled t r ip s s'"
  using assms by (auto simp: address_settled_def ips_kept_def ring_kept_def split: outcome.splits enforcement_error.splits)

lemma expire_ips_spec:
  assumes "ring_inv (sv_ring s)" "ids_fresh ids N i s" "i + length due \<le> N" "distinct due"
    "\<forall>ip \<in> set due. lease (sv_ring s) ip = None" "expire_ips v ap tk ids i due s = (Ok (), s')"
  shows "ring_kept s s' \<and> ids_fresh ids N (i + length due) s' \<and> ips_kept (set due) s s' \<and>
    (\<forall>k < length due. address_settled (tk (i + k)) (address_answer v ap tk ids i due s k) (due ! k) s s')"
  using assms
proof (induction due arbitrary: i s)
  case Nil
  then show ?case by (simp add: ring_kept_def ips_kept_def)
next
  case (Cons ip due)
  have lt: "i < N" and no: "lease (sv_ring s) ip = None" and nd: "ip \<notin> set due" using Cons.prems(3-5) by simp_all
  from expire_ips_step [OF Cons.prems(1,2) lt no Cons.prems(6)] obtain s2 where
    st: "\<And>ds. expire_ips v ap tk ids i (ip # ds) s = expire_ips v ap tk ids (Suc i) ds s2"
    and s2: "ring_kept s s2" "ids_fresh ids N (Suc i) s2" "ips_kept {ip} s s2"
    and one: "address_settled (tk i) (fst (enforce v ap (tk i) (ttl_command (ids i) (tk i) ip None) s)) ip s s2" by blast
  have "\<forall>a \<in> set due. lease (sv_ring s2) a = None" using Cons.prems(5) s2(3) nd by (auto simp: ips_kept_def)
  from Cons.IH [OF _ s2(2) _ _ this] s2(1) Cons.prems(3,4,6) st
  have ih: "ring_kept s2 s'" "ids_fresh ids N (Suc i + length due) s'" "ips_kept (set due) s2 s'"
    "\<forall>k < length due. address_settled (tk (Suc i + k)) (address_answer v ap tk ids (Suc i) due s2 k) (due ! k) s2 s'"
    by (simp_all add: ring_kept_def)
  have "address_settled (tk (i + k)) (address_answer v ap tk ids i (ip # due) s k) ((ip # due) ! k) s s'"
    if k: "k < length (ip # due)" for k
  proof (cases k)
    case 0
    then show ?thesis using address_settled_mono [OF one ih(3) nd] by (simp add: address_answer_def)
  next
    case (Suc j)
    then have j: "j < length due" using k by simp
    have "address_answer v ap tk ids i (ip # due) s k = address_answer v ap tk ids (Suc i) due s2 j"
      using Suc st [of "take j due"] by (simp add: address_answer_def del: expire_ips.simps)
    moreover have "address_settled (tk (Suc i + j)) (address_answer v ap tk ids (Suc i) due s2 j) (due ! j) s2 s'"
      using ih(4) j by blast
    moreover have "due ! j \<notin> {ip}" using nd j by (metis nth_mem singletonD)
    ultimately show ?thesis using address_settled_start [OF _ s2(3) _ s2(1)] Suc by simp
  qed
  moreover have "ips_kept (set (ip # due)) s s'" using s2(3) ih(3) by (simp add: ips_kept_def)
  ultimately show ?case using ih(1,2) s2(1) by (simp add: ring_kept_def)
qed

text \<open>The same for networks; their deadline is removed before the release command.\<close>

definition network_settled :: "clock \<Rightarrow> (enforce_result, enforcement_error) outcome \<Rightarrow> ip_network \<Rightarrow> 'x service \<Rightarrow> 'x service \<Rightarrow> bool" where
  "network_settled t r n s s' \<longleftrightarrow>
     (case r of
        Ok _ \<Rightarrow> n \<notin> active_cidrs (sv_store s') \<and> cidr_expirations s' n = None
      | Err (InvalidCommand _) \<Rightarrow> is_unspecified (net_addr n) \<and>
          (n \<in> active_cidrs (sv_store s') \<longleftrightarrow> n \<in> active_cidrs (sv_store s)) \<and> cidr_expirations s' n = None
      | Err _ \<Rightarrow> (n \<in> active_cidrs (sv_store s') \<longleftrightarrow> n \<in> active_cidrs (sv_store s)) \<and>
          cidr_expirations s' n = Some (ck_mono t + ns_per_sec)
      | _ \<Rightarrow> False)"

definition network_answer ::
  "env \<Rightarrow> 'x applier \<Rightarrow> (nat \<Rightarrow> clock) \<Rightarrow> (nat \<Rightarrow> uuid) \<Rightarrow> nat \<Rightarrow> ip_network list \<Rightarrow> 'x service \<Rightarrow> nat \<Rightarrow>
   (enforce_result, enforcement_error) outcome" where
  "network_answer v ap tk ids i due s k =
     (let s1 = snd (expire_cidrs v ap tk ids i (take k due) s)
      in fst (enforce v ap (tk (i + k)) (ttl_command (ids (i + k)) (tk (i + k)) (net_addr (due ! k)) (Some (due ! k)))
           (s1\<lparr>cidr_expirations := (cidr_expirations s1)(due ! k := None)\<rparr>)))"

definition nets_kept :: "ip_network set \<Rightarrow> 'x service \<Rightarrow> 'x service \<Rightarrow> bool" where
  "nets_kept A s s' \<longleftrightarrow>
     (\<forall>n. n \<notin> A \<longrightarrow> (n \<in> active_cidrs (sv_store s') \<longleftrightarrow> n \<in> active_cidrs (sv_store s)) \<and> cidr_expirations s' n = cidr_expirations s n) \<and>
     blocked_ips s' = blocked_ips s \<and> lease (sv_ring s') = lease (sv_ring s)"

lemma expire_one_net:
  assumes inv: "ring_inv (sv_ring s)" and fresh: "ids_fresh ids N i s" and lt: "i < N"
    and run: "enforce v ap t (ttl_command (ids i) t (net_addr n) (Some n)) (s\<lparr>cidr_expirations := (cidr_expirations s)(n := None)\<rparr>) = (r, s')"
  shows "ring_kept s s' \<and> ids_fresh ids N (Suc i) s' \<and> nets_kept {n} s s' \<and> cidr_expirations s' n = None \<and>
    ((\<exists>x. r = Ok x) \<longrightarrow> n \<notin> active_cidrs (sv_store s')) \<and>
    ((\<exists>e. r = Err e) \<longrightarrow> (n \<in> active_cidrs (sv_store s') \<longleftrightarrow> n \<in> active_cidrs (sv_store s))) \<and>
    ((\<exists>m. r = Err (InvalidCommand m)) \<longrightarrow> is_unspecified (net_addr n))"
proof -
  let ?c = "ttl_command (ids i) t (net_addr n) (Some n)" and ?s = "s\<lparr>cidr_expirations := (cidr_expirations s)(n := None)\<rparr>"
  have c: "decision_id ?c = ids i" "cmd_ip ?c = net_addr n" "cmd_action ?c = ActUnblock" "cmd_cidr ?c = Some n"
    by (simp_all add: ttl_command_def)
  have n: "processed_results ?s (decision_id ?c) = None" "ids_fresh ids N i ?s" "ring_inv (sv_ring ?s)"
    using fresh lt c inv by (simp_all add: ids_fresh_def)
  note v = enforce_view [OF n(3,1) run [unfolded enforce_def]]
  have "nets_kept {n} s s'" "cidr_expirations s' n = None"
    using v c by (cases "\<exists>x. r = Ok x"; auto simp: nets_kept_def view_def Let_def)+
  moreover have "n \<notin> active_cidrs (sv_store s')" if "\<exists>x. r = Ok x" using v c that by (auto simp: view_def Let_def)
  moreover have "n \<in> active_cidrs (sv_store s') \<longleftrightarrow> n \<in> active_cidrs (sv_store s)" if "\<exists>e. r = Err e"
    using v c that by (auto simp: view_def)
  moreover have "is_unspecified (net_addr n)" if "r = Err (InvalidCommand m)" for m
    using enforce_Invalid [of v ap t ?c None AppendRecord ?s m s'] run that c by (simp add: enforce_def)
  ultimately show ?thesis using v ids_fresh_step [OF n(2) run c(1) lt] by (auto simp: ring_kept_def)
qed

lemma expire_cidrs_step:
  assumes inv: "ring_inv (sv_ring s)" and fresh: "ids_fresh ids N i s" and lt: "i < N"
    and run: "expire_cidrs v ap tk ids i (n # due) s = (Ok (), s')"
  shows "\<exists>s2. (\<forall>ds. expire_cidrs v ap tk ids i (n # ds) s = expire_cidrs v ap tk ids (Suc i) ds s2) \<and> ring_kept s s2 \<and>
      ids_fresh ids N (Suc i) s2 \<and> nets_kept {n} s s2 \<and>
      network_settled (tk i) (fst (enforce v ap (tk i) (ttl_command (ids i) (tk i) (net_addr n) (Some n))
        (s\<lparr>cidr_expirations := (cidr_expirations s)(n := None)\<rparr>))) n s s2 \<and>
      (is_unspecified (net_addr n) \<longrightarrow> s2 = s\<lparr>cidr_expirations := (cidr_expirations s)(n := None)\<rparr>)"
proof -
  let ?s = "s\<lparr>cidr_expirations := (cidr_expirations s)(n := None)\<rparr>" and ?c = "ttl_command (ids i) (tk i) (net_addr n) (Some n)"
  obtain r s1 where e: "enforce v ap (tk i) ?c ?s = (r, s1)" by fastforce
  note one = expire_one_net [OF inv fresh lt e]
  have z: "s1 = ?s \<and> r = Err (InvalidCommand ''unspecified IP is not blockable'')" if "is_unspecified (net_addr n)"
  proof -
    have "processed_results ?s (ids i) = None" using fresh lt by (simp add: ids_fresh_def)
    then show ?thesis using e that by (simp add: enforce_def enforce_inner_def ttl_command_def)
  qed
  show ?thesis
  proof (cases r)
    case (Ok x)
    then show ?thesis using e one z by (intro exI [of _ s1]) (auto simp: network_settled_def)
  next
    case (Err x)
    show ?thesis
    proof (cases "\<exists>m. x = InvalidCommand m")
      case True
      then show ?thesis using e one Err z by (intro exI [of _ s1]) (auto simp: network_settled_def)
    next
      case False
      let ?s2 = "s1\<lparr>cidr_expirations := (cidr_expirations s1)(n \<mapsto> ck_mono (tk i) + ns_per_sec)\<rparr>"
      have st: "\<forall>ds. expire_cidrs v ap tk ids i (n # ds) s = expire_cidrs v ap tk ids (Suc i) ds ?s2"
        using e Err False by (cases x) auto
      have "network_settled (tk i) r n s ?s2" using one Err False by (cases x) (simp_all add: network_settled_def)
      moreover have "\<not> is_unspecified (net_addr n)" using z Err False by auto
      moreover have "ring_kept s ?s2" "ids_fresh ids N (Suc i) ?s2" "nets_kept {n} s ?s2"
        using one by (simp_all add: ring_kept_def ids_fresh_def nets_kept_def)
      ultimately show ?thesis using st e by (intro exI [of _ ?s2]) simp
    qed
  qed (use run e in simp_all)
qed

lemma network_settled_mono:
  assumes "network_settled t r n s s1" "nets_kept A s1 s'" "n \<notin> A"
  shows "network_settled t r n s s'"
  using assms by (auto simp: network_settled_def nets_kept_def split: outcome.splits enforcement_error.splits)

lemma network_settled_start:
  assumes "network_settled t r n s1 s'" "nets_kept A s s1" "n \<notin> A"
  shows "network_settled t r n s s'"
  using assms by (auto simp: network_settled_def nets_kept_def split: outcome.splits enforcement_error.splits)

lemma expire_cidrs_spec:
  assumes "ring_inv (sv_ring s)" "ids_fresh ids N i s" "i + length due \<le> N" "distinct due"
    "expire_cidrs v ap tk ids i due s = (Ok (), s')"
  shows "ring_kept s s' \<and> ids_fresh ids N (i + length due) s' \<and> nets_kept (set due) s s' \<and>
    (\<forall>k < length due. network_settled (tk (i + k)) (network_answer v ap tk ids i due s k) (due ! k) s s') \<and>
    (\<forall>n \<in> set due. is_unspecified (net_addr n) \<longrightarrow>
       cidr_expirations s' n = None \<and> (n \<in> active_cidrs (sv_store s') \<longleftrightarrow> n \<in> active_cidrs (sv_store s)))"
  using assms
proof (induction due arbitrary: i s)
  case Nil
  then show ?case by (simp add: ring_kept_def nets_kept_def)
next
  case (Cons n due)
  have lt: "i < N" and nd: "n \<notin> set due" using Cons.prems(3,4) by simp_all
  from expire_cidrs_step [OF Cons.prems(1,2) lt Cons.prems(5)] obtain s2 where
    st: "\<And>ds. expire_cidrs v ap tk ids i (n # ds) s = expire_cidrs v ap tk ids (Suc i) ds s2"
    and s2: "ring_kept s s2" "ids_fresh ids N (Suc i) s2" "nets_kept {n} s s2"
    and one: "network_settled (tk i) (fst (enforce v ap (tk i) (ttl_command (ids i) (tk i) (net_addr n) (Some n))
        (s\<lparr>cidr_expirations := (cidr_expirations s)(n := None)\<rparr>))) n s s2"
    and z: "is_unspecified (net_addr n) \<Longrightarrow> s2 = s\<lparr>cidr_expirations := (cidr_expirations s)(n := None)\<rparr>" by blast
  from Cons.IH [OF _ s2(2)] s2(1) Cons.prems(3,4,5) st
  have ih: "ring_kept s2 s'" "ids_fresh ids N (Suc i + length due) s'" "nets_kept (set due) s2 s'"
    "\<forall>k < length due. network_settled (tk (Suc i + k)) (network_answer v ap tk ids (Suc i) due s2 k) (due ! k) s2 s'"
    "\<forall>n \<in> set due. is_unspecified (net_addr n) \<longrightarrow>
       cidr_expirations s' n = None \<and> (n \<in> active_cidrs (sv_store s') \<longleftrightarrow> n \<in> active_cidrs (sv_store s2))"
    by (simp_all add: ring_kept_def)
  have "network_settled (tk (i + k)) (network_answer v ap tk ids i (n # due) s k) ((n # due) ! k) s s'"
    if k: "k < length (n # due)" for k
  proof (cases k)
    case 0
    then show ?thesis using network_settled_mono [OF one ih(3) nd] by (simp add: network_answer_def Let_def)
  next
    case (Suc j)
    then have j: "j < length due" using k by simp
    have "network_answer v ap tk ids i (n # due) s k = network_answer v ap tk ids (Suc i) due s2 j"
      using Suc st [of "take j due"] by (simp add: network_answer_def Let_def del: expire_cidrs.simps)
    moreover have "network_settled (tk (Suc i + j)) (network_answer v ap tk ids (Suc i) due s2 j) (due ! j) s2 s'"
      using ih(4) j by blast
    moreover have "due ! j \<notin> {n}" using nd j by (metis nth_mem singletonD)
    ultimately show ?thesis using network_settled_start [OF _ s2(3)] Suc by simp
  qed
  moreover have "nets_kept (set (n # due)) s s'" using s2(3) ih(3) by (simp add: nets_kept_def)
  moreover have "cidr_expirations s' n = None \<and> (n \<in> active_cidrs (sv_store s') \<longleftrightarrow> n \<in> active_cidrs (sv_store s))"
    if "is_unspecified (net_addr n)" using ih(3) nd z [OF that] by (simp add: nets_kept_def)
  moreover have "active_cidrs (sv_store s2) \<inter> set due = active_cidrs (sv_store s) \<inter> set due" using s2(3) nd by (auto simp: nets_kept_def)
  ultimately show ?case using ih s2(1) by (simp add: ring_kept_def) blast
qed

text \<open>The phases of a round: the addresses, and then the networks that are due.\<close>

abbreviation due_nets :: "instant \<Rightarrow> 'x service \<Rightarrow> ip_network set" where
  "due_nets now' s \<equiv> {n. \<exists>d. cidr_expirations s n = Some d \<and> d \<le> now'}"

abbreviation drained :: "instant \<Rightarrow> 'x service \<Rightarrow> ipaddr list \<times> ring" where
  "drained now s \<equiv> drain_due ((now - epoch (sv_ring s)) div ns_per_sec) (sv_ring s)"

abbreviation after_ips :: "env \<Rightarrow> 'x applier \<Rightarrow> (nat \<Rightarrow> clock) \<Rightarrow> (nat \<Rightarrow> uuid) \<Rightarrow> instant \<Rightarrow> 'x service \<Rightarrow> 'x service" where
  "after_ips v ap tk ids now s \<equiv> snd (expire_ips v ap tk ids 0 (fst (drained now s)) (s\<lparr>sv_ring := snd (drained now s)\<rparr>))"

lemma expire_due_runs:
  assumes inv: "ring_inv (sv_ring s)" and inj: "inj_on ids {..<N}" and fresh: "\<And>k. k < N \<Longrightarrow> processed_results s (ids k) = None"
    and many: "length (fst (drained now s)) + length (order (due_nets now' s)) \<le> N"
    and run: "expire_due v ap tk ids now now' order s = (Ok (), s')"
  shows "ids_fresh ids N (length (fst (drained now s))) (after_ips v ap tk ids now s)"
    and "ring_inv (sv_ring (after_ips v ap tk ids now s))"
    and "ips_kept (set (fst (drained now s))) (s\<lparr>sv_ring := snd (drained now s)\<rparr>) (after_ips v ap tk ids now s)"
    and "k < length (fst (drained now s)) \<Longrightarrow> address_settled (tk k)
      (address_answer v ap tk ids 0 (fst (drained now s)) (s\<lparr>sv_ring := snd (drained now s)\<rparr>) k)
      (fst (drained now s) ! k) s (after_ips v ap tk ids now s)"
    and "expire_cidrs v ap tk ids (length (fst (drained now s))) (order (due_nets now' s)) (after_ips v ap tk ids now s) = (Ok (), s')"
proof -
  obtain due r where dr: "drained now s = (due, r)" by fastforce
  let ?T = "(now - epoch (sv_ring s)) div ns_per_sec" and ?s0 = "s\<lparr>sv_ring := r\<rparr>"
  from drain_spec [OF inv, of ?T] have d: "ring_inv r" "distinct due" "set due = {ip. \<exists>b. lease (sv_ring s) ip = Some b \<and> b \<le> ?T}"
    "lease r = (\<lambda>ip. case lease (sv_ring s) ip of None \<Rightarrow> None | Some b \<Rightarrow> if b \<le> ?T then None else Some b)"
    and ep: "epoch r = epoch (sv_ring s)"
    unfolding dr by simp_all
  from run dr obtain s1 where i: "expire_ips v ap tk ids 0 due ?s0 = (Ok (), s1)"
    and c: "expire_cidrs v ap tk ids (length due) (order (due_nets now' s1)) s1 = (Ok (), s')"
    by (auto simp: expire_due_def try_run_Ok)
  have f0: "ids_fresh ids N 0 ?s0" "ring_inv (sv_ring ?s0)" using inj fresh d(1) by (simp_all add: ids_fresh_def)
  have N: "0 + length due \<le> N" using many dr by simp
  have no: "\<forall>ip \<in> set due. lease (sv_ring ?s0) ip = None" using d(3,4) by auto
  note ips = expire_ips_spec [OF f0(2,1) N d(2) no i]
  have ce: "cidr_expirations s1 = cidr_expirations s" using ips by (simp add: ips_kept_def)
  have s1: "after_ips v ap tk ids now s = s1" unfolding dr using i by simp
  show "ids_fresh ids N (length (fst (drained now s))) (after_ips v ap tk ids now s)"
    "ring_inv (sv_ring (after_ips v ap tk ids now s))"
    "ips_kept (set (fst (drained now s))) (s\<lparr>sv_ring := snd (drained now s)\<rparr>) (after_ips v ap tk ids now s)"
    "expire_cidrs v ap tk ids (length (fst (drained now s))) (order (due_nets now' s)) (after_ips v ap tk ids now s) = (Ok (), s')"
    unfolding s1 unfolding dr using ips c ce by (simp_all add: ring_kept_def)
  show "address_settled (tk k)
      (address_answer v ap tk ids 0 (fst (drained now s)) (s\<lparr>sv_ring := snd (drained now s)\<rparr>) k)
      (fst (drained now s) ! k) s (after_ips v ap tk ids now s)" if "k < length (fst (drained now s))"
  proof -
    have "address_settled (tk k) (address_answer v ap tk ids 0 due ?s0 k) (due ! k) ?s0 s1" using ips that dr by simp
    then have "address_settled (tk k) (address_answer v ap tk ids 0 due ?s0 k) (due ! k) s s1"
      using ep by (simp add: address_settled_def split: outcome.splits enforcement_error.splits)
    then show ?thesis unfolding s1 unfolding dr by simp
  qed
qed

text \<open>C9: Expiry forgets no deadline and touches nothing else. In a round that ran to its end, every address whose
  deadline had passed gets one release command, and its answer decides: on success the address is no longer
  blocked and has no deadline; on a failure of the log or the store it stays blocked as it was and is due again one second
  after the failure; and the unspecified address, which is refused as invalid, is left as it was without a deadline. The
  same holds for the due networks, where a network at the unspecified address stays blocked without a deadline. What was not yet
  due keeps its block and its deadline, and nothing without a deadline changes or gains one. The
  round draws distinct decision identifiers that were not used before, and \<open>order\<close> lists the due networks.\<close>

theorem expire_keeps_or_releases:
  assumes inv: "ring_inv (sv_ring s)" and inj: "inj_on ids {..<N}" and fresh: "\<And>k. k < N \<Longrightarrow> processed_results s (ids k) = None"
    and many: "length (fst (drained now s)) + length (order (due_nets now' s)) \<le> N"
    and order: "set (order (due_nets now' s)) = due_nets now' s \<and> distinct (order (due_nets now' s))"
    and run: "expire_due v ap tk ids now now' order s = (Ok (), s')"
  shows "(case lease (sv_ring s) ip of
       Some b \<Rightarrow> if b \<le> (now - epoch (sv_ring s)) div ns_per_sec
         then \<exists>k < length (fst (drained now s)). fst (drained now s) ! k = ip \<and>
           address_settled (tk k) (address_answer v ap tk ids 0 (fst (drained now s)) (s\<lparr>sv_ring := snd (drained now s)\<rparr>) k) ip s s'
         else (ip \<in> blocked_ips s' \<longleftrightarrow> ip \<in> blocked_ips s) \<and> lease (sv_ring s') ip = Some b
     | None \<Rightarrow> (ip \<in> blocked_ips s' \<longleftrightarrow> ip \<in> blocked_ips s) \<and> lease (sv_ring s') ip = None) \<and>
    (case cidr_expirations s n of
       Some d \<Rightarrow> if d \<le> now'
         then \<exists>k < length (order (due_nets now' s)). order (due_nets now' s) ! k = n \<and>
           network_settled (tk (length (fst (drained now s)) + k))
             (network_answer v ap tk ids (length (fst (drained now s))) (order (due_nets now' s)) (after_ips v ap tk ids now s) k) n s s'
         else (n \<in> active_cidrs (sv_store s') \<longleftrightarrow> n \<in> active_cidrs (sv_store s)) \<and> cidr_expirations s' n = Some d
     | None \<Rightarrow> (n \<in> active_cidrs (sv_store s') \<longleftrightarrow> n \<in> active_cidrs (sv_store s)) \<and> cidr_expirations s' n = None)"
proof -
  let ?T = "(now - epoch (sv_ring s)) div ns_per_sec" and ?D = "due_nets now' s"
  note runs = expire_due_runs [OF inv inj fresh many run]
  define due r s1 where dd: "due = fst (drained now s)" "r = snd (drained now s)" "s1 = after_ips v ap tk ids now s"
  from drain_spec [OF inv, of ?T] have d: "set due = {ip. \<exists>b. lease (sv_ring s) ip = Some b \<and> b \<le> ?T}"
    "lease r = (\<lambda>ip. case lease (sv_ring s) ip of None \<Rightarrow> None | Some b \<Rightarrow> if b \<le> ?T then None else Some b)"
    unfolding dd by simp_all
  have ips: "ips_kept (set due) (s\<lparr>sv_ring := r\<rparr>) s1" using runs(3) unfolding dd .
  have sett: "address_settled (tk k) (address_answer v ap tk ids 0 due (s\<lparr>sv_ring := r\<rparr>) k) (due ! k) s s1" if "k < length due" for k
    using runs(4) [of k] that unfolding dd by blast
  have l: "length due + length (order ?D) \<le> N" using many unfolding dd .
  note nets = expire_cidrs_spec [OF runs(2,1) many conjunct2 [OF order] runs(5), folded dd]
  have k: "blocked_ips s' = blocked_ips s1" "lease (sv_ring s') = lease (sv_ring s1)" using nets by (simp_all add: nets_kept_def)
  have ce: "cidr_expirations s1 = cidr_expirations s" "active_cidrs (sv_store s1) = active_cidrs (sv_store s)"
    using ips by (simp_all add: ips_kept_def)
  have A: "case lease (sv_ring s) ip of
       Some b \<Rightarrow> if b \<le> ?T then \<exists>k < length due. due ! k = ip \<and>
           address_settled (tk k) (address_answer v ap tk ids 0 due (s\<lparr>sv_ring := r\<rparr>) k) ip s s'
         else (ip \<in> blocked_ips s' \<longleftrightarrow> ip \<in> blocked_ips s) \<and> lease (sv_ring s') ip = Some b
     | None \<Rightarrow> (ip \<in> blocked_ips s' \<longleftrightarrow> ip \<in> blocked_ips s) \<and> lease (sv_ring s') ip = None"
  proof (cases "ip \<in> set due")
    case True
    then obtain j where j: "j < length due" "due ! j = ip" by (auto simp: in_set_conv_nth)
    have "address_settled (tk j) (address_answer v ap tk ids 0 due (s\<lparr>sv_ring := r\<rparr>) j) ip s s'"
      using sett [OF j(1)] j(2) k by (simp add: address_settled_def split: outcome.splits enforcement_error.splits)
    then show ?thesis using True d(1) j by auto
  next
    case False
    then have "(ip \<in> blocked_ips s' \<longleftrightarrow> ip \<in> blocked_ips s) \<and> lease (sv_ring s') ip = lease r ip"
      using ips k by (simp add: ips_kept_def)
    then show ?thesis using False d by (auto split: option.split)
  qed
  define L where L: "L = order ?D"
  have nk: "nets_kept (set L) s1 s'" "\<And>j. j < length L \<Longrightarrow>
      network_settled (tk (length due + j)) (network_answer v ap tk ids (length due) L s1 j) (L ! j) s1 s'"
    unfolding L using nets by blast+
  have sL: "set L = ?D" unfolding L using order by (rule conjunct1)
  have B: "case cidr_expirations s n of
       Some d \<Rightarrow> if d \<le> now' then \<exists>k < length L. L ! k = n \<and>
           network_settled (tk (length due + k)) (network_answer v ap tk ids (length due) L s1 k) n s s'
         else (n \<in> active_cidrs (sv_store s') \<longleftrightarrow> n \<in> active_cidrs (sv_store s)) \<and> cidr_expirations s' n = Some d
     | None \<Rightarrow> (n \<in> active_cidrs (sv_store s') \<longleftrightarrow> n \<in> active_cidrs (sv_store s)) \<and> cidr_expirations s' n = None"
  proof (cases "n \<in> set L")
    case True
    then obtain j where j: "j < length L" "L ! j = n" by (auto simp: in_set_conv_nth)
    have "network_settled (tk (length due + j)) (network_answer v ap tk ids (length due) L s1 j) n s1 s'" using nk(2) [OF j(1)] j(2) by simp
    then have "network_settled (tk (length due + j)) (network_answer v ap tk ids (length due) L s1 j) n s s'"
      using ce by (simp add: network_settled_def split: outcome.splits enforcement_error.splits)
    then have "\<exists>k < length L. L ! k = n \<and>
        network_settled (tk (length due + k)) (network_answer v ap tk ids (length due) L s1 k) n s s'" using j by blast
    moreover obtain d where "cidr_expirations s n = Some d" "d \<le> now'" using True sL by blast
    ultimately show ?thesis by simp
  next
    case False
    then have "(n \<in> active_cidrs (sv_store s') \<longleftrightarrow> n \<in> active_cidrs (sv_store s)) \<and> cidr_expirations s' n = cidr_expirations s n"
      using nk(1) ce by (simp add: nets_kept_def)
    then show ?thesis using False unfolding sL by (auto split: option.split)
  qed
  from A B show ?thesis unfolding dd L by (rule conjI)
qed

text \<open>The scene with 1.2.3.4 blocked until time zero.\<close>

abbreviation lab_leased :: "unit service" where
  "lab_leased \<equiv> lab_service\<lparr>blocked_ips := {V4 0x01020304}, sv_ring := schedule_expiration (V4 0x01020304) 0 (ring_new 0)\<rparr>"

lemma lab_lease: "lease (sv_ring lab_leased) = [V4 0x01020304 \<mapsto> 0]"
proof -
  have "bucket_of (ring_new 0) 0 = 0" by (simp add: bucket_of_def ring_new_def)
  then show ?thesis by (simp add: schedule_lease)
qed

lemma singleton_list: "distinct xs \<Longrightarrow> set xs = {x} \<Longrightarrow> xs = [x]"
  using distinct_card [of xs] by (cases xs; cases "tl xs") auto

lemma lab_due: "\<exists>r. drain_due 0 (sv_ring lab_leased) = ([V4 0x01020304], r)"
proof -
  have "ring_inv (sv_ring lab_leased)" by (simp add: schedule_inv)
  from drain_spec [OF this, of 0] have "fst (drain_due 0 (sv_ring lab_leased)) = [V4 0x01020304]"
    unfolding lab_lease by (intro singleton_list) auto
  then show ?thesis by (metis prod.collapse)
qed

lemma lab_release:
  assumes "sv_store s = lab_store" "sv_wal s = None" "processed_results s = Map.empty"
  shows "\<exists>r s'. enforce lab_env lab_stub lab_clock (ttl_command d lab_clock (V4 0x01020304) None) s = (Ok r, s')"
proof -
  let ?c = "ttl_command d lab_clock (V4 0x01020304) None"
  have j: "journal lab_env lab_clock ?c None AppendRecord s = (Ok None, s)"
    using assms by (simp add: journal_def append_wal_def log_entry_def)
  have c: "\<not> is_unspecified (cmd_ip ?c)" "cmd_action ?c = ActUnblock" "cmd_cidr ?c = None" by (simp_all add: ttl_command_def)
  have "store_get now ip lab_store = None" for now ip by (simp add: store_get_def lab_store_def store_new_def)
  then have "\<exists>ds s1. release_state lab_env lab_clock ?c s = (Ok ds, s1)"
    using assms c by (simp add: release_state_def release_store_def try_run_def Let_def split: prod.split)
  then obtain ds s1 where r: "release_state lab_env lab_clock ?c s = (Ok ds, s1)" by blast
  then show ?thesis using assms c j
    by (simp add: enforce_def enforce_inner_def try_run_def commit_action_def Let_def split: prod.split)
qed

theorem expire_keeps_or_releases_witness:
  "\<exists>s'. expire_due lab_env lab_stub (\<lambda>_. lab_clock) of_nat 0 0 (\<lambda>_. []) lab_leased = (Ok (), s') \<and>
     V4 0x01020304 \<in> blocked_ips lab_leased \<and> lease (sv_ring lab_leased) (V4 0x01020304) = Some 0 \<and>
     V4 0x01020304 \<notin> blocked_ips s' \<and> lease (sv_ring s') (V4 0x01020304) = None"
proof -
  obtain r where r: "drain_due 0 (sv_ring lab_leased) = ([V4 0x01020304], r)" using lab_due by blast
  let ?s = "lab_leased\<lparr>sv_ring := r\<rparr>"
  have ep: "epoch (sv_ring lab_leased) = 0" by (simp add: ring_new_def)
  have st: "sv_store ?s = lab_store" "sv_wal ?s = None" "processed_results ?s = Map.empty" by (simp_all add: service_new_def)
  from lab_release [OF st] obtain q s1 where q: "enforce lab_env lab_stub lab_clock (ttl_command 0 lab_clock (V4 0x01020304) None) ?s = (Ok q, s1)" by blast
  then have run: "\<exists>s'. expire_due lab_env lab_stub (\<lambda>_. lab_clock) of_nat 0 0 (\<lambda>_. []) lab_leased = (Ok (), s')"
    unfolding expire_due_def ep using r by (simp add: try_run_def)
  then obtain s' where s': "expire_due lab_env lab_stub (\<lambda>_. lab_clock) of_nat 0 0 (\<lambda>_. []) lab_leased = (Ok (), s')" by blast
  have inv: "ring_inv (sv_ring lab_leased)" by (simp add: schedule_inv)
  have inj: "inj_on (of_nat :: nat \<Rightarrow> uuid) {..<1}" by (simp add: inj_on_def)
  have fresh: "processed_results lab_leased (of_nat k) = None" for k by (simp add: service_new_def)
  have none: "{n. \<exists>d. cidr_expirations lab_leased n = Some d \<and> d \<le> 0} = {}" by (simp add: service_new_def)
  have many: "length (fst (drain_due ((0 - epoch (sv_ring lab_leased)) div ns_per_sec) (sv_ring lab_leased))) + length ([] :: ip_network list) \<le> 1"
    unfolding ep using r by simp
  have order: "set ([] :: ip_network list) = {n. \<exists>d. cidr_expirations lab_leased n = Some d \<and> d \<le> 0} \<and> distinct ([] :: ip_network list)"
    unfolding none by simp
  note k = expire_keeps_or_releases [where ids = of_nat and N = 1 and now = 0 and now' = 0 and order = "\<lambda>_. []" and s = lab_leased and
      ip = "V4 0x01020304" and v = lab_env and ap = lab_stub and tk = "\<lambda>_. lab_clock" and s' = s',
      OF inv inj fresh many order s', THEN conjunct1]
  have dr: "drained 0 lab_leased = ([V4 0x01020304], r)" unfolding ep using r by simp
  have "address_answer lab_env lab_stub (\<lambda>_. lab_clock) of_nat 0 [V4 0x01020304] ?s 0 = Ok q"
    using q by (simp add: address_answer_def)
  moreover have "lease (sv_ring lab_leased) (V4 0x01020304) = Some 0" unfolding lab_lease by simp
  moreover from this have "\<exists>k < 1. address_settled lab_clock
      (address_answer lab_env lab_stub (\<lambda>_. lab_clock) of_nat 0 [V4 0x01020304] ?s k) (V4 0x01020304) lab_leased s'"
    using k unfolding dr fst_conv snd_conv by auto
  ultimately have "V4 0x01020304 \<notin> blocked_ips s' \<and> lease (sv_ring s') (V4 0x01020304) = None"
    by (simp add: address_settled_def)
  with s' \<open>lease (sv_ring lab_leased) (V4 0x01020304) = Some 0\<close> show ?thesis by simp
qed

section \<open>Two ways out of the contract\<close>

text \<open>The store after an answered block of an address: the record says blocked, the index of blocked addresses did not grow.\<close>

lemma block_store:
  assumes run: "enforce_inner v ap t cmd mu d s = (Ok r, s')" and new: "processed_results s (decision_id cmd) = None"
    and act: "cmd_action cmd = ActBlock" "cmd_cidr cmd = None"
  shows "get_all_blocked_ips (sv_store s') \<subseteq> get_all_blocked_ips (sv_store s)"
proof -
  from enforce_inner_Ok [OF run new] obtain lsn s1 where j: "journal v t cmd mu d s = (Ok lsn, s1)"
    and co: "commit_action v ap t cmd lsn
      (case mu of None \<Rightarrow> s1 | Some m \<Rightarrow> s1\<lparr>mesh_blocklist := map_option (merge_mutation t m) (mesh_blocklist s1)\<rparr>) = (Ok r, s')" by blast
  let ?s2 = "case mu of None \<Rightarrow> s1 | Some m \<Rightarrow> s1\<lparr>mesh_blocklist := map_option (merge_mutation t m) (mesh_blocklist s1)\<rparr>"
  have s2: "sv_store ?s2 = sv_store s" using journal_fields(1) [OF j] by (simp split: option.split)
  from commit_action_Ok [OF co] act obtain s3 s4 where c: "commit_block_state v t cmd ?s2 = (Ok (), s3)"
    and p: "proj_frame s3 s4" and s': "s' = remember_result r s4" by auto
  have "sv_store s' = sv_store s3"
    using p s' by (simp add: proj_frame_def remember_result_def Let_def split: prod.split)
  moreover obtain lim q st where u: "update_block_state (e_base v) (ck_store t) (cmd_ip cmd)
      (Blocked (reason_to_block_reason (cmd_reason cmd)) (ck_now_ns t)) lim (sv_store s) = (q, st)" "sv_store s3 = st"
    using c act(2) s2 by (auto simp: commit_block_state_def Let_def split: option.splits prod.splits outcome.splits bool.splits if_splits)
  ultimately show ?thesis using update_block_state_cidrs [OF u(1)] by (simp add: get_all_blocked_ips_def)
qed

text \<open>C18: Reconciliation undoes a block the actor has just made. After an answered block of an address that was not
  already in the store's index of blocked addresses, the address is in the actor's blocked set; the periodic
  reconciliation then passes the dataplane a set without it and, when that succeeds, drops it from
  the blocked set as well.\<close>

theorem reconcile_undoes_block:
  assumes inv: "ring_inv (sv_ring s)" and new: "processed_results s (decision_id cmd) = None"
    and act: "cmd_action cmd = ActBlock" "cmd_cidr cmd = None" and out: "cmd_ip cmd \<notin> get_all_blocked_ips (sv_store s)"
    and run: "enforce v ap t cmd s = (Ok r, s')"
    and rec: "ap_reconcile ap (get_all_blocked_ips (sv_store s')) (active_cidrs (sv_store s')) (sv_xdp s') = (Inr st, x)"
  shows "cmd_ip cmd \<in> blocked_ips s' \<and> cmd_ip cmd \<notin> get_all_blocked_ips (sv_store s') \<and>
    cmd_ip cmd \<notin> blocked_ips (reconcile_tick ap s')"
proof -
  have "cmd_ip cmd \<in> blocked_ips s'"
    using enforce_view [OF inv new run [unfolded enforce_def]] act by (auto simp: view_def Let_def)
  moreover have "cmd_ip cmd \<notin> get_all_blocked_ips (sv_store s')"
    using block_store [OF run [unfolded enforce_def] new act] out by blast
  moreover from this have "cmd_ip cmd \<notin> blocked_ips (reconcile_tick ap s')" using rec by (simp add: reconcile_tick_def Let_def)
  ultimately show ?thesis by blast
qed

theorem reconcile_undoes_block_witness:
  "\<exists>s'. enforce lab_env lab_stub lab_clock lab_block lab_service = (Ok (enforce_result_of 1 None True), s') \<and>
     V4 0x01020304 \<in> blocked_ips s' \<and> V4 0x01020304 \<notin> blocked_ips (reconcile_tick lab_stub s')"
proof -
  obtain s' where s': "enforce lab_env lab_stub lab_clock lab_block lab_service = (Ok (enforce_result_of 1 None True), s')"
    using lab_enforce by (metis prod.collapse)
  have f: "ring_inv (sv_ring lab_service)" "processed_results lab_service (decision_id lab_block) = None"
    "cmd_ip lab_block \<notin> get_all_blocked_ips (sv_store lab_service)"
    by (simp_all add: service_new_def get_all_blocked_ips_def lab_store_def store_new_def)
  have a: "cmd_action lab_block = ActBlock" "cmd_cidr lab_block = None" "cmd_ip lab_block = V4 0x01020304" by (simp_all add: lab_block_def)
  have "ap_reconcile lab_stub A B x = (Inr \<lparr>rs_last_wal_lsn = 0, rs_pending_blocks = [], rs_pending_unblocks = [], rs_evicted = 0\<rparr>, x)" for A B x
    by (simp add: stub_applier_def)
  from reconcile_undoes_block [OF f(1,2) a(1,2) f(3) s' this] show ?thesis using s' a(3) by auto
qed

text \<open>C19: A network at the zero address loses its deadline and keeps its block. When its lease ends, the unblock
  command for a network whose address is 0.0.0.0 or :: is refused as unspecified, so after the round the network is blocked as before and has no
  deadline left: nothing will release it.\<close>

theorem zero_network_never_expires:
  assumes inv: "ring_inv (sv_ring s)" and inj: "inj_on ids {..<N}" and fresh: "\<And>k. k < N \<Longrightarrow> processed_results s (ids k) = None"
    and many: "length (fst (drain_due ((now - epoch (sv_ring s)) div ns_per_sec) (sv_ring s))) +
      length (order {n. \<exists>d. cidr_expirations s n = Some d \<and> d \<le> now'}) \<le> N"
    and order: "set (order {n. \<exists>d. cidr_expirations s n = Some d \<and> d \<le> now'}) = {n. \<exists>d. cidr_expirations s n = Some d \<and> d \<le> now'} \<and>
      distinct (order {n. \<exists>d. cidr_expirations s n = Some d \<and> d \<le> now'})"
    and zero: "is_unspecified (net_addr n)" and blocked: "n \<in> active_cidrs (sv_store s)"
    and due: "cidr_expirations s n = Some d" "d \<le> now'"
    and run: "expire_due v ap tk ids now now' order s = (Ok (), s')"
  shows "n \<in> active_cidrs (sv_store s') \<and> cidr_expirations s' n = None"
proof -
  note runs = expire_due_runs [OF inv inj fresh many run]
  have "active_cidrs (sv_store (after_ips v ap tk ids now s)) = active_cidrs (sv_store s)" using runs(3) by (simp add: ips_kept_def)
  with expire_cidrs_spec [OF runs(2,1) many conjunct2 [OF order] runs(5)] show ?thesis using order due zero blocked by auto
qed

abbreviation lab_zero :: ip_network where
  "lab_zero \<equiv> \<lparr>net_addr = V4 0, prefix_len = 24\<rparr>"

abbreviation lab_zero_blocked :: "unit service" where
  "lab_zero_blocked \<equiv> lab_service\<lparr>sv_store := lab_store\<lparr>active_cidrs := {lab_zero}\<rparr>, cidr_expirations := [lab_zero \<mapsto> 0]\<rparr>"

theorem zero_network_never_expires_witness:
  "\<exists>s'. expire_due lab_env lab_stub (\<lambda>_. lab_clock) of_nat 0 0 (\<lambda>_. [lab_zero]) lab_zero_blocked = (Ok (), s') \<and>
     lab_zero \<in> active_cidrs (sv_store s') \<and> cidr_expirations s' lab_zero = None"
proof -
  let ?s = lab_zero_blocked
  have ring: "sv_ring ?s = ring_new 0" "processed_results ?s = Map.empty" by (simp_all add: service_new_def)
  have p: "processed_results lab_service = Map.empty" by (simp add: service_new_def)
  have dr: "drain_due 0 (ring_new 0) = ([], ring_new 0)" by (subst drain_due.simps) (simp add: ring_new_def)
  have ep: "epoch (ring_new 0) = 0" by (simp add: ring_new_def)
  have D: "{n. \<exists>d. cidr_expirations ?s n = Some d \<and> d \<le> 0} = {lab_zero}" by auto
  have "\<exists>s'. expire_due lab_env lab_stub (\<lambda>_. lab_clock) of_nat 0 0 (\<lambda>_. [lab_zero]) ?s = (Ok (), s')"
    unfolding expire_due_def ring ep using dr
    by (simp add: try_run_def enforce_def enforce_inner_def ttl_command_def p)
  then obtain s' where s': "expire_due lab_env lab_stub (\<lambda>_. lab_clock) of_nat 0 0 (\<lambda>_. [lab_zero]) ?s = (Ok (), s')" by blast
  have inv: "ring_inv (sv_ring ?s)" unfolding ring by simp
  have inj: "inj_on (of_nat :: nat \<Rightarrow> uuid) {..<1}" by (simp add: inj_on_def)
  have fresh: "processed_results ?s (of_nat k) = None" for k using ring(2) by simp
  have many: "length (fst (drain_due ((0 - epoch (sv_ring ?s)) div ns_per_sec) (sv_ring ?s))) + length [lab_zero] \<le> 1"
    unfolding ring ep using dr by simp
  have order: "set [lab_zero] = {n. \<exists>d. cidr_expirations ?s n = Some d \<and> d \<le> 0} \<and> distinct [lab_zero]" unfolding D by simp
  have z: "is_unspecified (net_addr lab_zero)" "lab_zero \<in> active_cidrs (sv_store ?s)" "cidr_expirations ?s lab_zero = Some 0" by simp_all
  from zero_network_never_expires [where ids = of_nat and N = 1 and now = 0 and now' = 0 and order = "\<lambda>_. [lab_zero]" and s = ?s and
      n = lab_zero and v = lab_env and ap = lab_stub and tk = "\<lambda>_. lab_clock" and s' = s', OF inv inj fresh many order z _ s']
  have "lab_zero \<in> active_cidrs (sv_store s') \<and> cidr_expirations s' lab_zero = None" by simp
  with s' show ?thesis by blast
qed

end
