(* ===== verification/Enforcement_Inv.thy ===== *)
theory Enforcement_Inv
  imports Enforcement_Expiry
begin

text \<open>
  The well-formedness of the enforcement actor in every reachable state, over all its operations in any order, and
  that a round of expiry ends.
\<close>

section \<open>The invariant\<close>

definition drops_ok :: "'x service \<Rightarrow> bool" where
  "drops_ok s \<longleftrightarrow> (\<forall>ip. drops_by_blocked s ip \<noteq> None \<longrightarrow> ip \<in> blocked_ips s)"

definition actor_inv :: "'x service \<Rightarrow> bool" where
  "actor_inv s \<longleftrightarrow> cache_inv s \<and> ring_inv (sv_ring s) \<and> drops_ok s \<and>
     dom (cidr_expirations s) \<subseteq> active_cidrs (sv_store s)"

lemma service_new_inv [simp]: "actor_inv (service_new st x w t)"
  by (simp add: actor_inv_def service_new_def cache_inv_def drops_ok_def)

lemma commit_block_drops:
  assumes "commit_block_state v t cmd s = (r, s')" "drops_ok s"
  shows "drops_ok s'"
  using assms unfolding commit_block_state_def Let_def
  by (auto simp: drops_ok_def split: option.splits prod.splits outcome.splits bool.splits if_splits)

lemma release_drops:
  assumes run: "release_state v t cmd s = (r, s')" and ok: "drops_ok s"
  shows "drops_ok s'"
proof (cases "cmd_cidr cmd")
  case (Some n)
  then show ?thesis using assms by (auto simp: release_state_def drops_ok_def)
next
  case None
  obtain r1 s1 where m: "release_store v t (cmd_ip cmd) s = (r1, s1)" by fastforce
  have s1: "drops_ok s1" using m ok by (auto simp: release_store_def drops_ok_def split: option.splits store_value.splits prod.splits)
  let ?s2 = "s1\<lparr>blocked_ips := blocked_ips s1 - {cmd_ip cmd}, drops_by_blocked := (drops_by_blocked s1)(cmd_ip cmd := None)\<rparr>"
  obtain ds s3 where rm: "release_mesh t cmd ?s2 = (ds, s3)" by fastforce
  have p: "proj_frame ?s2 s3" using release_mesh_frame [of ?s2 t cmd] rm by simp
  have "s' = s1 \<or> s' = clear_lease (cmd_ip cmd) s3"
    using run rm unfolding release_state_def None Let_def option.case m by (cases r1) (auto simp: try_run_def)
  then show ?thesis using s1 p by (auto simp: drops_ok_def proj_frame_def split: if_splits)
qed

lemma remember_drops [simp]: "drops_ok (remember_result r s) = drops_ok s"
  by (simp add: drops_ok_def remember_result_def Let_def split: prod.split)

lemma commit_action_drops:
  assumes inv: "ring_inv (sv_ring s)" and run: "commit_action v ap t cmd lsn s = (r, s')" and ok: "drops_ok s"
  shows "drops_ok s'"
proof (cases "\<exists>x. r = Ok x")
  case True
  then obtain x where x: "r = Ok x" by blast
  from commit_action_Ok [OF run [unfolded x]] obtain s1 s2 where s': "s' = remember_result x s2" and p: "proj_frame s1 s2"
    and c: "(\<exists>q. commit_block_state v t cmd s = (q, s1)) \<or> (\<exists>q. release_state v t cmd s = (q, s1))" by blast
  have "drops_ok s1" using c ok commit_block_drops release_drops by blast
  then show ?thesis using p s' by (simp add: drops_ok_def [of s1] drops_ok_def [of s2] proj_frame_def)
next
  case False
  then have "s' = s" using commit_action_view [OF inv run] by (simp del: view_step.simps)
  then show ?thesis using ok by simp
qed

lemma enforce_drops:
  assumes inv: "ring_inv (sv_ring s)" and run: "enforce_inner v ap t cmd mu d s = (r, s')" and ok: "drops_ok s"
  shows "drops_ok s'"
proof (cases "processed_results s (decision_id cmd) = None \<and> \<not> is_unspecified (cmd_ip cmd)")
  case True
  obtain j s1 where jr: "journal v t cmd mu d s = (j, s1)" by fastforce
  let ?s2 = "case mu of None \<Rightarrow> s1 | Some m \<Rightarrow> s1\<lparr>mesh_blocklist := map_option (merge_mutation t m) (mesh_blocklist s1)\<rparr>"
  have n: "drops_ok s1" "drops_ok ?s2" "ring_inv (sv_ring ?s2)"
    using ok inv journal_fields [OF jr] by (simp_all add: drops_ok_def split: option.split)
  show ?thesis
  proof (cases j)
    case (Ok lsn)
    then have "commit_action v ap t cmd lsn ?s2 = (r, s')" using run True jr by (simp add: enforce_inner_def try_run_def)
    from commit_action_drops [OF n(3) this n(2)] show ?thesis .
  qed (use run True jr n in \<open>auto simp: enforce_inner_def try_run_def\<close>)
next
  case False
  then show ?thesis using run ok by (auto simp: enforce_inner_def split: option.splits)
qed

text \<open>Whether the decision was new or not.\<close>

lemma enforce_view_any:
  assumes "ring_inv (sv_ring s)" "enforce_inner v ap t cmd mu d s = (r, s')"
  shows "ring_kept s s' \<and> (view s' = view s \<or> (\<exists>x. r = Ok x) \<and> view s' = view_step t (epoch (sv_ring s)) cmd (view s))"
proof (cases "processed_results s (decision_id cmd)")
  case None
  from enforce_view [OF assms(1) None assms(2)] show ?thesis by (simp del: view_step.simps split: if_splits)
next
  case (Some x)
  then show ?thesis using assms by (auto simp: enforce_inner_def ring_kept_def)
qed

lemma view_step_nets:
  assumes "dom (av_cidr_leases a) \<subseteq> av_cidrs a"
  shows "dom (av_cidr_leases (view_step t e cmd a)) \<subseteq> av_cidrs (view_step t e cmd a)"
  using assms by (cases "cmd_action cmd"; cases "cmd_cidr cmd") (auto simp: set_or_clear_def Let_def)

lemma enforce_inv:
  assumes inv: "actor_inv s" and run: "enforce_inner v ap t cmd mu d s = (r, s')"
  shows "actor_inv s'"
proof -
  have i: "cache_inv s" "ring_inv (sv_ring s)" "drops_ok s" "dom (av_cidr_leases (view s)) \<subseteq> av_cidrs (view s)"
    using inv by (simp_all add: actor_inv_def view_def)
  note v = enforce_view_any [OF i(2) run]
  have "dom (av_cidr_leases (view s')) \<subseteq> av_cidrs (view s')" using v view_step_nets [OF i(4)] i(4) by metis
  then show ?thesis
    using v enforce_cache [OF i(1) run] enforce_drops [OF i(2) run i(3)]
    by (simp add: actor_inv_def view_def ring_kept_def)
qed

section \<open>The other operations\<close>

lemma expire_ips_inv: "expire_ips v ap tk ids i due s = (r, s') \<Longrightarrow> actor_inv s \<Longrightarrow> actor_inv s'"
proof (induction due arbitrary: i s)
  case (Cons ip due)
  obtain q s1 where e: "enforce v ap (tk i) (ttl_command (ids i) (tk i) ip None) s = (q, s1)" by fastforce
  have s1: "actor_inv s1" by (rule enforce_inv [OF Cons.prems(2) e [unfolded enforce_def]])
  have m: "actor_inv (upd_metrics f s1)" for f using s1 by (simp add: actor_inv_def cache_inv_def drops_ok_def)
  have a: "actor_inv (s1\<lparr>sv_ring := schedule_expiration ip at (sv_ring s1)\<rparr>)" for at
    using s1 schedule_inv [of "sv_ring s1"] by (simp add: actor_inv_def cache_inv_def drops_ok_def)
  show ?case
  proof (cases q)
    case (Ok x)
    then show ?thesis using Cons.IH [OF _ m] Cons.prems(1) e by simp
  next
    case (Err x)
    then show ?thesis using Cons.IH [OF _ s1] Cons.IH [OF _ a] Cons.prems(1) e by (cases x) simp_all
  qed (use Cons.prems(1) e s1 in simp_all)
qed simp

lemma actor_inv_drop_lease: "actor_inv s \<Longrightarrow> actor_inv (s\<lparr>cidr_expirations := (cidr_expirations s)(n := None)\<rparr>)"
  by (auto simp: actor_inv_def cache_inv_def drops_ok_def)

lemma expire_cidrs_inv:
  "expire_cidrs v ap tk ids i due s = (r, s') \<Longrightarrow> actor_inv s \<Longrightarrow> distinct due \<Longrightarrow> set due \<subseteq> active_cidrs (sv_store s) \<Longrightarrow> actor_inv s'"
proof (induction due arbitrary: i s)
  case (Cons n due)
  let ?s = "s\<lparr>cidr_expirations := (cidr_expirations s)(n := None)\<rparr>" and ?c = "ttl_command (ids i) (tk i) (net_addr n) (Some n)"
  obtain q s1 where e: "enforce v ap (tk i) ?c ?s = (q, s1)" by fastforce
  have s0: "actor_inv ?s" by (rule actor_inv_drop_lease [OF Cons.prems(2)])
  have s1: "actor_inv s1" by (rule enforce_inv [OF s0 e [unfolded enforce_def]])
  have "ring_inv (sv_ring ?s)" using s0 unfolding actor_inv_def by blast
  from enforce_view_any [OF this e [unfolded enforce_def]]
  have act: "active_cidrs (sv_store s) - {n} \<subseteq> active_cidrs (sv_store s1)"
    and same: "\<forall>x. q \<noteq> Ok x \<Longrightarrow> active_cidrs (sv_store s1) = active_cidrs (sv_store s)"
    by (auto simp: view_def ttl_command_def Let_def)
  have du: "distinct due" "set due \<subseteq> active_cidrs (sv_store s1)" using Cons.prems(3,4) act by auto
  show ?case
  proof (cases q)
    case (Ok x)
    then show ?thesis using Cons.IH [OF _ s1 du] Cons.prems(1) e by simp
  next
    case (Err x)
    have "n \<in> active_cidrs (sv_store s1)" using same Err Cons.prems(4) by simp
    then have a: "actor_inv (s1\<lparr>cidr_expirations := (cidr_expirations s1)(n \<mapsto> at)\<rparr>)" for at
      using s1 by (auto simp: actor_inv_def cache_inv_def drops_ok_def)
    have d2: "set due \<subseteq> active_cidrs (sv_store (s1\<lparr>cidr_expirations := (cidr_expirations s1)(n \<mapsto> at)\<rparr>))" for at using du(2) by simp
    show ?thesis using Cons.IH [OF _ s1 du] Cons.IH [OF _ a du(1) d2] Cons.prems(1) e Err by (cases x) simp_all
  qed (use Cons.prems(1) e s1 in simp_all)
qed simp

text \<open>A listing of the networks that are due names each once and no other.\<close>

definition lists :: "(ip_network set \<Rightarrow> ip_network list) \<Rightarrow> bool" where
  "lists order \<longleftrightarrow> (\<forall>A. distinct (order A) \<and> set (order A) \<subseteq> A)"

lemma expire_due_inv:
  assumes inv: "actor_inv s" and order: "lists order" and run: "expire_due v ap tk ids now now' order s = (r, s')"
  shows "actor_inv s'"
proof -
  obtain due q where dr: "drain_due ((now - epoch (sv_ring s)) div ns_per_sec) (sv_ring s) = (due, q)" by fastforce
  have "ring_inv q" using drain_spec [of "sv_ring s"] inv dr by (metis actor_inv_def snd_conv)
  then have s0: "actor_inv (s\<lparr>sv_ring := q\<rparr>)" using inv by (simp add: actor_inv_def cache_inv_def drops_ok_def)
  obtain r1 s1 where i: "expire_ips v ap tk ids 0 due (s\<lparr>sv_ring := q\<rparr>) = (r1, s1)" by fastforce
  have s1: "actor_inv s1" by (rule expire_ips_inv [OF i s0])
  let ?D = "order {n. \<exists>d. cidr_expirations s1 n = Some d \<and> d \<le> now'}"
  have D: "distinct ?D" "set ?D \<subseteq> active_cidrs (sv_store s1)" using order s1 by (fastforce simp: lists_def actor_inv_def)+
  show ?thesis
  proof (cases r1)
    case (Ok u)
    then have "expire_cidrs v ap tk ids (length due) ?D s1 = (r, s')" using run dr i by (simp add: expire_due_def try_run_def)
    from expire_cidrs_inv [OF this s1 D] show ?thesis .
  qed (use run dr i s1 in \<open>simp_all add: expire_due_def try_run_def\<close>)
qed

lemma reconcile_inv: "actor_inv s \<Longrightarrow> actor_inv (reconcile_tick ap s)"
  by (auto simp: reconcile_tick_def Let_def actor_inv_def cache_inv_def drops_ok_def restrict_map_def split: prod.split sum.split if_splits)

lemma attribute_dom: "dom (fst acc) \<subseteq> B \<Longrightarrow> dom (fst (fold (attribute_one B) evs acc)) \<subseteq> B"
proof (induction evs arbitrary: acc)
  case (Cons ev evs)
  have "dom (fst (attribute_one B ev acc)) \<subseteq> B" using Cons.prems by (auto simp: attribute_one_def split: prod.splits if_splits)
  then show ?case by (simp add: Cons.IH)
qed simp

lemma attribute_inv:
  assumes "actor_inv s"
  shows "actor_inv (attribute_drops evs s)"
proof -
  obtain drops gaps where f: "fold (attribute_one (blocked_ips s)) evs (drops_by_blocked s, 0) = (drops, gaps)" by fastforce
  have "\<forall>ip. drops ip \<noteq> None \<longrightarrow> ip \<in> blocked_ips s"
    using attribute_dom [of "(drops_by_blocked s, 0)" "blocked_ips s" evs] assms f by (auto simp: actor_inv_def drops_ok_def)
  then show ?thesis using assms f by (simp add: attribute_drops_def actor_inv_def cache_inv_def drops_ok_def)
qed

lemma lease_inv:
  assumes "actor_inv s"
  shows "actor_inv (set_lease ip at t s)" "n \<in> active_cidrs (sv_store s) \<Longrightarrow> actor_inv (set_cidr_lease n at t s)"
    "actor_inv (upd_cidrs (insert n) s)" "actor_inv (upd_shared f s)" "actor_inv (s\<lparr>sv_xdp := x\<rparr>)" "actor_inv (s\<lparr>mesh_applied_ips := ips\<rparr>)"
    "actor_inv (clear_cidr_lease n (upd_cidrs (\<lambda>c. c - {n}) s))"
  using assms schedule_inv [of "sv_ring s"]
  by (auto simp: actor_inv_def cache_inv_def drops_ok_def set_lease_def set_cidr_lease_def clear_cidr_lease_def split: if_splits)

lemma restore_cidr_inv: "restore_cidr_blocks ap ps s = (r, s') \<Longrightarrow> actor_inv s \<Longrightarrow> actor_inv s'"
proof (induction ps arbitrary: s)
  case (Cons p ps)
  obtain d t n rem where p: "p = (d, t, n, rem)" by (metis surj_pair)
  let ?s1 = "upd_cidrs (insert n) s"
  have s1: "actor_inv ?s1" "n \<in> active_cidrs (sv_store ?s1)" using lease_inv(3) [OF Cons.prems(2)] by simp_all
  show ?case
  proof (cases "instant_checked_add (ck_mono t) (unat rem)")
    case None
    then show ?thesis using Cons.prems(1) p s1 by (simp add: Let_def)
  next
    case (Some at)
    let ?s2 = "if rem > 0 then set_cidr_lease n at t ?s1 else upd_shared (remove_cidr_expiration n) ?s1"
    have s2: "actor_inv ?s2" using lease_inv(2,4) [OF s1(1)] s1(2) by simp
    have run: "restore_cidr_blocks ap ps (?s2\<lparr>sv_xdp := snd (ap_cidr_block ap n d rem (sv_xdp ?s2))\<rparr>) = (r, s')"
      using Cons.prems(1) p Some by (simp only: restore_cidr_blocks.simps Let_def option.case)
    show ?thesis by (rule Cons.IH [OF run lease_inv(5) [OF s2]])
  qed
qed simp

lemma restore_leases_inv: "restore_leases ps s = (r, s') \<Longrightarrow> actor_inv s \<Longrightarrow> actor_inv s'"
  by (induction ps s rule: restore_leases.induct) (auto simp: lease_inv(1) split: if_splits option.splits)

inductive actor_step :: "env \<Rightarrow> 'x applier \<Rightarrow> 'x service \<Rightarrow> 'x service \<Rightarrow> bool" for v ap where
  step_enforce: "enforce_inner v ap t cmd mu d s = (r, s') \<Longrightarrow> actor_step v ap s s'"
| step_expire: "lists order \<Longrightarrow> expire_due v ap tk ids now now' order s = (r, s') \<Longrightarrow> actor_step v ap s s'"
| step_reconcile: "actor_step v ap s (reconcile_tick ap s)"
| step_drops: "actor_step v ap s (attribute_drops evs s)"
| step_mirror: "actor_step v ap s (publish_mirror now_ns now_mono s)"
| step_restore: "restore_cidr_blocks ap ps s = (r, s') \<Longrightarrow> actor_step v ap s s'"
| step_leases: "restore_leases qs s = (r, s') \<Longrightarrow> actor_step v ap s s'"
| step_remove: "actor_step v ap s (remove_restored_cidr ap d n s)"
| step_refresh: "actor_step v ap s (refresh_mesh_applied_ips now_ms at s)"

lemma actor_step_inv: "actor_step v ap s s' \<Longrightarrow> actor_inv s \<Longrightarrow> actor_inv s'"
proof (induction rule: actor_step.induct)
  case (step_enforce t cmd mu d s r s')
  from enforce_inv [OF step_enforce(2,1)] show ?case .
next
  case (step_expire order tk ids now now' s r s')
  from expire_due_inv [OF step_expire(3,1,2)] show ?case .
next
  case (step_reconcile s)
  then show ?case by (rule reconcile_inv)
next
  case (step_drops s evs)
  then show ?case by (rule attribute_inv)
next
  case (step_mirror s now_ns now_mono)
  then show ?case unfolding publish_mirror_def by (rule lease_inv(4))
next
  case (step_restore ps s r s')
  from restore_cidr_inv [OF this] show ?case .
next
  case (step_leases qs s r s')
  from restore_leases_inv [OF this] show ?case .
next
  case (step_remove s d n)
  from lease_inv(5) [OF lease_inv(7) [OF this]] show ?case by (simp add: remove_restored_cidr_def Let_def)
next
  case (step_refresh s now_ms at)
  then show ?case unfolding refresh_mesh_applied_ips_def by (cases "mesh_blocklist s") (simp_all only: option.case lease_inv(6))
qed

lemma actor_reach_inv: "(actor_step v ap)\<^sup>*\<^sup>* s s' \<Longrightarrow> actor_inv s \<Longrightarrow> actor_inv s'"
  by (induction rule: rtranclp_induct) (blast intro: actor_step_inv)+

text \<open>C11: The actor stays well formed. After any sequence of commands (answered or not), expiry rounds,
  reconciliations, drop attributions, restores and mirror refreshes, in any order and even when one of them
  was cut short by a panic, the cache holds at most 65536 decisions, each under its own identifier; the
  deadline index is consistent; drops are counted only for blocked addresses; and every network with a deadline is blocked.\<close>

theorem actor_wellformed:
  assumes "(actor_step v ap)\<^sup>*\<^sup>* (service_new st x w t) s"
  shows "card (dom (processed_results s)) \<le> 65536 \<and> (\<forall>d r. processed_results s d = Some r \<longrightarrow> res_decision_id r = d) \<and>
    ring_inv (sv_ring s) \<and> dom (drops_by_blocked s) \<subseteq> blocked_ips s \<and> dom (cidr_expirations s) \<subseteq> active_cidrs (sv_store s)"
proof -
  have "actor_inv s" by (rule actor_reach_inv [OF assms service_new_inv])
  then have c: "cache_inv s" and r: "ring_inv (sv_ring s)" "drops_ok s" "dom (cidr_expirations s) \<subseteq> active_cidrs (sv_store s)"
    by (simp_all add: actor_inv_def)
  have "card (dom (processed_results s)) = length (processed_order s)" using c by (simp add: cache_inv_def distinct_card)
  then have "card (dom (processed_results s)) \<le> 65536" "\<forall>d r. processed_results s d = Some r \<longrightarrow> res_decision_id r = d"
    using c by (simp_all add: cache_inv_def cache_cap_def)
  moreover have "dom (drops_by_blocked s) \<subseteq> blocked_ips s" using r(2) by (auto simp: drops_ok_def)
  ultimately show ?thesis using r by blast
qed

theorem actor_wellformed_witness:
  "dom (drops_by_blocked (attribute_drops [\<lparr>ev_ip = V4 5, ev_ts_ns = 0, ev_slot = 0\<rparr>] lab_service)) \<subseteq>
     blocked_ips (attribute_drops [\<lparr>ev_ip = V4 5, ev_ts_ns = 0, ev_slot = 0\<rparr>] lab_service)"
proof -
  have "(actor_step lab_env lab_stub)\<^sup>*\<^sup>* lab_service (attribute_drops [\<lparr>ev_ip = V4 5, ev_ts_ns = 0, ev_slot = 0\<rparr>] lab_service)"
    by (rule r_into_rtranclp) (rule step_drops)
  from actor_wellformed [OF this] show ?thesis by blast
qed

section \<open>Expiry ends\<close>

lemma ram_limit_prims [simp]:
  "ram_limit_mb (traffic (put_entry k e s)) = ram_limit_mb (traffic s)" "ram_limit_mb (traffic (index_add k s)) = ram_limit_mb (traffic s)"
  "ram_limit_mb (traffic (index_del k s)) = ram_limit_mb (traffic s)" "ram_limit_mb (traffic (sync_blocked_index k b b' s)) = ram_limit_mb (traffic s)"
  "ram_limit_mb (traffic (ttl_fetch_add s)) = ram_limit_mb (traffic s)" "ram_limit_mb (traffic (ttl_fetch_sub s)) = ram_limit_mb (traffic s)"
  "ram_limit_mb (traffic (inserts_fetch_add s)) = ram_limit_mb (traffic s)" "ram_limit_mb (traffic (used_fetch_add n s)) = ram_limit_mb (traffic s)"
  "ram_limit_mb (traffic (used_fetch_sub n s)) = ram_limit_mb (traffic s)" "ram_limit_mb (traffic (ram_fetch_add n s)) = ram_limit_mb (traffic s)"
  "ram_limit_mb (traffic (ram_fetch_sub n s)) = ram_limit_mb (traffic s)"
  by (simp_all add: put_entry_def index_add_def index_del_def sync_blocked_index_def ttl_fetch_add_def ttl_fetch_sub_def
      inserts_fetch_add_def used_fetch_add_def used_fetch_sub_def ram_fetch_add_def ram_fetch_sub_def)

lemma insert_occupied_limit [simp]: "ram_limit_mb (traffic (insert_occupied base k old e s)) = ram_limit_mb (traffic s)"
  by (simp add: insert_occupied_def Let_def ram_resize_def used_resize_def ttl_move_def split: bool.split)

text \<open>An actor without a log, whose memory limit fits in a word.\<close>

definition calm :: "'x service \<Rightarrow> bool" where
  "calm s \<longleftrightarrow> sv_wal s = None \<and> unat (ram_limit_mb (traffic (sv_store s))) * (1024 * 1024) < 2 ^ 64"

lemma release_store_calm:
  assumes "calm s"
  shows "\<exists>s'. release_store v t ip s = (Ok (), s') \<and> calm s'"
  using assms
  by (auto simp: release_store_def calm_def ram_limit_def store_get_def store_insert_def Let_def split: option.splits store_value.splits if_splits)

lemma calm_steps [simp]:
  "calm (s\<lparr>blocked_ips := b\<rparr>) = calm s" "calm (s\<lparr>drops_by_blocked := m\<rparr>) = calm s" "calm (clear_lease ip s) = calm s"
  "calm (clear_cidr_lease n s) = calm s" "calm (upd_cidrs f s) = calm s" "calm (upd_metrics h s) = calm s" "calm (s\<lparr>sv_ring := r\<rparr>) = calm s"
  "calm (s\<lparr>cidr_expirations := c\<rparr>) = calm s" "calm (remember_result q s) = calm s"
  by (simp_all add: calm_def clear_lease_def clear_cidr_lease_def remember_result_def Let_def split: prod.split)

lemma proj_calm: "proj_frame s s' \<Longrightarrow> calm s' = calm s"
  by (simp add: proj_frame_def calm_def)

lemma release_state_calm:
  assumes "calm s"
  shows "\<exists>ds s'. release_state v t cmd s = (Ok ds, s') \<and> calm s'"
proof (cases "cmd_cidr cmd")
  case (Some n)
  then show ?thesis using assms by (simp add: release_state_def)
next
  case None
  obtain s1 where r: "release_store v t (cmd_ip cmd) s = (Ok (), s1)" "calm s1" using release_store_calm [OF assms] by blast
  let ?s2 = "s1\<lparr>blocked_ips := blocked_ips s1 - {cmd_ip cmd}, drops_by_blocked := (drops_by_blocked s1)(cmd_ip cmd := None)\<rparr>"
  obtain ds s3 where m: "release_mesh t cmd ?s2 = (ds, s3)" by fastforce
  have "calm s3" using proj_calm [OF release_mesh_frame [of ?s2 t cmd]] m r(2) by simp
  then show ?thesis using r m None by (simp add: release_state_def try_run_def)
qed

lemma enforce_calm:
  assumes "calm s" "cmd_action cmd = ActUnblock"
  shows "\<exists>r s'. enforce v ap t cmd s = (r, s') \<and> calm s' \<and> r \<noteq> Panic \<and> r \<noteq> Deadlock"
proof (cases "processed_results s (decision_id cmd) = None \<and> \<not> is_unspecified (cmd_ip cmd)")
  case True
  have j: "journal v t cmd None AppendRecord s = (Ok None, s)" using assms(1) by (simp add: journal_def append_wal_def log_entry_def calm_def)
  obtain ds s1 where r: "release_state v t cmd s = (Ok ds, s1)" "calm s1" using release_state_calm [OF assms(1)] by blast
  obtain x s2 where a: "apply_release_projection ap cmd ds s1 = (x, s2)" by fastforce
  have "calm s2" using proj_calm [OF release_projection_frame [of s1 ap cmd ds]] a r(2) by simp
  then show ?thesis using True j r a assms(2) by (simp add: enforce_def enforce_inner_def try_run_def commit_action_def Let_def)
next
  case False
  then show ?thesis using assms(1) by (auto simp: enforce_def enforce_inner_def split: option.splits)
qed

lemma expire_ips_calm: "calm s \<Longrightarrow> \<exists>s'. expire_ips v ap tk ids i due s = (Ok (), s') \<and> calm s'"
proof (induction due arbitrary: i s)
  case (Cons ip due)
  obtain r s1 where e: "enforce v ap (tk i) (ttl_command (ids i) (tk i) ip None) s = (r, s1)" "calm s1" "r \<noteq> Panic" "r \<noteq> Deadlock"
    using enforce_calm [OF Cons.prems] by (metis ttl_command_def enforce_command.select_convs(10))
  show ?case
  proof (cases r)
    case (Ok x)
    then show ?thesis using e Cons.IH [of "upd_metrics (\<lambda>m. m\<lparr>m_blocks_expired := m_blocks_expired m + 1\<rparr>) s1" "Suc i"] by simp
  next
    case (Err x)
    then show ?thesis using e Cons.IH [of s1 "Suc i"] Cons.IH [of "s1\<lparr>sv_ring := schedule_expiration ip (ck_mono (tk i) + ns_per_sec) (sv_ring s1)\<rparr>" "Suc i"]
      by (cases x) simp_all
  qed (use e in simp_all)
qed simp

lemma expire_cidrs_calm: "calm s \<Longrightarrow> \<exists>s'. expire_cidrs v ap tk ids i due s = (Ok (), s') \<and> calm s'"
proof (induction due arbitrary: i s)
  case (Cons n due)
  have c: "calm (s\<lparr>cidr_expirations := (cidr_expirations s)(n := None)\<rparr>)" using Cons.prems by simp
  obtain r s1 where e: "enforce v ap (tk i) (ttl_command (ids i) (tk i) (net_addr n) (Some n)) (s\<lparr>cidr_expirations := (cidr_expirations s)(n := None)\<rparr>) = (r, s1)"
    "calm s1" "r \<noteq> Panic" "r \<noteq> Deadlock"
    using enforce_calm [OF c] by (metis ttl_command_def enforce_command.select_convs(10))
  show ?case
  proof (cases r)
    case (Ok x)
    then show ?thesis using e Cons.IH [of s1 "Suc i"] by simp
  next
    case (Err x)
    then show ?thesis using e Cons.IH [of s1 "Suc i"] Cons.IH [of "s1\<lparr>cidr_expirations := (cidr_expirations s1)(n \<mapsto> ck_mono (tk i) + ns_per_sec)\<rparr>" "Suc i"]
      by (cases x) simp_all
  qed (use e in simp_all)
qed simp

text \<open>C17: A round of expiry ends. On an actor without a log whose memory limit fits a machine word, draining the
  ring and releasing what it holds always runs to its end, whatever is due, whatever the dataplane answers and whatever
  identifiers are drawn: no bucket is drained twice and no release panics.\<close>

theorem expire_completes:
  assumes "sv_wal s = None" "unat (ram_limit_mb (traffic (sv_store s))) * (1024 * 1024) < 2 ^ 64"
  shows "\<exists>s'. expire_due v ap tk ids now now' order s = (Ok (), s')"
proof -
  obtain due q where dr: "drain_due ((now - epoch (sv_ring s)) div ns_per_sec) (sv_ring s) = (due, q)" by fastforce
  have "calm (s\<lparr>sv_ring := q\<rparr>)" using assms by (simp add: calm_def)
  from expire_ips_calm [OF this] obtain s1 where i: "expire_ips v ap tk ids 0 due (s\<lparr>sv_ring := q\<rparr>) = (Ok (), s1)" "calm s1" by blast
  from expire_cidrs_calm [OF i(2)] show ?thesis using dr i(1) by (simp add: expire_due_def try_run_def) blast
qed

theorem expire_completes_witness:
  "\<exists>s'. expire_due lab_env lab_stub (\<lambda>_. lab_clock) of_nat 7 7 (\<lambda>_. []) lab_leased = (Ok (), s')"
proof -
  have "sv_wal lab_leased = None" "ram_limit_mb (traffic (sv_store lab_leased)) = 512"
    by (simp_all add: service_new_def lab_store_def)
  then show ?thesis using expire_completes [of lab_leased] by simp
qed

end
