(* ===== verification/Spec2Isabelle.thy ===== *)
theory Spec2Isabelle
  imports Ramwal_Limits Enforcement_Wal Enforcement_Inv
begin

text \<open>
  RamShield is a DDoS mitigation service in Rust. Detection and operators issue block and unblock commands to one
  enforcement actor. The actor writes each command to a write-ahead log, changes the behaviour store, the leases and
  the kernel dataplane, tells the other nodes of the mesh, and answers. Leases end through a TTL ring, a checkpoint
  cuts the log, and after a restart the log is recovered and replayed. This library models the deterministic core of
  that path and proves what it guarantees. Paths are relative to \<^verbatim>\<open>src/\<close>.

  \<^bold>\<open>Conventions.\<close> Machine integers are words of their width, with wrapping, checked and saturating operations as in the
  sources. A call returns an \<open>outcome\<close>: a value, an error, a panic, or a deadlock (a mutex the caller already
  holds). State is passed explicitly and each method of a component is one function on its record. Clock readings, random
  identifiers and the iteration order of hash maps are arguments. Third-party code is an argument with a named law:
  CRC-32C is any function, LZ4 satisfies \<open>lz4_ok\<close> (what it compressed decompresses to the original), the JSON coding
  satisfies \<open>serde_ok\<close> (what it encoded decodes to the original); the witnesses instantiate them. System calls of the log
  can fail: the field \<open>faults\<close> of the directory lists the outcomes of the next ones, a failed write may be
  partial, and an exhausted list means success. No definition needs fuel: the scanner recurses on the bytes left, the drain of
  the ring on the number of buckets, all other loops on lists.

  \<^bold>\<open>Prelude.\<close> \<open>Rust_Prelude\<close>: words, outcomes, byte order (locale \<open>byte_codec\<close>), finite sums over maps, and
  the locale \<open>invariant_system\<close> of a state machine with an invariant. \<open>Rust_Text\<close>: printing and parsing of numbers, lines.

  \<^bold>\<open>Addresses and vocabulary.\<close> \<open>Ip_Network\<close> (\<^verbatim>\<open>crates/ramshield-types/src/ip_network.rs\<close>): networks, their construction,
  membership as agreement on the prefix bits, and the packed form. \<open>Types\<close> (\<^verbatim>\<open>error.rs\<close>, \<^verbatim>\<open>command.rs\<close>, \<^verbatim>\<open>util.rs\<close>): errors,
  commands, block reasons, the bounded queue.

  \<^bold>\<open>Behaviour store\<close> (\<^verbatim>\<open>crates/ramshield-storage/src/store/\<close>). \<open>Store_Types\<close>, \<open>Store_Subnets\<close> and \<open>Store\<close> hold records, the
  subnet table and every operation on entries, counters and the index of blocked keys; the lock of a
  map shard makes each operation one step. \<open>Store_Inv\<close>: the counters of bytes, RAM and expiries are exact after any operations; the blocked
  index is exact as long as \<^verbatim>\<open>update_block_state\<close>, which does not maintain it, is not used; the effects of
  blocking, insertion and the sweep of expired entries.

  \<^bold>\<open>TTL ring\<close> (\<^verbatim>\<open>crates/ramshield-enforcement/src/service/expiry.rs\<close>). \<open>Expiry_Ring\<close>: buckets of one second with positions for constant-time
  removal; the ring implements a map of deadlines (locale \<open>lease_queue\<close>), and a drain returns exactly what
  is due.

  \<^bold>\<open>Replicated blocklist\<close> (\<^verbatim>\<open>crates/ramshield-mesh/src/{hlc,aworset}.rs\<close>). \<open>Hlc\<close>: the hybrid logical clock. \<open>Aworset\<close>: bans and tombstones by
  origin. \<open>Aworset_Props\<close>: replicas that received the same deltas agree (locale \<open>state_based\<close>).
  \<open>Aworset_Safety\<close>: concurrent bans survive, snapshots round-trip, purging and collecting tombstones is
  safe up to one defect.

  \<^bold>\<open>Write-ahead log\<close> (\<^verbatim>\<open>crates/ramwal/src/\<close>). \<open>Ramwal_Record\<close>, \<open>Ramwal_Scan\<close> and \<open>Ramwal_Recovery\<close>: the record format byte for
  byte, the scanner, the scan of a directory with repair and quarantine. \<open>Ramwal_Wal\<close>: the writer with its
  buffer, durability modes, rotation, checkpoints, retention and opening. \<open>Ramwal_Inv\<close>, \<open>Ramwal_Steps\<close>, \<open>Ramwal_Open\<close> and
  \<open>Ramwal_Reach\<close>: an invariant of the directory and of the open log, kept by every operation whatever system calls fail, and by
  a machine crash (\<open>crash\<close>: each file keeps a prefix that contains its synced bytes, and the directory keeps
  or loses the entries and the manifest that were not synced). \<open>Ramwal_Props\<close>: the histories \<open>wal_reach\<close> and the theorems over them.
  These histories make two assumptions, both needed: the stored form of an append respects the record limit
  (\<open>op_fits\<close>), and a run of the process ends with a machine crash, not with a
  restart that finds unsynced bytes in the files. The durability theorems also assume that the crash lost
  no directory entry. \<open>Ramwal_Limits\<close> has a counterexample without each of the three, and the deadlock of
  rotation.

  \<^bold>\<open>Adapter\<close> (\<^verbatim>\<open>crates/ramshield-storage/src/wal.rs\<close>). \<open>Storage_Wal\<close>: entries, error mapping, append, sync, replay whole and in
  pages, checkpoints, and reopening, which writes the buffer of the replaced log into the segment. What is appended and synced is
  replayed; a finished checkpoint is durable; paging is exact; poisoning is never reported; reopening can repeat a
  sequence number.

  \<^bold>\<open>Enforcement actor\<close> (\<^verbatim>\<open>crates/ramshield-enforcement/src/\<close>). \<open>Enforcement\<close>: the state of the actor and the whole path of a command
  (journal, store, leases, dataplane, mesh, decision cache), expiry, reconciliation, drop attribution, the
  checkpoint mirror and the restore paths. The dataplane trait is the record \<open>applier\<close>, an argument.
  \<open>Enforcement_Props\<close>: frames and the decision cache, exact for the next 65535 new decisions. \<open>Enforcement_View\<close>: a command refines its
  contract on blocked addresses, networks and deadlines; errors leave no trace. \<open>Enforcement_Expiry\<close>: each due
  lease is settled by the answer to its release command; a reconciliation undoes blocks; a network at the zero
  address never expires. \<open>Enforcement_Inv\<close>: the actor is well formed after any operations, and a round of expiry without a
  log ends. \<open>Enforcement_Wal\<close>: an answered command is recovered after a crash.

  \<^bold>\<open>Not modelled.\<close> The mesh transport and the task that applies incoming mesh messages (sockets, TLS, asynchronous
  channels), the select loop of the actor, the kernel programs behind the dataplane trait, detection, forecasting and
  analytics (multi-threaded, floating point), the wire protocol, IPC server and dashboard, configuration files, process start-up,
  the shared-memory NAT table, and the replay of decoded entries into the store. Interleavings of threads inside one
  method are not modelled: the store and the log take a lock, and the blocklist is written by the actor alone.
\<close>

end
